(* ===== verification/Prelude.thy ===== *)
theory Prelude
  imports Main "HOL-Library.Signed_Division"
begin

text \<open>
  The vocabulary every component of the development shares: Go strings and byte slices
  (both sequences of bytes), instants and durations in nanoseconds, the wrap-around of
  \<^verbatim>\<open>int64\<close>, \<^verbatim>\<open>strconv.FormatInt\<close> and \<^verbatim>\<open>strconv.ParseInt\<close> in base ten with their round trip,
  \<^verbatim>\<open>hex.EncodeToString\<close> and \<^verbatim>\<open>binary.BigEndian\<close>. The collections \<open>go_simps\<close> and \<open>go_defs\<close> carry the facts the
  component proofs rewrite with.
\<close>

named_theorems go_simps \<open>rewrite rules of the Go standard library model\<close>
named_theorems go_defs \<open>definitions of thin wrappers, unfolded by the component proofs\<close>

section \<open>Types\<close>

text \<open>A Go string is a sequence of bytes and converts to \<^verbatim>\<open>[]byte\<close> byte by byte, so both are
  \<^typ>\<open>string\<close>; an instant is the number of nanoseconds since the epoch and a
  \<^verbatim>\<open>time.Duration\<close> a number of nanoseconds.\<close>

type_synonym bytes = string
type_synonym instant = int
type_synonym duration = int

abbreviation Second :: duration where "Second \<equiv> 1000000000"
abbreviation Minute :: duration where "Minute \<equiv> 60000000000"
abbreviation Hour :: duration where "Hour \<equiv> 3600000000000"

section \<open>Machine integers\<close>

text \<open>Go's \<^verbatim>\<open>int\<close> and \<^verbatim>\<open>int64\<close> are 64 bits wide in two's complement; addition and
  multiplication wrap around.\<close>

abbreviation MaxInt64 :: int where "MaxInt64 \<equiv> 9223372036854775807"
abbreviation MinInt64 :: int where "MinInt64 \<equiv> - 9223372036854775808"

definition wrap64 :: "int \<Rightarrow> int" where
  "wrap64 n = (n + 9223372036854775808) mod 18446744073709551616 - 9223372036854775808"

definition in_int64 :: "int \<Rightarrow> bool" where
  "in_int64 n \<longleftrightarrow> MinInt64 \<le> n \<and> n \<le> MaxInt64"

lemma wrap64_in_int64 [simp]: "in_int64 (wrap64 n)"
proof -
  have "0 \<le> (n + 9223372036854775808) mod 18446744073709551616"
    and "(n + 9223372036854775808) mod 18446744073709551616 < 18446744073709551616"
    by simp_all
  then show ?thesis unfolding wrap64_def in_int64_def by linarith
qed

lemma wrap64_id [simp]: "in_int64 n \<Longrightarrow> wrap64 n = n"
  by (simp add: wrap64_def in_int64_def mod_pos_pos_trivial)

lemma wrap64_above: "MaxInt64 < n \<Longrightarrow> n < 18446744073709551616 \<Longrightarrow> wrap64 n = n - 18446744073709551616"
proof -
  assume n: "MaxInt64 < n" "n < 18446744073709551616"
  have "(n + 9223372036854775808) mod 18446744073709551616 = (n - 9223372036854775808) mod 18446744073709551616"
    using mod_add_self2 [of "n - 9223372036854775808" 18446744073709551616] by (simp add: algebra_simps)
  also have "\<dots> = n - 9223372036854775808" using n by (simp add: mod_pos_pos_trivial)
  finally show ?thesis by (simp add: wrap64_def)
qed

lemma wrap64_idem [simp]: "wrap64 (wrap64 n) = wrap64 n"
  by simp

lemma sdiv_nonneg: "0 \<le> a \<Longrightarrow> 0 < b \<Longrightarrow> a sdiv b = a div b" for a b :: int
  by (cases "a = 0") (simp_all add: signed_divide_int_def)

lemma smod_nonneg: "0 \<le> a \<Longrightarrow> 0 < b \<Longrightarrow> a smod b = a mod b" for a b :: int
  by (cases "a = 0") (simp_all add: signed_modulo_int_def)

section \<open>Decimal text\<close>

definition digit_char :: "nat \<Rightarrow> char" where
  "digit_char d = char_of (48 + d)"

definition is_digit :: "char \<Rightarrow> bool" where
  "is_digit c \<longleftrightarrow> 48 \<le> (of_char c :: nat) \<and> (of_char c :: nat) \<le> 57"

definition digit_val :: "char \<Rightarrow> nat" where
  "digit_val c = of_char c - 48"

fun show_nat :: "nat \<Rightarrow> string" where
  "show_nat n = (if n < 10 then [digit_char n] else show_nat (n div 10) @ [digit_char (n mod 10)])"

declare show_nat.simps [simp del]

definition read_nat :: "string \<Rightarrow> nat" where
  "read_nat s = foldl (\<lambda>acc c. 10 * acc + digit_val c) 0 s"

lemma of_char_digit: "d < 10 \<Longrightarrow> (of_char (digit_char d) :: nat) = 48 + d"
  by (simp add: digit_char_def of_char_of)

lemma digit_val_char [simp]: "d < 10 \<Longrightarrow> digit_val (digit_char d) = d"
  by (simp add: digit_val_def of_char_digit)

lemma is_digit_char [simp]: "d < 10 \<Longrightarrow> is_digit (digit_char d)"
  by (simp add: is_digit_def of_char_digit)

lemma show_nat_nonempty [simp]: "show_nat n \<noteq> []"
  by (subst show_nat.simps) simp

lemma show_nat_digits: "c \<in> set (show_nat n) \<Longrightarrow> is_digit c"
proof (induction n rule: show_nat.induct)
  case (1 n)
  then show ?case
    by (cases "n < 10") (auto simp: show_nat.simps [of n])
qed

lemma read_show_nat [simp]: "read_nat (show_nat n) = n"
proof (induction n rule: show_nat.induct)
  case (1 n)
  show ?case
  proof (cases "n < 10")
    case True
    then show ?thesis by (simp add: show_nat.simps [of n] read_nat_def)
  next
    case False
    with 1 have "read_nat (show_nat (n div 10)) = n div 10" by simp
    with False show ?thesis
      by (simp add: show_nat.simps [of n] read_nat_def)
  qed
qed

lemma show_nat_inj [simp]: "show_nat m = show_nat n \<longleftrightarrow> m = n"
  by (metis read_show_nat)

text \<open>\<^verbatim>\<open>strconv.FormatInt(n, 10)\<close> and \<^verbatim>\<open>strconv.Itoa\<close>.\<close>

definition format_int :: "int \<Rightarrow> string" where
  "format_int n = (if n < 0 then CHR ''-'' # show_nat (nat (- n)) else show_nat (nat n))"

text \<open>\<^verbatim>\<open>strconv.ParseInt(s, 10, 64)\<close> and \<^verbatim>\<open>strconv.Atoi\<close>: an optional sign, then at least one
  digit and nothing else, within 64 bits; every other text is an error (\<^const>\<open>None\<close>).\<close>

definition parse_digits :: "string \<Rightarrow> int option" where
  "parse_digits s = (if s \<noteq> [] \<and> list_all is_digit s then Some (int (read_nat s)) else None)"

definition parse_int :: "string \<Rightarrow> int option" where
  "parse_int s =
     (let m = (case s of
                 [] \<Rightarrow> None
               | c # cs \<Rightarrow> if c = CHR ''-'' then map_option uminus (parse_digits cs)
                          else if c = CHR ''+'' then parse_digits cs
                          else parse_digits s)
      in case m of None \<Rightarrow> None | Some n \<Rightarrow> if in_int64 n then Some n else None)"

lemma parse_digits_show_nat [simp]: "parse_digits (show_nat n) = Some (int n)"
  by (simp add: parse_digits_def list_all_iff show_nat_digits)

lemma not_is_digit_sign [simp]: "\<not> is_digit (CHR ''-'')" "\<not> is_digit (CHR ''+'')" "\<not> is_digit (CHR '':'')"
  by (simp_all add: is_digit_def)

lemma parse_format_int [simp]: "in_int64 n \<Longrightarrow> parse_int (format_int n) = Some n"
proof (cases "n < 0")
  case True
  assume "in_int64 n"
  with True show ?thesis by (simp add: format_int_def parse_int_def)
next
  case False
  assume "in_int64 n"
  obtain c cs where c: "show_nat (nat n) = c # cs"
    by (cases "show_nat (nat n)") simp_all
  then have "is_digit c" by (metis list.set_intros(1) show_nat_digits)
  then have "c \<noteq> CHR ''-''" "c \<noteq> CHR ''+''" by auto
  with c have "parse_int (show_nat (nat n)) = (case parse_digits (show_nat (nat n)) of
      None \<Rightarrow> None | Some n \<Rightarrow> if in_int64 n then Some n else None)"
    by (simp add: parse_int_def)
  with False \<open>in_int64 n\<close> show ?thesis by (simp add: format_int_def)
qed

lemma parse_int_range: "parse_int s = Some n \<Longrightarrow> in_int64 n"
  by (auto simp: parse_int_def Let_def split: option.splits if_splits)

lemma colon_notin_format_int [simp]: "CHR '':'' \<notin> set (format_int n)"
proof -
  have "CHR '':'' \<notin> set (show_nat m)" for m
    using show_nat_digits [of "CHR '':''" m] by auto
  then show ?thesis by (simp add: format_int_def)
qed

lemma format_int_inj [simp]: "format_int m = format_int n \<longleftrightarrow> m = n"
proof
  assume eq: "format_int m = format_int n"
  have "\<And>k. k \<ge> 0 \<Longrightarrow> hd (format_int k) \<noteq> CHR ''-''"
    by (metis format_int_def hd_in_set not_is_digit_sign(1) not_less show_nat_digits show_nat_nonempty)
  moreover have "\<And>k. k < 0 \<Longrightarrow> hd (format_int k) = CHR ''-''" by (simp add: format_int_def)
  ultimately have "m < 0 \<longleftrightarrow> n < 0" using eq by (metis not_less)
  with eq show "m = n" by (auto simp: format_int_def nat_eq_iff split: if_splits)
qed simp

section \<open>Strings\<close>

text \<open>\<^verbatim>\<open>strings.HasPrefix\<close>.\<close>

definition has_prefix :: "string \<Rightarrow> string \<Rightarrow> bool" where
  "has_prefix s p \<longleftrightarrow> take (length p) s = p"

lemma has_prefix_append [simp]: "has_prefix (p @ s) p"
  by (simp add: has_prefix_def)

lemma has_prefix_iff: "has_prefix s p \<longleftrightarrow> (\<exists>t. s = p @ t)"
  unfolding has_prefix_def by (metis append_eq_conv_conj append_take_drop_id)

text \<open>Keys are built from segments separated by a character the segments do not contain; the
  first segment and the rest can be read back.\<close>

lemma segment_inj:
  assumes "c \<notin> set a" "c \<notin> set a'"
  shows "a @ c # r = a' @ c # r' \<longleftrightarrow> a = a' \<and> r = r'"
  using assms
proof (induction a arbitrary: a')
  case Nil
  then show ?case by (cases a') auto
next
  case (Cons x a)
  then show ?case by (cases a') auto
qed

lemma last_segment_inj:
  assumes "c \<notin> set b" "c \<notin> set b'"
  shows "r @ c # b = r' @ c # b' \<longleftrightarrow> r = r' \<and> b = b'"
proof
  assume "r @ c # b = r' @ c # b'"
  then have "rev b @ c # rev r = rev b' @ c # rev r'"
    by (metis append.assoc append_Cons append_Nil rev.simps(2) rev_append)
  with assms show "r = r' \<and> b = b'" by (simp add: segment_inj)
qed simp

text \<open>\<^verbatim>\<open>hex.EncodeToString\<close>: two lower-case digits a byte.\<close>

definition hex_digit :: "nat \<Rightarrow> char" where
  "hex_digit d = (if d < 10 then char_of (48 + d) else char_of (87 + d))"

definition hex_encode :: "bytes \<Rightarrow> string" where
  "hex_encode bs = concat (map (\<lambda>b. let n = of_char b in [hex_digit (n div 16), hex_digit (n mod 16)]) bs)"

lemma hex_encode_Nil_iff [simp]: "hex_encode b = [] \<longleftrightarrow> b = []"
  by (cases b) (auto simp: hex_encode_def Let_def)

lemma length_hex_encode [simp]: "length (hex_encode bs) = 2 * length bs"
  by (induction bs) (simp_all add: hex_encode_def Let_def)

lemma of_char_hex_digit: "d < 16 \<Longrightarrow> (of_char (hex_digit d) :: nat) = (if d < 10 then 48 + d else 87 + d)"
  by (simp add: hex_digit_def of_char_of)

lemma hex_digit_eq_iff: "d < 16 \<Longrightarrow> d' < 16 \<Longrightarrow> hex_digit d = hex_digit d' \<longleftrightarrow> d = d'"
proof
  assume d: "d < 16" "d' < 16" "hex_digit d = hex_digit d'"
  from arg_cong [OF d(3), of "of_char :: char \<Rightarrow> nat"] d(1,2) show "d = d'"
    by (simp add: of_char_hex_digit split: if_splits)
qed simp

lemma hex_encode_chars: "c \<in> set (hex_encode bs) \<Longrightarrow> (of_char c :: nat) < 103"
proof (induction bs)
  case (Cons b bs)
  have "(of_char b :: nat) < 256" by simp
  then have "(of_char b :: nat) div 16 < 16" by linarith
  with Cons show ?case by (auto simp: hex_encode_def Let_def of_char_hex_digit)
qed (simp add: hex_encode_def)

lemma hex_encode_inj [simp]: "hex_encode bs = hex_encode bs' \<longleftrightarrow> bs = bs'"
proof
  show "hex_encode bs = hex_encode bs' \<Longrightarrow> bs = bs'"
  proof (induction bs arbitrary: bs')
    case Nil
    then show ?case using hex_encode_Nil_iff [of bs'] by (simp add: hex_encode_def)
  next
    case (Cons b bs)
    then obtain b' cs where bs': "bs' = b' # cs" by (cases bs') (auto simp: hex_encode_def Let_def)
    have small: "(of_char c :: nat) div 16 < 16" for c :: char
    proof -
      have "(of_char c :: nat) < 256" by simp
      then show ?thesis by linarith
    qed
    from Cons.prems bs' have "(of_char b :: nat) div 16 = of_char b' div 16" "(of_char b :: nat) mod 16 = of_char b' mod 16"
      and t: "hex_encode bs = hex_encode cs"
      using small [of b] small [of b'] by (auto simp: hex_encode_def Let_def hex_digit_eq_iff)
    then have "(of_char b :: nat) = of_char b'" by (metis div_mult_mod_eq)
    with Cons.IH [OF t] bs' show ?case by simp
  qed
qed simp

text \<open>\<^verbatim>\<open>binary.BigEndian\<close>: a number in so many bytes.\<close>

fun big_endian :: "nat \<Rightarrow> nat \<Rightarrow> bytes" where
  "big_endian 0 n = []"
| "big_endian (Suc width) n = big_endian width (n div 256) @ [char_of (n mod 256)]"

lemma length_big_endian [simp]: "length (big_endian w n) = w"
  by (induction w arbitrary: n) simp_all

end
