(* ===== verification/Auth_Policy.thy ===== *)
theory Auth_Policy
  imports Prelude
begin

text \<open>
  The authorization core, \<^verbatim>\<open>auth/policy.go\<close> and \<^verbatim>\<open>auth/impersonation.go\<close>: subjects, policies,
  the \<^verbatim>\<open>Grant\<close> every repository demands, the decision that issues one, and viewing or acting
  as somebody else. \<open>issued\<close> is the closure of the exported constructors: every Grant a
  program can hold, since the fields of \<^verbatim>\<open>Grant\<close> are unexported. A policy is an argument
  of the model, as it is of \<^verbatim>\<open>Authorize\<close>.
\<close>

section \<open>Subjects\<close>

type_synonym action = string

text \<open>\<^verbatim>\<open>Subject\<close> holds a pointer to another subject, so it is a datatype with the struct's fields
  as selectors rather than a record. The zero \<^verbatim>\<open>time.Time\<close> is January 1 of the year 1.\<close>

definition zero_time :: instant where
  "zero_time = - 62135596800000000000"

datatype subject = Subject
  (sID: string)
  (sTenant: string)
  (sRoles: "string list")
  (sActions: "action list")
  (sVerified: bool)
  (sRemembered: bool)
  (sPasswordConfirmedAt: instant)
  (sTouchedAt: instant)
  (sImpersonator: "subject option")
  (sActing: bool)
  (sguest: bool)

definition zero_subject :: subject where
  "zero_subject = Subject [] [] [] [] False False zero_time zero_time None False False"

definition Guest :: "string \<Rightarrow> subject" where
  "Guest tenant = Subject [] tenant [] [] False False zero_time zero_time None False True"

definition Subject_IsGuest :: "subject \<Rightarrow> bool" where
  "Subject_IsGuest s = sguest s"

fun has_string :: "string list \<Rightarrow> string \<Rightarrow> bool" where
  "has_string [] r = False"
| "has_string (have # rest) r = (if have = r then True else has_string rest r)"

definition Subject_HasRole :: "subject \<Rightarrow> string \<Rightarrow> bool" where
  "Subject_HasRole s r = has_string (sRoles s) r"

definition Subject_Can :: "subject \<Rightarrow> action \<Rightarrow> bool" where
  "Subject_Can s a = has_string (sActions s) a"

section \<open>Grants and refusals\<close>

text \<open>Why \<^verbatim>\<open>SystemGrant\<close> refused: the two texts it formats, and the empty reason.\<close>

datatype grant_reason = NoReason | AskedWithNoTenant action | AskedWithBadTenant action string

record grant =
  g_subject :: subject
  g_action :: action
  g_valid :: bool
  g_reason :: grant_reason
  g_reads :: bool

definition zero_grant :: grant where
  "zero_grant = \<lparr>g_subject = zero_subject, g_action = [], g_valid = False, g_reason = NoReason, g_reads = False\<rparr>"

text \<open>The errors of the package, one constructor a message, with the message's arguments.\<close>

datatype auth_error =
    AnonymousSubject action
  | Denied action string string
  | GrantRefused grant_reason
  | MissingGrant action
  | WrongAction action action
  | ReadOnlySubject string string
  | ReadOnlyAction action
  | CannotView string string

datatype auth_sentinel = ErrForbidden | ErrReadOnly | ErrReadGrant | ErrImpersonation

text \<open>\<^verbatim>\<open>errors.Is\<close> against the package's sentinels: \<^verbatim>\<open>ErrReadOnly\<close> and \<^verbatim>\<open>ErrReadGrant\<close> wrap
  \<^verbatim>\<open>ErrForbidden\<close>.\<close>

fun auth_is :: "auth_error \<Rightarrow> auth_sentinel \<Rightarrow> bool" where
  "auth_is (ReadOnlySubject _ _) t = (t = ErrReadOnly \<or> t = ErrForbidden)"
| "auth_is (ReadOnlyAction _) t = (t = ErrReadGrant \<or> t = ErrForbidden)"
| "auth_is (CannotView _ _) t = (t = ErrImpersonation)"
| "auth_is _ t = (t = ErrForbidden)"

text \<open>A policy answers \<^const>\<open>None\<close> to allow and its reason to refuse; \<open>p_writes\<close> is
  \<^const>\<open>None\<close> for a policy that does not implement \<^verbatim>\<open>Writes\<close>.\<close>

record 'r policy =
  p_can :: "subject \<Rightarrow> action \<Rightarrow> 'r \<Rightarrow> string option"
  p_writes :: "(action \<Rightarrow> bool) option"

section \<open>The decision\<close>

definition decide ::
  "'r policy \<Rightarrow> subject \<Rightarrow> action \<Rightarrow> 'r \<Rightarrow> grant \<times> string option \<times> auth_error option" where
  "decide p s a resource =
     (if sID s = [] \<and> \<not> sguest s
      then (zero_grant, Some ''anonymous subject: no session was loaded'', Some (AnonymousSubject a))
      else case p_can p s a resource of
        Some err \<Rightarrow>
          (let who = (if sguest s then ''a guest'' else sID s)
           in (zero_grant, Some err, Some (Denied a who err)))
      | None \<Rightarrow>
          (let g = \<lparr>g_subject = s, g_action = a, g_valid = True, g_reason = NoReason, g_reads = False\<rparr>
           in case p_writes p of
                Some w \<Rightarrow> if \<not> w a then (g\<lparr>g_reads := True\<rparr>, None, None) else (g, None, None)
              | None \<Rightarrow> (g, None, None)))"

text \<open>The record \<^verbatim>\<open>Authorize\<close> leaves in the request's collector, when the context has one.\<close>

record decision =
  d_subject :: string
  d_tenant :: string
  d_action :: action
  d_allowed :: bool
  d_reason :: string

definition Authorize ::
  "bool \<Rightarrow> 'r policy \<Rightarrow> subject \<Rightarrow> action \<Rightarrow> 'r \<Rightarrow> decision list \<Rightarrow>
   grant \<times> auth_error option \<times> decision list" where
  "Authorize collector p s a resource log =
     (case decide p s a resource of (g, why, err) \<Rightarrow>
        (g, err,
         if collector
         then log @ [\<lparr>d_subject = sID s, d_tenant = sTenant s, d_action = a, d_allowed = (err = None),
                      d_reason = (case why of None \<Rightarrow> [] | Some text \<Rightarrow> text)\<rparr>]
         else log))"

definition Allows :: "'r policy \<Rightarrow> subject \<Rightarrow> action \<Rightarrow> 'r \<Rightarrow> bool" where
  "Allows p s a resource = (case decide p s a resource of (_, _, err) \<Rightarrow> err = None)"

definition Grant_Check :: "grant \<Rightarrow> action \<Rightarrow> auth_error option" where
  "Grant_Check g expected =
     (if \<not> g_valid g
      then if g_reason g \<noteq> NoReason then Some (GrantRefused (g_reason g)) else Some (MissingGrant expected)
      else if g_action g \<noteq> expected then Some (WrongAction (g_action g) expected)
      else None)"

definition Grant_Subject :: "grant \<Rightarrow> subject" where
  "Grant_Subject g = g_subject g"

definition Grant_Action :: "grant \<Rightarrow> action" where
  "Grant_Action g = g_action g"

definition Tenant :: "grant \<Rightarrow> string" where
  "Tenant g = sTenant (g_subject g)"

section \<open>Tenant names\<close>

text \<open>The regular expression \<^verbatim>\<open>^[a-z0-9][a-z0-9_-]{0,63}$\<close>.\<close>

definition tenant_first :: "char \<Rightarrow> bool" where
  "tenant_first c \<longleftrightarrow> (let n = (of_char c :: nat) in 97 \<le> n \<and> n \<le> 122 \<or> 48 \<le> n \<and> n \<le> 57)"

definition tenant_rest :: "char \<Rightarrow> bool" where
  "tenant_rest c \<longleftrightarrow> tenant_first c \<or> c = CHR ''_'' \<or> c = CHR ''-''"

definition ValidTenant :: "string \<Rightarrow> bool" where
  "ValidTenant t =
     (case t of [] \<Rightarrow> False | c # cs \<Rightarrow> tenant_first c \<and> length cs \<le> 63 \<and> list_all tenant_rest cs)"

definition SystemGrant :: "action \<Rightarrow> string \<Rightarrow> grant" where
  "SystemGrant a tenant =
     (if \<not> ValidTenant tenant
      then if tenant = [] then zero_grant\<lparr>g_reason := AskedWithNoTenant a\<rparr>
           else zero_grant\<lparr>g_reason := AskedWithBadTenant a tenant\<rparr>
      else \<lparr>g_subject = Subject ''system'' tenant [''system''] [] False False zero_time zero_time None False False,
            g_action = a, g_valid = True, g_reason = NoReason, g_reads = False\<rparr>)"

section \<open>Impersonation\<close>

definition Impersonate :: "subject \<Rightarrow> subject \<Rightarrow> auth_error + subject" where
  "Impersonate actor target =
     (if sID actor = [] \<or> sguest actor
      then Inl (CannotView ''an anonymous subject cannot view as anybody'' [])
      else if sID target = [] \<or> sguest target then Inl (CannotView ''there is nobody to view as'' [])
      else if sImpersonator actor \<noteq> None then Inl (CannotView ''already viewing'' (sID actor))
      else if sImpersonator target \<noteq> None then Inl (CannotView ''itself being viewed'' (sID target))
      else if sID actor = sID target \<and> sTenant actor = sTenant target
      then Inl (CannotView ''cannot view as themselves'' (sID actor))
      else
        let kept = Subject (sID actor) (sTenant actor) (sRoles actor) (sActions actor) (sVerified actor)
                     (sRemembered actor) zero_time (sTouchedAt actor) None False (sguest actor)
        in Inr (Subject (sID target) (sTenant target) (sRoles target) (sActions target) (sVerified target)
                  False zero_time (sTouchedAt target) (Some kept) False (sguest target)))"

fun set_acting :: "subject \<Rightarrow> subject" where
  "set_acting (Subject i t r ac v re p to im _ gu) = Subject i t r ac v re p to im True gu"

definition ImpersonateActing :: "subject \<Rightarrow> subject \<Rightarrow> auth_error + subject" where
  "ImpersonateActing actor target =
     (case Impersonate actor target of Inl e \<Rightarrow> Inl e | Inr viewed \<Rightarrow> Inr (set_acting viewed))"

definition Leave :: "subject \<Rightarrow> auth_error + subject" where
  "Leave s = (case sImpersonator s of
                None \<Rightarrow> Inl (CannotView ''is not being viewed by anybody'' (sID s))
              | Some kept \<Rightarrow> Inr kept)"

definition Subject_Impersonated :: "subject \<Rightarrow> bool" where
  "Subject_Impersonated s \<longleftrightarrow> sImpersonator s \<noteq> None"

definition Grant_ReadOnly :: "grant \<Rightarrow> bool" where
  "Grant_ReadOnly g \<longleftrightarrow> sImpersonator (g_subject g) \<noteq> None \<and> \<not> sActing (g_subject g)"

definition Grant_Impersonator :: "grant \<Rightarrow> subject option" where
  "Grant_Impersonator g = sImpersonator (g_subject g)"

definition Writable :: "grant \<Rightarrow> auth_error option" where
  "Writable g =
     (case sImpersonator (g_subject g) of
        Some who \<Rightarrow>
          if \<not> sActing (g_subject g) then Some (ReadOnlySubject (sID who) (sID (g_subject g)))
          else if g_reads g then Some (ReadOnlyAction (g_action g)) else None
      | None \<Rightarrow> if g_reads g then Some (ReadOnlyAction (g_action g)) else None)"

definition SystemGrantActing :: "action \<Rightarrow> string \<Rightarrow> string \<Rightarrow> grant" where
  "SystemGrantActing a tenant impersonator =
     (let g = SystemGrant a tenant
      in if \<not> g_valid g \<or> impersonator = [] then g
         else case g_subject g of Subject i t r ac v re p to im act gu \<Rightarrow>
           g\<lparr>g_subject := Subject i t r ac v re p to
               (Some (Subject impersonator [] [] [] False False zero_time zero_time None False False)) True gu\<rparr>)"

section \<open>Every Grant a program can hold\<close>

text \<open>Outside the package a Grant is the zero value or the answer of one of the three exported
  constructors; the policies of the application are the set \<open>ps\<close>.\<close>

inductive issued :: "'r policy set \<Rightarrow> grant \<Rightarrow> bool" for ps :: "'r policy set" where
  issued_zero: "issued ps zero_grant"
| issued_Authorize: "p \<in> ps \<Longrightarrow> Authorize c p s a r log = (g, err, log') \<Longrightarrow> issued ps g"
| issued_SystemGrant: "issued ps (SystemGrant a tenant)"
| issued_SystemGrantActing: "issued ps (SystemGrantActing a tenant who)"

text \<open>The two shapes of a valid Grant.\<close>

definition decided_by :: "'r policy set \<Rightarrow> grant \<Rightarrow> bool" where
  "decided_by ps g \<longleftrightarrow>
     (\<exists>p \<in> ps. \<exists>r. p_can p (g_subject g) (g_action g) r = None \<and>
        (sID (g_subject g) \<noteq> [] \<or> sguest (g_subject g)) \<and>
        g_reads g = (case p_writes p of None \<Rightarrow> False | Some w \<Rightarrow> \<not> w (g_action g)))"

definition system_grant :: "grant \<Rightarrow> bool" where
  "system_grant g \<longleftrightarrow> sID (g_subject g) = ''system'' \<and> ValidTenant (Tenant g) \<and> \<not> g_reads g \<and>
     sRoles (g_subject g) = [''system''] \<and> \<not> Grant_ReadOnly g"

section \<open>Lemmas\<close>

lemma has_string_iff [simp]: "has_string xs r \<longleftrightarrow> r \<in> set xs"
  by (induction xs) auto

lemma decide_cases:
  obtains (anonymous) "sID s = []" "\<not> sguest s"
      "decide p s a r = (zero_grant, Some ''anonymous subject: no session was loaded'', Some (AnonymousSubject a))"
  | (denied) err who where "p_can p s a r = Some err"
      "decide p s a r = (zero_grant, Some err, Some (Denied a who err))"
  | (allowed) "p_can p s a r = None" "sID s \<noteq> [] \<or> sguest s"
      "decide p s a r =
        (\<lparr>g_subject = s, g_action = a, g_valid = True, g_reason = NoReason,
          g_reads = (case p_writes p of None \<Rightarrow> False | Some w \<Rightarrow> \<not> w a)\<rparr>, None, None)"
proof (cases "sID s = [] \<and> \<not> sguest s")
  case True
  then show ?thesis by (intro anonymous) (simp_all add: decide_def)
next
  case False
  show ?thesis
  proof (cases "p_can p s a r")
    case None
    with False show ?thesis by (intro allowed) (auto simp: decide_def Let_def split: option.splits)
  next
    case (Some err)
    with False show ?thesis by (intro denied) (auto simp: decide_def Let_def)
  qed
qed

lemma Authorize_decide:
  "Authorize c p s a r log = (g, err, log') \<Longrightarrow> \<exists>why. decide p s a r = (g, why, err)"
  by (auto simp: Authorize_def split: prod.splits)

lemma SystemGrant_valid:
  "ValidTenant t \<Longrightarrow> SystemGrant a t =
     \<lparr>g_subject = Subject ''system'' t [''system''] [] False False zero_time zero_time None False False,
      g_action = a, g_valid = True, g_reason = NoReason, g_reads = False\<rparr>"
  by (simp add: SystemGrant_def)

lemma SystemGrant_invalid: "\<not> ValidTenant t \<Longrightarrow> \<not> g_valid (SystemGrant a t)"
  by (simp add: SystemGrant_def zero_grant_def)

lemma SystemGrant_action: "g_valid (SystemGrant a t) \<Longrightarrow> g_action (SystemGrant a t) = a"
  by (cases "ValidTenant t") (simp_all add: SystemGrant_valid SystemGrant_invalid)

lemma system_grant_SystemGrant: "g_valid (SystemGrant a t) \<Longrightarrow> system_grant (SystemGrant a t)"
  by (cases "ValidTenant t")
     (simp_all add: SystemGrant_valid SystemGrant_invalid system_grant_def Tenant_def Grant_ReadOnly_def)

lemma SystemGrantActing_cases:
  "SystemGrantActing a t w = SystemGrant a t \<or>
   (ValidTenant t \<and> SystemGrantActing a t w = (SystemGrant a t)\<lparr>g_subject :=
      Subject ''system'' t [''system''] [] False False zero_time zero_time
        (Some (Subject w [] [] [] False False zero_time zero_time None False False)) True False\<rparr>)"
  by (cases "ValidTenant t") (simp_all add: SystemGrantActing_def SystemGrant_valid SystemGrant_invalid Let_def)

lemma system_grant_SystemGrantActing:
  "g_valid (SystemGrantActing a t w) \<Longrightarrow> system_grant (SystemGrantActing a t w)"
  using SystemGrantActing_cases [of a t w] system_grant_SystemGrant [of a t]
  by (auto simp: system_grant_def Tenant_def Grant_ReadOnly_def SystemGrant_valid)

lemma issued_valid:
  "issued ps g \<Longrightarrow> g_valid g \<Longrightarrow> decided_by ps g \<or> system_grant g"
proof (induction rule: issued.induct)
  case issued_zero
  then show ?case by (simp add: zero_grant_def)
next
  case (issued_Authorize p c s a r log g err log')
  from Authorize_decide [OF issued_Authorize.hyps(2)]
  obtain why where d: "decide p s a r = (g, why, err)" ..
  show ?case
  proof (cases rule: decide_cases [of s p a r])
    case allowed
    with d have "p_can p (g_subject g) (g_action g) r = None \<and>
        (sID (g_subject g) \<noteq> [] \<or> sguest (g_subject g)) \<and>
        g_reads g = (case p_writes p of None \<Rightarrow> False | Some w \<Rightarrow> \<not> w (g_action g))"
      by (auto split: option.splits)
    with issued_Authorize.hyps(1) show ?thesis by (auto simp: decided_by_def)
  qed (use d issued_Authorize.prems in \<open>auto simp: zero_grant_def\<close>)
qed (simp_all add: system_grant_SystemGrant system_grant_SystemGrantActing)

lemma Grant_Check_None: "Grant_Check g a = None \<longleftrightarrow> g_valid g \<and> g_action g = a"
  by (simp add: Grant_Check_def)

lemma Writable_None: "Writable g = None \<longleftrightarrow> \<not> Grant_ReadOnly g \<and> \<not> g_reads g"
  by (auto simp: Writable_def Grant_ReadOnly_def split: option.splits)

lemma Writable_forbidden: "Writable g = Some e \<Longrightarrow> auth_is e ErrForbidden"
  by (auto simp: Writable_def split: option.splits if_splits)

lemma Impersonate_answer:
  assumes "Impersonate actor target = Inr viewed"
  shows "sImpersonator viewed = Some (Subject (sID actor) (sTenant actor) (sRoles actor)
      (sActions actor) (sVerified actor) (sRemembered actor) zero_time (sTouchedAt actor) None False (sguest actor))"
    and "\<not> sActing viewed" "sID viewed = sID target" "sTenant viewed = sTenant target"
    and "sRoles viewed = sRoles target" "sActions viewed = sActions target" "\<not> sRemembered viewed"
  using assms by (auto simp: Impersonate_def Let_def split: if_splits)

lemma set_acting_sel [simp]:
  "sActing (set_acting s)" "sImpersonator (set_acting s) = sImpersonator s" "sID (set_acting s) = sID s"
  by (cases s; simp)+

lemma Authorize_acting_writable:
  assumes "Allows p (set_acting s) a r" "\<And>w. p_writes p = Some w \<Longrightarrow> w a"
  shows "Writable (fst (Authorize c p (set_acting s) a r log)) = None"
  by (cases rule: decide_cases [of "set_acting s" p a r])
     (use assms in \<open>auto simp: Allows_def Authorize_def Writable_None Grant_ReadOnly_def split: option.splits\<close>)

text \<open>A valid tenant contains no separator of a key, a path or a queue name.\<close>

lemma tenant_rest_chars:
  "tenant_rest c \<Longrightarrow> c \<notin> {CHR '':'', CHR ''/'', CHR ''.'', CHR 0x5C, CHR 0x00}"
  by (auto simp: tenant_rest_def tenant_first_def Let_def)

lemma ValidTenant_chars: "ValidTenant t \<Longrightarrow> c \<in> set t \<Longrightarrow> tenant_rest c"
  by (auto simp: ValidTenant_def tenant_rest_def list_all_iff split: list.splits)

lemma ValidTenant_no_colon [simp]: "ValidTenant t \<Longrightarrow> CHR '':'' \<notin> set t"
  using ValidTenant_chars tenant_rest_chars by blast

lemma ValidTenant_nonempty [simp]: "\<not> ValidTenant []"
  by (simp add: ValidTenant_def)

section \<open>Properties\<close>

text \<open>C1. A Grant that passes \<^verbatim>\<open>Check\<close> is proof of a decision: however the program obtained it,
  either a policy of the application allowed exactly this action to exactly this subject (who is
  signed in or a declared guest), or it is a system grant scoped to a valid tenant.\<close>

theorem grant_is_proof_of_decision:
  assumes "issued ps g" and "Grant_Check g a = None"
  shows "g_action g = a \<and> (decided_by ps g \<or> system_grant g)"
  using assms issued_valid by (auto simp: Grant_Check_None)

definition example_policy :: "nat policy" where
  "example_policy =
     \<lparr>p_can = (\<lambda>s a r. if sID s = ''ana'' \<and> r = 7 then None else Some ''no''), p_writes = Some (\<lambda>a. a = ''invoice.create'')\<rparr>"

definition example_ana :: subject where
  "example_ana = Subject ''ana'' ''acme'' [''member''] [] True False zero_time 0 None False False"

theorem grant_is_proof_of_decision_witness:
  "issued {example_policy} (fst (Authorize False example_policy example_ana ''invoice.view'' 7 [])) \<and>
   Grant_Check (fst (Authorize False example_policy example_ana ''invoice.view'' 7 [])) ''invoice.view'' = None \<and>
   (decided_by {example_policy} (fst (Authorize False example_policy example_ana ''invoice.view'' 7 [])) \<or>
    system_grant (fst (Authorize False example_policy example_ana ''invoice.view'' 7 [])))"
proof -
  let ?g = "fst (Authorize False example_policy example_ana ''invoice.view'' 7 [])"
  have i: "issued {example_policy} ?g"
    by (rule issued_Authorize [of example_policy]) (simp_all add: prod_eq_iff)
  have c: "Grant_Check ?g ''invoice.view'' = None"
    by (simp add: Grant_Check_def Authorize_def decide_def example_policy_def example_ana_def Let_def)
  show ?thesis using i c grant_is_proof_of_decision [OF i c] by blast
qed

text \<open>C2. Viewing as somebody never writes: whatever policy decides and whatever it allows, a Grant
  issued to the subject \<^verbatim>\<open>Impersonate\<close> answered is for that subject and that action, carries the
  target's tenant and the operator behind it, and is refused by \<^verbatim>\<open>Writable\<close> with an error that is
  \<^verbatim>\<open>ErrReadOnly\<close> and \<^verbatim>\<open>ErrForbidden\<close>; the viewed identity, tenant, roles and actions are the target's, and \<^verbatim>\<open>Leave\<close> answers the actor back with no confirmed password; only
  \<^verbatim>\<open>ImpersonateActing\<close> lets the same subject write, when the policy says the action writes.\<close>

theorem impersonation_reads_only:
  assumes v: "Impersonate actor target = Inr viewed"
    and a: "Authorize c p viewed a r log = (g, None, log')"
  shows "Grant_Subject g = viewed \<and> Grant_Action g = a \<and> Grant_Check g a = None \<and> Tenant g = sTenant target \<and>
     (\<exists>operator. Grant_Impersonator g = Some operator \<and> sID operator = sID actor \<and> sTenant operator = sTenant actor) \<and>
     Writable g = Some (ReadOnlySubject (sID actor) (sID target)) \<and>
     auth_is (ReadOnlySubject (sID actor) (sID target)) ErrReadOnly \<and>
     auth_is (ReadOnlySubject (sID actor) (sID target)) ErrForbidden \<and>
     sID viewed = sID target \<and> sTenant viewed = sTenant target \<and> sRoles viewed = sRoles target \<and>
     sActions viewed = sActions target \<and> \<not> sRemembered viewed \<and>
     (\<exists>back. Leave viewed = Inr back \<and> sID back = sID actor \<and> sTenant back = sTenant actor \<and>
        sRoles back = sRoles actor \<and> sActions back = sActions actor \<and>
        sPasswordConfirmedAt back = zero_time \<and> sImpersonator back = None) \<and>
     ImpersonateActing actor target = Inr (set_acting viewed) \<and>
     (Allows p (set_acting viewed) a r \<and> (\<forall>w. p_writes p = Some w \<longrightarrow> w a) \<longrightarrow>
        Writable (fst (Authorize c p (set_acting viewed) a r log)) = None)"
proof -
  obtain why where d: "decide p viewed a r = (g, why, None)" using Authorize_decide [OF a] by blast
  have g: "g_subject g = viewed" "g_action g = a" "g_valid g"
    by (cases rule: decide_cases [of viewed p a r]; use d in auto)+
  note viewed = Impersonate_answer [OF v]
  have grant: "Grant_Subject g = viewed" "Grant_Action g = a" "Grant_Check g a = None" "Tenant g = sTenant target"
    "Grant_Impersonator g = sImpersonator viewed"
    using g viewed by (simp_all add: Grant_Subject_def Grant_Action_def Grant_Check_None Tenant_def Grant_Impersonator_def)
  have w: "Writable g = Some (ReadOnlySubject (sID actor) (sID target))"
    using viewed g by (simp add: Writable_def)
  have "Allows p (set_acting viewed) a r \<and> (\<forall>w. p_writes p = Some w \<longrightarrow> w a) \<longrightarrow>
      Writable (fst (Authorize c p (set_acting viewed) a r log)) = None"
    by (auto intro!: Authorize_acting_writable)
  with viewed v w grant show ?thesis by (simp add: Leave_def ImpersonateActing_def)
qed

text \<open>An operator views a customer's account, and acts in it.\<close>

definition example_operator :: subject where
  "example_operator = Subject ''op'' ''ops'' [''support''] [] True True 5 0 None False False"

theorem impersonation_reads_only_witness:
  "\<exists>viewed g.
     Impersonate example_operator example_ana = Inr viewed \<and>
     Authorize False example_policy viewed ''invoice.create'' 7 [] = (g, None, []) \<and>
     Tenant g = ''acme'' \<and> Writable g = Some (ReadOnlySubject ''op'' ''ana'') \<and>
     Writable (fst (Authorize False example_policy (set_acting viewed) ''invoice.create'' 7 [])) = None"
proof -
  obtain viewed where v: "Impersonate example_operator example_ana = Inr viewed"
    by (simp add: Impersonate_def example_operator_def example_ana_def Let_def)
  have viewed: "sID viewed = ''ana''" "sID (set_acting viewed) = ''ana''"
    using v by (auto simp: Impersonate_def example_operator_def example_ana_def Let_def)
  obtain g where g: "Authorize False example_policy viewed ''invoice.create'' 7 [] = (g, None, [])"
    using viewed by (simp add: Authorize_def decide_def example_policy_def Let_def)
  have "Allows example_policy (set_acting viewed) ''invoice.create'' 7"
    using viewed by (simp add: Allows_def decide_def example_policy_def Let_def)
  moreover have "\<forall>w. p_writes example_policy = Some w \<longrightarrow> w ''invoice.create''"
    by (simp add: example_policy_def)
  ultimately show ?thesis
    using impersonation_reads_only [OF v g] v g by (auto simp: example_operator_def example_ana_def)
qed

end
