(* ===== verification/Auth_Throttle.thy ===== *)
theory Auth_Throttle
  imports Prelude "HOL-Library.AList"
begin

text \<open>
  The sign-in throttle in process memory: \<^verbatim>\<open>auth/throttle.go\<close>. The mutex makes every method one
  step, so a method is one function on the table. The table is an association list with one entry
  a key; the order in which the language ranges over it, when the table is full, is an argument.
  What the key holds instead of the identity is \<open>fingerprint\<close>, whose hash, text functions and
  encoding are arguments.
\<close>

section \<open>The policy\<close>

definition MaxSignInFailures :: int where
  "MaxSignInFailures = 5"

definition MaxSignInFailuresPerClient :: int where
  "MaxSignInFailuresPerClient = 5 * MaxSignInFailures"

definition SignInWindow :: duration where
  "SignInWindow = Minute"

definition maxTrackedSignIns :: int where
  "maxTrackedSignIns = 65536"

record throttle_policy =
  tp_MaxFailures :: int
  tp_MaxFailuresPerClient :: int
  tp_Window :: duration
  tp_Lockout :: duration

definition DefaultThrottlePolicy :: throttle_policy where
  "DefaultThrottlePolicy = \<lparr>tp_MaxFailures = MaxSignInFailures, tp_MaxFailuresPerClient = MaxSignInFailuresPerClient,
     tp_Window = SignInWindow, tp_Lockout = 0\<rparr>"

definition LockoutPolicy :: throttle_policy where
  "LockoutPolicy = \<lparr>tp_MaxFailures = 10, tp_MaxFailuresPerClient = 50, tp_Window = 30 * Minute, tp_Lockout = 30 * Minute\<rparr>"

section \<open>The table\<close>

record failure_count =
  fc_count :: int
  fc_reset :: instant

record memory_throttle =
  mt_policy :: throttle_policy
  mt_counters :: "(string \<times> failure_count) list"
  mt_lastSweep :: instant

definition NewMemoryThrottle :: "instant \<Rightarrow> memory_throttle" where
  "NewMemoryThrottle now = \<lparr>mt_policy = DefaultThrottlePolicy, mt_counters = [], mt_lastSweep = now\<rparr>"

definition policy_ok :: "throttle_policy \<Rightarrow> bool" where
  "policy_ok p \<longleftrightarrow> 0 < tp_MaxFailures p \<and> 0 < tp_MaxFailuresPerClient p \<and> 0 < tp_Window p \<and> 0 \<le> tp_Lockout p"

definition NewMemoryThrottleWith :: "instant \<Rightarrow> throttle_policy \<Rightarrow> memory_throttle option" where
  "NewMemoryThrottleWith now p =
     (if tp_MaxFailures p \<le> 0 \<or> tp_MaxFailuresPerClient p \<le> 0 \<or> tp_Window p \<le> 0 \<or> tp_Lockout p < 0 then None
      else Some \<lparr>mt_policy = p, mt_counters = [], mt_lastSweep = now\<rparr>)"

section \<open>Keys\<close>

record text_functions =
  tx_TrimSpace :: "string \<Rightarrow> string"
  tx_ToLower :: "string \<Rightarrow> string"
  tx_Sum256 :: "bytes \<Rightarrow> bytes"
  tx_EncodeToString :: "bytes \<Rightarrow> string"

definition fingerprint :: "text_functions \<Rightarrow> string \<Rightarrow> string" where
  "fingerprint tx identity = tx_EncodeToString tx (take 16 (tx_Sum256 tx (tx_ToLower tx (tx_TrimSpace tx identity))))"

definition pairKey :: "text_functions \<Rightarrow> string \<Rightarrow> string \<Rightarrow> string \<Rightarrow> string" where
  "pairKey tx tenant identity client = ''signin:'' @ tenant @ '':'' @ fingerprint tx identity @ '':'' @ client"

definition clientKey :: "string \<Rightarrow> string \<Rightarrow> string" where
  "clientKey tenant client = ''client:'' @ tenant @ '':'' @ client"

section \<open>The operations\<close>

definition spent :: "string \<Rightarrow> int \<Rightarrow> instant \<Rightarrow> memory_throttle \<Rightarrow> duration option" where
  "spent key limit now m =
     (case map_of (mt_counters m) key of
        None \<Rightarrow> None
      | Some c \<Rightarrow> if \<not> now < fc_reset c \<or> fc_count c < limit then None else Some (fc_reset c - now))"

definition count_one :: "throttle_policy \<Rightarrow> int \<Rightarrow> instant \<Rightarrow> failure_count option \<Rightarrow> failure_count" where
  "count_one p limit now old =
     (let c = (case old of
                 Some c \<Rightarrow> if \<not> now < fc_reset c then \<lparr>fc_count = 0, fc_reset = now + tp_Window p\<rparr> else c
               | None \<Rightarrow> \<lparr>fc_count = 0, fc_reset = now + tp_Window p\<rparr>);
          c = c\<lparr>fc_count := fc_count c + 1\<rparr>
      in if fc_count c \<ge> limit \<and> tp_Lockout p > 0 then c\<lparr>fc_reset := now + tp_Lockout p\<rparr> else c)"

definition count :: "string \<Rightarrow> int \<Rightarrow> instant \<Rightarrow> memory_throttle \<Rightarrow> memory_throttle" where
  "count key limit now m =
     m\<lparr>mt_counters := AList.update key (count_one (mt_policy m) limit now (map_of (mt_counters m) key)) (mt_counters m)\<rparr>"

definition giveBack :: "string \<Rightarrow> memory_throttle \<Rightarrow> memory_throttle" where
  "giveBack key m =
     (case map_of (mt_counters m) key of
        None \<Rightarrow> m
      | Some c \<Rightarrow>
          if fc_count c - 1 \<le> 0 then m\<lparr>mt_counters := AList.delete key (mt_counters m)\<rparr>
          else m\<lparr>mt_counters := AList.update key (c\<lparr>fc_count := fc_count c - 1\<rparr>) (mt_counters m)\<rparr>)"

definition dropUpTo :: "instant \<Rightarrow> memory_throttle \<Rightarrow> memory_throttle" where
  "dropUpTo now m = m\<lparr>mt_counters := filter (\<lambda>(k, c). now < fc_reset c) (mt_counters m)\<rparr>"

fun evict :: "string list \<Rightarrow> memory_throttle \<Rightarrow> memory_throttle" where
  "evict [] m = m"
| "evict (k # ks) m =
     (if int (length (mt_counters m)) \<le> maxTrackedSignIns - 2 then m
      else evict ks (m\<lparr>mt_counters := AList.delete k (mt_counters m)\<rparr>))"

text \<open>\<open>order\<close> is the order the map hands its keys over in, for a given table.\<close>

definition trim :: "(string list \<Rightarrow> string list) \<Rightarrow> instant \<Rightarrow> memory_throttle \<Rightarrow> memory_throttle" where
  "trim order now m =
     (let m = (if now - mt_lastSweep m \<ge> tp_Window (mt_policy m) then (dropUpTo now m)\<lparr>mt_lastSweep := now\<rparr> else m)
      in evict (order (map fst (mt_counters m))) m)"

definition MemoryThrottle_Attempt ::
  "text_functions \<Rightarrow> (string list \<Rightarrow> string list) \<Rightarrow> instant \<Rightarrow> string \<Rightarrow> string \<Rightarrow> string \<Rightarrow> memory_throttle \<Rightarrow>
   (duration \<times> bool) \<times> memory_throttle" where
  "MemoryThrottle_Attempt tx order now tenant identity client m0 =
     (let m = trim order now m0; pk = pairKey tx tenant identity client; ck = clientKey tenant client in
      case spent pk (tp_MaxFailures (mt_policy m)) now m of
        Some retry \<Rightarrow> ((retry, False), m)
      | None \<Rightarrow>
          (case spent ck (tp_MaxFailuresPerClient (mt_policy m)) now m of
             Some retry \<Rightarrow> ((retry, False), m)
           | None \<Rightarrow>
               ((0, True),
                count ck (tp_MaxFailuresPerClient (mt_policy m)) now (count pk (tp_MaxFailures (mt_policy m)) now m))))"

definition MemoryThrottle_Refund :: "text_functions \<Rightarrow> string \<Rightarrow> string \<Rightarrow> string \<Rightarrow> memory_throttle \<Rightarrow> memory_throttle" where
  "MemoryThrottle_Refund tx tenant identity client m =
     giveBack (clientKey tenant client) (giveBack (pairKey tx tenant identity client) m)"

definition MemoryThrottle_Clear :: "text_functions \<Rightarrow> string \<Rightarrow> string \<Rightarrow> string \<Rightarrow> memory_throttle \<Rightarrow> memory_throttle" where
  "MemoryThrottle_Clear tx tenant identity client m =
     giveBack (clientKey tenant client)
       (m\<lparr>mt_counters := AList.delete (pairKey tx tenant identity client) (mt_counters m)\<rparr>)"

definition MemoryThrottle_Len :: "memory_throttle \<Rightarrow> nat" where
  "MemoryThrottle_Len m = length (mt_counters m)"

section \<open>The table as counters\<close>

text \<open>What the throttle remembers of a key at a time: the counter, unless its window ended.\<close>

definition counter_at :: "instant \<Rightarrow> memory_throttle \<Rightarrow> string \<Rightarrow> failure_count option" where
  "counter_at t m k = (case map_of (mt_counters m) k of Some c \<Rightarrow> if t < fc_reset c then Some c else None | None \<Rightarrow> None)"

definition is_order :: "(string list \<Rightarrow> string list) \<Rightarrow> bool" where
  "is_order order \<longleftrightarrow> (\<forall>ks. distinct ks \<longrightarrow> distinct (order ks) \<and> set (order ks) = set ks)"

lemma pair_client_apart [simp]: "pairKey tx t i c \<noteq> clientKey t' c'" "clientKey t' c' \<noteq> pairKey tx t i c"
  by (simp_all add: pairKey_def clientKey_def)

lemma spent_counter: "spent k limit now m =
    (case counter_at now m k of None \<Rightarrow> None | Some c \<Rightarrow> if fc_count c < limit then None else Some (fc_reset c - now))"
  by (auto simp: spent_def counter_at_def split: option.splits)

text \<open>The invariant of the table: one entry a key, and never more than the cap.\<close>

definition table_ok :: "memory_throttle \<Rightarrow> bool" where
  "table_ok m \<longleftrightarrow> distinct (map fst (mt_counters m)) \<and> int (length (mt_counters m)) \<le> maxTrackedSignIns"

lemma distinct_filter_fst: "distinct (map fst xs) \<Longrightarrow> distinct (map fst (filter P xs))"
  by (induction xs) auto

lemma map_of_filter: "distinct (map fst xs) \<Longrightarrow> map_of (filter (\<lambda>(k, c). P c) xs) k =
    (case map_of xs k of Some c \<Rightarrow> if P c then Some c else None | None \<Rightarrow> None)"
proof (induction xs)
  case (Cons x xs)
  have "fst x \<notin> set (map fst (filter (\<lambda>(k, c). P c) xs))" using Cons.prems by auto
  then have "map_of (filter (\<lambda>(k, c). P c) xs) (fst x) = None" by (simp add: map_of_eq_None_iff)
  with Cons show ?case by (cases x) auto
qed simp

lemma dropUpTo_counter:
  assumes "distinct (map fst (mt_counters m))" "now \<le> t"
  shows "counter_at t (dropUpTo now m) k = counter_at t m k"
  using assms by (auto simp: dropUpTo_def counter_at_def map_of_filter split: option.splits)

lemma length_update: "distinct (map fst xs) \<Longrightarrow> length (AList.update k v xs) \<le> Suc (length xs)"
  by (induction xs) auto

lemma length_delete: "length (AList.delete k xs) \<le> length xs"
  by (simp add: AList.delete_eq)

lemma length_delete_less: "k \<in> fst ` set xs \<Longrightarrow> length (AList.delete k xs) < length xs"
  by (auto simp: AList.delete_eq intro!: length_filter_less)

lemma evict_policy [simp]: "mt_policy (evict ks m) = mt_policy m" "mt_lastSweep (evict ks m) = mt_lastSweep m"
  by (induction ks arbitrary: m) auto

lemma evict_small: "int (length (mt_counters m)) \<le> maxTrackedSignIns - 2 \<Longrightarrow> evict ks m = m"
  by (cases ks) auto

lemma evict_bound:
  assumes "distinct ks" "set ks \<subseteq> fst ` set (mt_counters m)" "distinct (map fst (mt_counters m))"
    and "int (length (mt_counters m)) \<le> maxTrackedSignIns - 2 + int (length ks)"
  shows "int (length (mt_counters (evict ks m))) \<le> maxTrackedSignIns - 2 \<and> distinct (map fst (mt_counters (evict ks m)))"
  using assms
proof (induction ks arbitrary: m)
  case (Cons k ks)
  let ?m = "m\<lparr>mt_counters := AList.delete k (mt_counters m)\<rparr>"
  have "length (mt_counters ?m) < length (mt_counters m)"
    using Cons.prems(2) length_delete_less [of k "mt_counters m"] by simp
  moreover have "set ks \<subseteq> fst ` set (mt_counters ?m)" 
    using Cons.prems(1,2) arg_cong [OF AList.delete_keys [of k "mt_counters m"], of set] by auto
  ultimately show ?case using Cons.IH [of ?m] Cons.prems by (simp add: AList.distinct_delete)
qed simp

lemma cap_two: "2 \<le> maxTrackedSignIns"
  by (simp add: maxTrackedSignIns_def)

lemma trim_ok:
  assumes "table_ok m" "is_order order"
  shows "int (length (mt_counters (trim order now m))) \<le> maxTrackedSignIns - 2"
    and "distinct (map fst (mt_counters (trim order now m)))" and "mt_policy (trim order now m) = mt_policy m"
proof -
  define m1 where "m1 = (if now - mt_lastSweep m \<ge> tp_Window (mt_policy m) then (dropUpTo now m)\<lparr>mt_lastSweep := now\<rparr> else m)"
  have d: "distinct (map fst (mt_counters m1))"
    using assms(1) by (simp add: m1_def dropUpTo_def table_ok_def distinct_filter_fst)
  have t: "trim order now m = evict (order (map fst (mt_counters m1))) m1" by (simp add: trim_def m1_def Let_def)
  let ?ks = "order (map fst (mt_counters m1))"
  have ks: "distinct ?ks" "set ?ks = fst ` set (mt_counters m1)" using assms(2) d by (auto simp: is_order_def)
  have "length ?ks = length (mt_counters m1)"
    using distinct_card [OF ks(1)] distinct_card [OF d] ks(2) by simp
  then show "int (length (mt_counters (trim order now m))) \<le> maxTrackedSignIns - 2" "distinct (map fst (mt_counters (trim order now m)))"
    using evict_bound [OF ks(1) _ d] ks(2) cap_two unfolding t by simp_all
  show "mt_policy (trim order now m) = mt_policy m" unfolding t by (simp add: m1_def dropUpTo_def)
qed

text \<open>Short of the cap, trimming is invisible.\<close>

lemma trim_invisible:
  assumes "table_ok m" "int (length (mt_counters m)) \<le> maxTrackedSignIns - 2" "now \<le> t"
  shows "counter_at t (trim order now m) k = counter_at t m k"
    and "length (mt_counters (trim order now m)) \<le> length (mt_counters m)"
proof -
  define m1 where "m1 = (if now - mt_lastSweep m \<ge> tp_Window (mt_policy m) then (dropUpTo now m)\<lparr>mt_lastSweep := now\<rparr> else m)"
  have len: "length (mt_counters m1) \<le> length (mt_counters m)" by (simp add: m1_def dropUpTo_def)
  with assms(2) have t: "trim order now m = m1" by (simp add: trim_def m1_def [symmetric] Let_def evict_small)
  show "length (mt_counters (trim order now m)) \<le> length (mt_counters m)" unfolding t by (rule len)
  show "counter_at t (trim order now m) k = counter_at t m k" unfolding t m1_def
    using dropUpTo_counter [of m now t k] assms(1,3) by (simp add: table_ok_def counter_at_def)
qed

lemma count_one_counter: "count_one p limit now (map_of (mt_counters m) k) = count_one p limit now (counter_at now m k)"
  by (simp add: count_one_def counter_at_def split: option.split)

lemma count_simps [simp]: "mt_policy (count k limit now m) = mt_policy m" "mt_lastSweep (count k limit now m) = mt_lastSweep m"
  by (simp_all add: count_def)

lemma count_counter: "counter_at t (count k limit now m) k' =
    (if k' = k then let c = count_one (mt_policy m) limit now (counter_at now m k) in if t < fc_reset c then Some c else None
     else counter_at t m k')"
  by (simp add: count_def counter_at_def [of t] update_conv count_one_counter Let_def)

lemma count_table: "distinct (map fst (mt_counters m)) \<Longrightarrow>
    distinct (map fst (mt_counters (count k limit now m))) \<and> length (mt_counters (count k limit now m)) \<le> Suc (length (mt_counters m))"
  by (simp add: count_def distinct_update length_update)

definition room :: "failure_count option \<Rightarrow> int \<Rightarrow> bool" where
  "room c limit \<longleftrightarrow> (case c of None \<Rightarrow> True | Some c \<Rightarrow> fc_count c < limit)"

lemma evict_distinct: "distinct (map fst (mt_counters m)) \<Longrightarrow> distinct (map fst (mt_counters (evict ks m)))"
  by (induction ks arbitrary: m) (auto simp: AList.distinct_delete)

lemma spent_room: "spent k limit now m = None \<longleftrightarrow> room (counter_at now m k) limit"
  by (simp add: spent_counter room_def split: option.split)

text \<open>Short of the cap an attempt is decided by the two live counters alone; refused it changes
  nothing, admitted it counts one on each.\<close>

definition live_count :: "instant \<Rightarrow> failure_count \<Rightarrow> failure_count option" where
  "live_count t c = (if t < fc_reset c then Some c else None)"

lemma Attempt_cases [consumes 2, case_names refused admitted]:
  assumes "table_ok m" "int (length (mt_counters m)) \<le> maxTrackedSignIns - 2"
  obtains (refused) retry m' where "MemoryThrottle_Attempt tx order now tenant identity client m = ((retry, False), m')"
      "\<not> (room (counter_at now m (pairKey tx tenant identity client)) (tp_MaxFailures (mt_policy m)) \<and>
          room (counter_at now m (clientKey tenant client)) (tp_MaxFailuresPerClient (mt_policy m)))"
      "\<And>t k. now \<le> t \<Longrightarrow> counter_at t m' k = counter_at t m k"
      "mt_policy m' = mt_policy m" "table_ok m'" "length (mt_counters m') \<le> length (mt_counters m) + 2"
      "\<exists>(k, limit) \<in> {(pairKey tx tenant identity client, tp_MaxFailures (mt_policy m)),
           (clientKey tenant client, tp_MaxFailuresPerClient (mt_policy m))}.
         \<exists>c. counter_at now m k = Some c \<and> limit \<le> fc_count c \<and> retry = fc_reset c - now \<and> 0 < retry"
  | (admitted) m' where "MemoryThrottle_Attempt tx order now tenant identity client m = ((0, True), m')"
      "room (counter_at now m (pairKey tx tenant identity client)) (tp_MaxFailures (mt_policy m))"
      "room (counter_at now m (clientKey tenant client)) (tp_MaxFailuresPerClient (mt_policy m))"
      "\<And>t k. now \<le> t \<Longrightarrow> counter_at t m' k =
        (if k = pairKey tx tenant identity client
         then live_count t (count_one (mt_policy m) (tp_MaxFailures (mt_policy m)) now (counter_at now m k))
         else if k = clientKey tenant client
         then live_count t (count_one (mt_policy m) (tp_MaxFailuresPerClient (mt_policy m)) now (counter_at now m k))
         else counter_at t m k)"
      "mt_policy m' = mt_policy m" "table_ok m'" "length (mt_counters m') \<le> length (mt_counters m) + 2"
proof -
  let ?m = "trim order now m"
  let ?pk = "pairKey tx tenant identity client" and ?ck = "clientKey tenant client"
  let ?l1 = "tp_MaxFailures (mt_policy m)" and ?l2 = "tp_MaxFailuresPerClient (mt_policy m)"
  let ?m2 = "count ?ck ?l2 now (count ?pk ?l1 now ?m)"
  have t: "\<And>t k. now \<le> t \<Longrightarrow> counter_at t ?m k = counter_at t m k"
    by (rule trim_invisible(1) [OF assms])
  have len: "length (mt_counters ?m) \<le> length (mt_counters m)" by (rule trim_invisible(2) [OF assms order_refl])
  have d: "distinct (map fst (mt_counters ?m))" and pol: "mt_policy ?m = mt_policy m"
    using assms(1) by (auto simp: trim_def dropUpTo_def table_ok_def Let_def evict_distinct distinct_filter_fst)
  show ?thesis
  proof (cases "room (counter_at now m ?pk) ?l1 \<and> room (counter_at now m ?ck) ?l2")
    case True
    then have "spent ?pk ?l1 now ?m = None" "spent ?ck ?l2 now ?m = None" by (simp_all add: spent_room t)
    then have "MemoryThrottle_Attempt tx order now tenant identity client m = ((0, True), ?m2)"
      by (simp add: MemoryThrottle_Attempt_def Let_def pol)
    moreover have "table_ok ?m2 \<and> length (mt_counters ?m2) \<le> length (mt_counters m) + 2"
      using count_table [OF d, of ?pk ?l1 now] count_table [of "count ?pk ?l1 now ?m" ?ck ?l2 now] len assms(2) cap_two
      by (auto simp: table_ok_def)
    moreover have "counter_at t ?m2 k = (if k = ?pk then live_count t (count_one (mt_policy m) ?l1 now (counter_at now m k))
        else if k = ?ck then live_count t (count_one (mt_policy m) ?l2 now (counter_at now m k)) else counter_at t m k)"
      if "now \<le> t" for t k
      using that by (simp add: count_counter pol t live_count_def Let_def)
    ultimately show ?thesis using True by (intro admitted [of ?m2]) (simp_all add: pol)
  next
    case False
    then have "spent ?pk ?l1 now ?m \<noteq> None \<or> spent ?ck ?l2 now ?m \<noteq> None" by (simp add: spent_room t)
    then obtain k limit retry where r: "MemoryThrottle_Attempt tx order now tenant identity client m = ((retry, False), ?m)"
        "(k, limit) \<in> {(?pk, ?l1), (?ck, ?l2)}" "spent k limit now ?m = Some retry"
      by (cases "spent ?pk ?l1 now ?m"; cases "spent ?ck ?l2 now ?m") (auto simp: MemoryThrottle_Attempt_def Let_def pol)
    have "\<exists>c. counter_at now m k = Some c \<and> limit \<le> fc_count c \<and> retry = fc_reset c - now \<and> 0 < retry"
      using r(3) by (auto simp: spent_counter t counter_at_def [of now m] split: option.splits if_splits)
    with r(2) have "\<exists>(k, limit) \<in> {(?pk, ?l1), (?ck, ?l2)}.
        \<exists>c. counter_at now m k = Some c \<and> limit \<le> fc_count c \<and> retry = fc_reset c - now \<and> 0 < retry" by blast
    moreover note r(1)
    moreover have "table_ok ?m" using d len assms(1) by (simp add: table_ok_def)
    ultimately show ?thesis using False t len pol by (intro refused [of retry ?m]) auto
  qed
qed

section \<open>A run of attempts\<close>

type_synonym sign_in = "instant \<times> string \<times> string \<times> string"

fun throttle_run ::
  "text_functions \<Rightarrow> (string list \<Rightarrow> string list) \<Rightarrow> sign_in list \<Rightarrow> memory_throttle \<Rightarrow> bool list" where
  "throttle_run tx order [] m = []"
| "throttle_run tx order ((now, tenant, identity, client) # evs) m =
     (case MemoryThrottle_Attempt tx order now tenant identity client m of
        ((_, ok), m') \<Rightarrow> ok # throttle_run tx order evs m')"

text \<open>How many attempts that draw on the budget named by a key were admitted.\<close>

definition draws_on :: "text_functions \<Rightarrow> string \<Rightarrow> sign_in \<Rightarrow> bool" where
  "draws_on tx key ev = (case ev of (now, tenant, identity, client) \<Rightarrow>
     key = pairKey tx tenant identity client \<or> key = clientKey tenant client)"

definition admitted_on :: "text_functions \<Rightarrow> string \<Rightarrow> sign_in list \<Rightarrow> bool list \<Rightarrow> nat" where
  "admitted_on tx key evs oks = length (filter (\<lambda>(ev, ok). ok \<and> draws_on tx key ev) (zip evs oks))"

text \<open>A budget in a window that lasts to \<open>limit_at\<close>: nothing drawn and no live counter, or a live
  counter of what was drawn that outlives the window.\<close>

definition drawn :: "instant \<Rightarrow> memory_throttle \<Rightarrow> string \<Rightarrow> int \<Rightarrow> instant \<Rightarrow> bool" where
  "drawn now m key n limit_at \<longleftrightarrow>
     (case counter_at now m key of None \<Rightarrow> n = 0 | Some c \<Rightarrow> fc_count c = n \<and> limit_at \<le> fc_reset c)"

lemma count_one_drawn:
  assumes "drawn now m key n limit_at" "limit_at \<le> now + tp_Window p" "tp_Lockout p = 0 \<or> limit_at \<le> now + tp_Lockout p"
  shows "fc_count (count_one p limit now (counter_at now m key)) = n + 1"
    "limit_at \<le> fc_reset (count_one p limit now (counter_at now m key))"
  using assms by (auto simp: drawn_def count_one_def Let_def counter_at_def split: option.splits if_splits)

lemma failures_later: "now \<le> t \<Longrightarrow> counter_at t m k = (case counter_at now m k of Some c \<Rightarrow> live_count t c | None \<Rightarrow> None)"
  by (auto simp: counter_at_def live_count_def split: option.splits if_splits)

lemma drawn_later: "drawn now m key n limit_at \<Longrightarrow> now \<le> t \<Longrightarrow> t < limit_at \<Longrightarrow> drawn t m key n limit_at"
  by (auto simp: drawn_def failures_later [of now t] live_count_def split: option.splits)

lemma attempt_draws:
  assumes "table_ok m" "int (length (mt_counters m)) \<le> maxTrackedSignIns - 2" "drawn now m key n limit_at" "n \<le> limit"
    and "now < limit_at" "limit_at \<le> now + tp_Window (mt_policy m)"
    and "tp_Lockout (mt_policy m) = 0 \<or> limit_at \<le> now + tp_Lockout (mt_policy m)"
    and "key = pairKey tx tenant identity client \<Longrightarrow> limit = tp_MaxFailures (mt_policy m)"
    and "key = clientKey tenant client \<Longrightarrow> limit = tp_MaxFailuresPerClient (mt_policy m)" and "0 < limit"
  obtains retry ok m' where "MemoryThrottle_Attempt tx order now tenant identity client m = ((retry, ok), m')"
    "table_ok m'" "mt_policy m' = mt_policy m" "length (mt_counters m') \<le> length (mt_counters m) + 2"
    "let n' = (if ok \<and> draws_on tx key (now, tenant, identity, client) then n + 1 else n) in
     drawn now m' key n' limit_at \<and> n' \<le> limit"
  using assms(1,2)
proof (cases rule: Attempt_cases [where tx = tx and order = order and now = now and tenant = tenant and
    identity = identity and client = client])
  case (refused retry m')
  with assms(3,4) show ?thesis by (intro that [of retry False m']) (simp_all add: drawn_def)
next
  case (admitted m')
  have "drawn now m' key (if draws_on tx key (now, tenant, identity, client) then n + 1 else n) limit_at \<and>
      (if draws_on tx key (now, tenant, identity, client) then n + 1 else n) \<le> limit"
  proof (cases "draws_on tx key (now, tenant, identity, client)")
    case True
    then have r: "room (counter_at now m key) limit" using admitted(2,3) assms(8,9) by (auto simp: draws_on_def)
    have c: "counter_at now m' key = live_count now (count_one (mt_policy m) limit now (counter_at now m key))"
      using True admitted(4) assms(8,9) by (auto simp: draws_on_def)
    note one = count_one_drawn [OF assms(3,6,7), where limit = limit]
    have "n < limit" using r assms(3,4,10) by (auto simp: room_def drawn_def split: option.splits)
    with True c one assms(5) show ?thesis by (simp add: drawn_def live_count_def)
  next
    case False
    then have "counter_at now m' key = counter_at now m key" using admitted(4) by (auto simp: draws_on_def)
    with False assms(3,4) show ?thesis by (simp add: drawn_def)
  qed
  with admitted show ?thesis by (intro that [of 0 True m']) (simp_all add: Let_def)
qed

lemma run_draws:
  assumes "table_ok m" "int (length (mt_counters m) + 2 * length evs) \<le> maxTrackedSignIns" "drawn t m key n limit_at" "n \<le> limit"
    and "sorted (map fst evs)" "\<And>ev. ev \<in> set evs \<Longrightarrow> t \<le> fst ev \<and> fst ev < limit_at \<and> limit_at \<le> fst ev + tp_Window (mt_policy m) \<and>
      (tp_Lockout (mt_policy m) = 0 \<or> limit_at \<le> fst ev + tp_Lockout (mt_policy m))"
    and "\<And>tenant identity client. key = pairKey tx tenant identity client \<Longrightarrow> limit = tp_MaxFailures (mt_policy m)"
    and "\<And>tenant client. key = clientKey tenant client \<Longrightarrow> limit = tp_MaxFailuresPerClient (mt_policy m)" "0 < limit"
  shows "n + int (admitted_on tx key evs (throttle_run tx order evs m)) \<le> limit"
  using assms
proof (induction evs arbitrary: m n t)
  case Nil
  then show ?case by (simp add: admitted_on_def)
next
  case (Cons ev evs)
  obtain now tenant identity client where ev: "ev = (now, tenant, identity, client)" by (cases ev)
  have now: "t \<le> now" "now < limit_at" "limit_at \<le> now + tp_Window (mt_policy m)"
      "tp_Lockout (mt_policy m) = 0 \<or> limit_at \<le> now + tp_Lockout (mt_policy m)"
    using Cons.prems(6) [of ev] ev by auto
  have len: "int (length (mt_counters m)) \<le> maxTrackedSignIns - 2" using Cons.prems(2) by simp
  obtain retry ok m' where step: "MemoryThrottle_Attempt tx order now tenant identity client m = ((retry, ok), m')"
    "table_ok m'" "mt_policy m' = mt_policy m" "length (mt_counters m') \<le> length (mt_counters m) + 2"
    "let n' = (if ok \<and> draws_on tx key (now, tenant, identity, client) then n + 1 else n) in
     drawn now m' key n' limit_at \<and> n' \<le> limit"
    by (rule attempt_draws [OF Cons.prems(1) len drawn_later [OF Cons.prems(3) now(1,2)] Cons.prems(4) now(2-4)
        Cons.prems(7,8,9)])
  let ?n = "if ok \<and> draws_on tx key ev then n + 1 else n"
  have "?n + int (admitted_on tx key evs (throttle_run tx order evs m')) \<le> limit"
  proof (rule Cons.IH [OF step(2) _ _ _ _ _ _ _ Cons.prems(9)])
    show "now \<le> fst ev' \<and> fst ev' < limit_at \<and> limit_at \<le> fst ev' + tp_Window (mt_policy m') \<and>
        (tp_Lockout (mt_policy m') = 0 \<or> limit_at \<le> fst ev' + tp_Lockout (mt_policy m'))" if "ev' \<in> set evs" for ev'
      using Cons.prems(5) Cons.prems(6) [of ev'] that ev step(3) by auto
    show "limit = tp_MaxFailures (mt_policy m')" if "key = pairKey tx a b c" for a b c
      using Cons.prems(7) [OF that] step(3) by simp
    show "limit = tp_MaxFailuresPerClient (mt_policy m')" if "key = clientKey a b" for a b
      using Cons.prems(8) [OF that] step(3) by simp
  qed (use Cons.prems(2,5) step ev in \<open>auto simp: Let_def\<close>)
  with step(1) show ?case by (auto simp: ev admitted_on_def split: if_splits)
qed

lemma delete_ok: "table_ok m \<Longrightarrow> table_ok (m\<lparr>mt_counters := AList.delete key (mt_counters m)\<rparr>)"
  using length_delete [of key "mt_counters m"] by (auto simp: table_ok_def AList.distinct_delete)

lemma length_update_same: "k \<in> fst ` set xs \<Longrightarrow> length (AList.update k v xs) = length xs"
  by (induction xs) auto

lemma giveBack_ok:
  assumes "table_ok m"
  shows "table_ok (giveBack key m)"
proof (cases "map_of (mt_counters m) key")
  case (Some c)
  then have "key \<in> fst ` set (mt_counters m)" by (force dest: map_of_SomeD)
  with Some assms delete_ok [OF assms, of key] show ?thesis
    by (simp add: giveBack_def table_ok_def AList.distinct_update length_update_same)
qed (simp add: giveBack_def assms)

section \<open>Properties\<close>


definition example_text :: text_functions where
  "example_text = \<lparr>tx_TrimSpace = (\<lambda>s. s), tx_ToLower = (\<lambda>s. s), tx_Sum256 = (\<lambda>s. s), tx_EncodeToString = hex_encode\<rparr>"

definition example_burst :: "sign_in list" where
  "example_burst = replicate 8 (0, ''acme'', ''ana'', ''10.0.0.1'')"


text \<open>C18. The table is bounded: whatever order the language ranges over a map in, every operation
  keeps one entry a key and no more than \<^verbatim>\<open>maxTrackedSignIns\<close> of them.\<close>

theorem throttle_table_bounded:
  assumes "table_ok m" "is_order order"
  shows "table_ok (snd (MemoryThrottle_Attempt tx order now tenant identity client m)) \<and>
    table_ok (MemoryThrottle_Refund tx tenant identity client m) \<and>
    table_ok (MemoryThrottle_Clear tx tenant identity client m) \<and>
    MemoryThrottle_Len (snd (MemoryThrottle_Attempt tx order now tenant identity client m)) \<le> 65536"
proof -
  let ?m = "trim order now m"
  have d: "distinct (map fst (mt_counters ?m))" and len: "int (length (mt_counters ?m)) \<le> maxTrackedSignIns - 2"
    using trim_ok [OF assms] by simp_all
  have two: "table_ok (count ck l2 now (count pk l1 now ?m))" for ck l2 pk l1
    using count_table [OF d, of pk l1 now] count_table [of "count pk l1 now ?m" ck l2 now] len by (auto simp: table_ok_def)
  have "table_ok ?m" using d len by (simp add: table_ok_def)
  with two have "table_ok (snd (MemoryThrottle_Attempt tx order now tenant identity client m))"
    by (auto simp: MemoryThrottle_Attempt_def Let_def split: option.split)
  moreover have "table_ok (giveBack key m')" if "table_ok m'" for key m'
    using that by (rule giveBack_ok)
  ultimately show ?thesis using assms(1)
    by (auto simp: MemoryThrottle_Refund_def MemoryThrottle_Clear_def MemoryThrottle_Len_def delete_ok)
      (simp add: table_ok_def maxTrackedSignIns_def)
qed

theorem throttle_table_bounded_witness:
  "table_ok (snd (MemoryThrottle_Attempt example_text (\<lambda>ks. ks) 0 ''acme'' ''ana'' ''10.0.0.1'' (NewMemoryThrottle 0)))"
  using throttle_table_bounded [of "NewMemoryThrottle 0" "\<lambda>ks. ks" example_text 0 "''acme''" "''ana''" "''10.0.0.1''"]
  by (simp add: table_ok_def NewMemoryThrottle_def is_order_def maxTrackedSignIns_def)

text \<open>C19. What refuses an attempt is a spent budget and nothing else, and being refused costs nothing.
  Short of the cap of the table, an attempt is refused if and only if a live counter, of the pair or of
  the address, has reached its limit. Then it is told to wait exactly what is left of that counter's
  window, and every live counter stays as it was, so hammering a locked-out account does not extend
  the lockout.\<close>

theorem refused_attempt_costs_nothing:
  assumes "table_ok m" "int (MemoryThrottle_Len m) \<le> maxTrackedSignIns - 2"
    and "MemoryThrottle_Attempt tx order now tenant identity client m = ((retry, ok), m')"
    and "budgets = {(pairKey tx tenant identity client, tp_MaxFailures (mt_policy m)),
      (clientKey tenant client, tp_MaxFailuresPerClient (mt_policy m))}"
  shows "(\<not> ok \<longleftrightarrow> (\<exists>(k, limit) \<in> budgets. \<exists>c. counter_at now m k = Some c \<and> limit \<le> fc_count c)) \<and>
    (\<not> ok \<longrightarrow>
      (\<forall>t k. now \<le> t \<longrightarrow> counter_at t m' k = counter_at t m k) \<and>
      (\<exists>(k, limit) \<in> budgets. \<exists>c. counter_at now m k = Some c \<and> limit \<le> fc_count c \<and>
         retry = fc_reset c - now \<and> 0 < retry))"
  using assms(1,2) [unfolded MemoryThrottle_Len_def]
proof (cases rule: Attempt_cases [where tx = tx and order = order and now = now and tenant = tenant and
    identity = identity and client = client])
  case (refused retry' m'')
  with assms(3) have eq: "retry' = retry" "m'' = m'" "\<not> ok" by simp_all
  with refused(3) have "\<forall>t k. now \<le> t \<longrightarrow> counter_at t m' k = counter_at t m k" by blast
  moreover have "\<exists>(k, limit) \<in> budgets. \<exists>c. counter_at now m k = Some c \<and> limit \<le> fc_count c \<and>
      retry = fc_reset c - now \<and> 0 < retry"
    using refused(7) unfolding assms(4) eq(1) .
  ultimately show ?thesis using eq(3) by fast
next
  case (admitted m'')
  with assms(3,4) show ?thesis by (auto simp: room_def)
qed

definition example_spent :: memory_throttle where
  "example_spent = (NewMemoryThrottle 0)\<lparr>mt_counters :=
     [(pairKey example_text ''acme'' ''ana'' ''10.0.0.1'', \<lparr>fc_count = 5, fc_reset = Minute\<rparr>)]\<rparr>"

lemma example_spent_refuses:
  "fst (MemoryThrottle_Attempt example_text (\<lambda>ks. ks) 7 ''acme'' ''ana'' ''10.0.0.1'' example_spent) = (Minute - 7, False)"
  by code_simp

theorem refused_attempt_costs_nothing_witness:
  "counter_at 7 (snd (MemoryThrottle_Attempt example_text (\<lambda>ks. ks) 7 ''acme'' ''ana'' ''10.0.0.1'' example_spent)) =
   counter_at 7 example_spent"
proof -
  have "table_ok example_spent" "int (MemoryThrottle_Len example_spent) \<le> maxTrackedSignIns - 2"
    by (simp_all add: table_ok_def MemoryThrottle_Len_def example_spent_def maxTrackedSignIns_def)
  moreover obtain m' where m': "MemoryThrottle_Attempt example_text (\<lambda>ks. ks) 7 ''acme'' ''ana'' ''10.0.0.1'' example_spent =
      ((Minute - 7, False), m')"
    using example_spent_refuses by (metis prod.collapse)
  ultimately have "\<forall>t k. 7 \<le> t \<longrightarrow> counter_at t m' k = counter_at t example_spent k"
    using refused_attempt_costs_nothing [OF _ _ m' refl] by blast
  then show ?thesis by (simp add: m' fun_eq_iff)
qed

end
