(* ===== verification/Cache_Store.thy ===== *)
theory Cache_Store
  imports Auth_Policy
begin

text \<open>
  The interfaces of \<^verbatim>\<open>cache/store.go\<close>. An interface value is the record of its methods, over the
  state of the store behind it; the halves a store may lack (\<^verbatim>\<open>Locking\<close>, \<^verbatim>\<open>CurrentOwner\<close>,
  \<^verbatim>\<open>CanFlushLocks\<close>, a batch read or write, \<^verbatim>\<open>Touch\<close>) are options, so a type assertion is a case
  distinction. The locales say what the doc comments of the interface promise, through an
  abstraction of the state to the entries it holds and when each expires.
\<close>

section \<open>Errors\<close>

text \<open>The sentinels of the package and one constructor for every message it formats, with the
  arguments of the message. \<open>Backend\<close> is an error of a store outside the package,
  \<open>Callback\<close> one of the application's own functions.\<close>

datatype cache_error =
    ErrNotFound | ErrNoTenant | ErrNoTTL | ErrLocked | ErrLockTimeout | ErrUnsupported | ErrAllStoresFailed
  | TenantNotInKey string
  | NotANamespace string
  | EmptyKey
  | EmptyTag
  | TagWithColon string
  | NoTags
  | LockWithoutTTL string
  | LockWithoutName
  | LockStillHeld string duration
  | Unsupported string
  | NoRandomness
  | NotACounter string
  | LimitWithoutKey
  | LimitWithoutWindow string
  | LimitClosed string int
  | Encoding
  | Decoding
  | WrongType string string
  | FlexibleOrder string duration duration
  | FromAuth auth_error
  | ContextDone
  | Backend nat
  | Callback nat

text \<open>What a formatted error wraps with \<^verbatim>\<open>%w\<close>; \<^verbatim>\<open>errors.Is\<close> walks the chain.\<close>

fun unwrap :: "cache_error \<Rightarrow> cache_error option" where
  "unwrap (TenantNotInKey _) = Some ErrNoTenant"
| "unwrap (LockWithoutTTL _) = Some ErrNoTTL"
| "unwrap (LockStillHeld _ _) = Some ErrLockTimeout"
| "unwrap (Unsupported _) = Some ErrUnsupported"
| "unwrap (LimitWithoutWindow _) = Some ErrNoTTL"
| "unwrap _ = None"

definition errors_is :: "cache_error \<Rightarrow> cache_error \<Rightarrow> bool" where
  "errors_is e target \<longleftrightarrow> e = target \<or> unwrap e = Some target"

lemma errors_is_refl [simp]: "errors_is e e"
  by (simp add: errors_is_def)

lemma errors_is_NotFound [simp]: "errors_is e ErrNotFound \<longleftrightarrow> e = ErrNotFound"
  by (cases e) (auto simp: errors_is_def)

type_synonym 'a go = "cache_error + 'a"

section \<open>The interfaces\<close>

record 's locking =
  AcquireLock :: "instant \<Rightarrow> string \<Rightarrow> string \<Rightarrow> duration \<Rightarrow> 's \<Rightarrow> bool go \<times> 's"
  ReleaseLock :: "instant \<Rightarrow> string \<Rightarrow> string \<Rightarrow> 's \<Rightarrow> unit go \<times> 's"

record 's store =
  Store_Get :: "instant \<Rightarrow> string \<Rightarrow> 's \<Rightarrow> bytes go \<times> 's"
  Store_Put :: "instant \<Rightarrow> string \<Rightarrow> bytes \<Rightarrow> duration \<Rightarrow> 's \<Rightarrow> unit go \<times> 's"
  Store_Add :: "instant \<Rightarrow> string \<Rightarrow> bytes \<Rightarrow> duration \<Rightarrow> 's \<Rightarrow> bool go \<times> 's"
  Store_Forget :: "instant \<Rightarrow> string \<Rightarrow> 's \<Rightarrow> unit go \<times> 's"
  Store_Increment :: "instant \<Rightarrow> string \<Rightarrow> int \<Rightarrow> duration \<Rightarrow> 's \<Rightarrow> int go \<times> 's"
  Store_Flush :: "instant \<Rightarrow> string \<Rightarrow> 's \<Rightarrow> unit go \<times> 's"
  as_Locking :: "'s locking option"
  as_CurrentOwner :: "(instant \<Rightarrow> string \<Rightarrow> 's \<Rightarrow> string go \<times> 's) option"
  as_CanFlushLocks :: "(instant \<Rightarrow> 's \<Rightarrow> unit go \<times> 's) option"
  as_Touch :: "(instant \<Rightarrow> string \<Rightarrow> duration \<Rightarrow> 's \<Rightarrow> bool go \<times> 's) option"
  as_Many :: "(instant \<Rightarrow> string list \<Rightarrow> 's \<Rightarrow> (string \<rightharpoonup> bytes option) go \<times> 's) option"
  as_PutMany :: "(instant \<Rightarrow> (string \<times> bytes) list \<Rightarrow> duration \<Rightarrow> 's \<Rightarrow> unit go \<times> 's) option"

section \<open>What a store promises\<close>

text \<open>The entries a store holds, each with its deadline, and those of them still live at \<open>t\<close>.\<close>

type_synonym snapshot = "string \<Rightarrow> (bytes \<times> instant) option"

definition live_at :: "instant \<Rightarrow> snapshot \<Rightarrow> snapshot" where
  "live_at t m k = (case m k of None \<Rightarrow> None | Some (v, e) \<Rightarrow> if t < e then Some (v, e) else None)"

definition counter_of :: "instant \<Rightarrow> snapshot \<Rightarrow> string \<Rightarrow> int option" where
  "counter_of now m k = (case live_at now m k of None \<Rightarrow> Some 0 | Some (v, _) \<Rightarrow> parse_int v)"

definition deadline_of :: "instant \<Rightarrow> snapshot \<Rightarrow> string \<Rightarrow> duration \<Rightarrow> instant" where
  "deadline_of now m k ttl = (case live_at now m k of None \<Rightarrow> now + ttl | Some (_, e) \<Rightarrow> e)"

lemma live_at_upd: "live_at t (m(k \<mapsto> (v, e))) = (live_at t m)(k := if t < e then Some (v, e) else None)"
  by (rule ext) (simp add: live_at_def)

lemma live_at_del: "live_at t (m(k := None)) = (live_at t m)(k := None)"
  by (rule ext) (simp add: live_at_def)

lemma live_at_later: "t \<le> t' \<Longrightarrow> live_at t m = live_at t m' \<Longrightarrow> live_at t' m k = live_at t' m' k"
  by (drule fun_cong [where x = k]) (auto simp: live_at_def split: option.splits if_splits)

lemma live_at_mono: "live_at t' m k = Some ve \<Longrightarrow> t \<le> t' \<Longrightarrow> live_at t m k = Some ve"
  by (auto simp: live_at_def split: option.splits if_splits)

lemma live_at_deadline: "live_at t m k = Some (v, e) \<Longrightarrow> t < e"
  by (auto simp: live_at_def split: option.splits if_splits)

lemma live_at_Some: "live_at t m k = Some (v, e) \<longleftrightarrow> m k = Some (v, e) \<and> t < e"
  by (auto simp: live_at_def split: option.splits if_splits)

named_theorems store_laws \<open>the laws of a store, for rewriting\<close>

text \<open>The reading half, which a store that keeps nothing satisfies too.\<close>

locale reading_contract =
  fixes St :: "'s store" and invar :: "'s \<Rightarrow> bool" and snap :: "'s \<Rightarrow> snapshot"
  assumes get_result: "invar s \<Longrightarrow> fst (Store_Get St now k s) =
      (case live_at now (snap s) k of None \<Rightarrow> Inl ErrNotFound | Some (v, _) \<Rightarrow> Inr v)"
    and get_keeps: "invar s \<Longrightarrow> now \<le> t \<Longrightarrow> live_at t (snap (snd (Store_Get St now k s))) = live_at t (snap s)"
    and get_invar: "invar s \<Longrightarrow> invar (snd (Store_Get St now k s))"
    and forget_result: "invar s \<Longrightarrow> fst (Store_Forget St now k s) = Inr ()"
    and forget_snap: "invar s \<Longrightarrow> now \<le> t \<Longrightarrow>
      live_at t (snap (snd (Store_Forget St now k s))) = (live_at t (snap s))(k := None)"
    and forget_invar: "invar s \<Longrightarrow> invar (snd (Store_Forget St now k s))"
    and flush_result: "invar s \<Longrightarrow> fst (Store_Flush St now p s) = Inr ()"
    and flush_snap: "invar s \<Longrightarrow> now \<le> t \<Longrightarrow> live_at t (snap (snd (Store_Flush St now p s))) =
      (\<lambda>k. if has_prefix k p then None else live_at t (snap s) k)"
    and flush_invar: "invar s \<Longrightarrow> invar (snd (Store_Flush St now p s))"
begin

lemma get_after_forget: "invar s \<Longrightarrow> now \<le> t \<Longrightarrow>
    fst (Store_Get St t k (snd (Store_Forget St now k s))) = Inl ErrNotFound"
  by (simp add: get_result forget_invar forget_snap)

lemma get_after_flush: "invar s \<Longrightarrow> now \<le> t \<Longrightarrow> has_prefix k p \<Longrightarrow>
    fst (Store_Get St t k (snd (Store_Flush St now p s))) = Inl ErrNotFound"
  by (simp add: get_result flush_invar flush_snap)

lemma get_after_flush_other: "invar s \<Longrightarrow> now \<le> t \<Longrightarrow> \<not> has_prefix k p \<Longrightarrow>
    fst (Store_Get St t k (snd (Store_Flush St now p s))) = fst (Store_Get St t k s)"
  by (simp add: get_result flush_invar flush_snap)

end

locale store_contract = reading_contract St invar snap
  for St :: "'s store" and invar :: "'s \<Rightarrow> bool" and snap :: "'s \<Rightarrow> snapshot" +
  assumes put_result: "invar s \<Longrightarrow> 0 < ttl \<Longrightarrow> fst (Store_Put St now k v ttl s) = Inr ()"
    and put_snap: "invar s \<Longrightarrow> 0 < ttl \<Longrightarrow> now \<le> t \<Longrightarrow>
      live_at t (snap (snd (Store_Put St now k v ttl s))) = live_at t ((snap s)(k \<mapsto> (v, now + ttl)))"
    and put_refuses: "ttl \<le> 0 \<Longrightarrow> Store_Put St now k v ttl s = (Inl ErrNoTTL, s)"
    and put_invar: "invar s \<Longrightarrow> invar (snd (Store_Put St now k v ttl s))"
    and add_result: "invar s \<Longrightarrow> 0 < ttl \<Longrightarrow>
      fst (Store_Add St now k v ttl s) = Inr (live_at now (snap s) k = None)"
    and add_snap: "invar s \<Longrightarrow> 0 < ttl \<Longrightarrow> now \<le> t \<Longrightarrow>
      live_at t (snap (snd (Store_Add St now k v ttl s))) =
      (if live_at now (snap s) k = None then live_at t ((snap s)(k \<mapsto> (v, now + ttl))) else live_at t (snap s))"
    and add_refuses: "ttl \<le> 0 \<Longrightarrow> Store_Add St now k v ttl s = (Inl ErrNoTTL, s)"
    and add_invar: "invar s \<Longrightarrow> invar (snd (Store_Add St now k v ttl s))"
    and increment_result: "invar s \<Longrightarrow> 0 < ttl \<Longrightarrow> fst (Store_Increment St now k d ttl s) =
      (case counter_of now (snap s) k of None \<Rightarrow> Inl (NotACounter k) | Some n \<Rightarrow> Inr (wrap64 (n + d)))"
    and increment_snap: "invar s \<Longrightarrow> 0 < ttl \<Longrightarrow> now \<le> t \<Longrightarrow>
      live_at t (snap (snd (Store_Increment St now k d ttl s))) =
      (case counter_of now (snap s) k of
         None \<Rightarrow> live_at t (snap s)
       | Some n \<Rightarrow> live_at t ((snap s)(k \<mapsto> (format_int (wrap64 (n + d)), deadline_of now (snap s) k ttl))))"
    and increment_refuses: "ttl \<le> 0 \<Longrightarrow> Store_Increment St now k d ttl s = (Inl ErrNoTTL, s)"
    and increment_invar: "invar s \<Longrightarrow> invar (snd (Store_Increment St now k d ttl s))"
begin

lemmas invars = get_invar forget_invar flush_invar put_invar add_invar increment_invar

lemma get_after_put: "invar s \<Longrightarrow> 0 < ttl \<Longrightarrow> now \<le> t \<Longrightarrow>
    fst (Store_Get St t k (snd (Store_Put St now k v ttl s))) = (if t < now + ttl then Inr v else Inl ErrNotFound)"
  by (simp add: get_result invars put_snap live_at_upd)

lemma get_after_put_other: "invar s \<Longrightarrow> 0 < ttl \<Longrightarrow> now \<le> t \<Longrightarrow> k \<noteq> k' \<Longrightarrow>
    fst (Store_Get St t k' (snd (Store_Put St now k v ttl s))) = fst (Store_Get St t k' s)"
  by (simp add: get_result invars put_snap live_at_upd)

text \<open>The atomic half: of two callers adding one key within its lifetime, one is told yes.\<close>

lemma add_excludes: "invar s \<Longrightarrow> 0 < ttl \<Longrightarrow> 0 < ttl' \<Longrightarrow> now \<le> t \<Longrightarrow> t < now + ttl \<Longrightarrow>
    fst (Store_Add St now k v ttl s) = Inr True \<Longrightarrow>
    fst (Store_Add St t k w ttl' (snd (Store_Add St now k v ttl s))) = Inr False"
  by (simp add: add_result invars add_snap live_at_upd)

text \<open>A counter read back after an increment is the number the increment returned, and the
  deadline of a live counter does not move.\<close>

lemma counter_after_increment: "invar s \<Longrightarrow> 0 < ttl \<Longrightarrow> now \<le> t \<Longrightarrow>
    fst (Store_Increment St now k d ttl s) = Inr n \<Longrightarrow> t < deadline_of now (snap s) k ttl \<Longrightarrow>
    counter_of t (snap (snd (Store_Increment St now k d ttl s))) k = Some n"
  by (auto simp: counter_of_def [of t] increment_result increment_snap live_at_upd split: option.splits)

end

text \<open>A store that can move a deadline keeps the value and nothing else changes; an absent key stays
  absent.\<close>

locale touch_contract = store_contract St invar snap
  for St :: "'s store" and invar :: "'s \<Rightarrow> bool" and snap :: "'s \<Rightarrow> snapshot" +
  assumes touch_result: "as_Touch St = Some touch \<Longrightarrow> invar s \<Longrightarrow> 0 < ttl \<Longrightarrow>
      fst (touch now k ttl s) = Inr (live_at now (snap s) k \<noteq> None)"
    and touch_snap: "as_Touch St = Some touch \<Longrightarrow> invar s \<Longrightarrow> 0 < ttl \<Longrightarrow> now \<le> t \<Longrightarrow>
      live_at t (snap (snd (touch now k ttl s))) =
      (case live_at now (snap s) k of
         None \<Rightarrow> live_at t (snap s)
       | Some (v, _) \<Rightarrow> live_at t ((snap s)(k \<mapsto> (v, now + ttl))))"
    and touch_invar: "as_Touch St = Some touch \<Longrightarrow> invar s \<Longrightarrow> invar (snd (touch now k ttl s))"

text \<open>A batch read answers every key asked for, a batch write writes every pair; a key given twice
  keeps its last value.\<close>

definition written :: "(string \<times> bytes) list \<Rightarrow> instant \<Rightarrow> snapshot \<Rightarrow> snapshot" where
  "written kvs e m = fold (\<lambda>(k, v) m. m(k \<mapsto> (v, e))) kvs m"

locale batch_contract = touch_contract St invar snap
  for St :: "'s store" and invar :: "'s \<Rightarrow> bool" and snap :: "'s \<Rightarrow> snapshot" +
  assumes many_result: "as_Many St = Some many \<Longrightarrow> invar s \<Longrightarrow> fst (many now ks s) =
      Inr (\<lambda>k. if k \<in> set ks then Some (map_option fst (live_at now (snap s) k)) else None)"
    and many_keeps: "as_Many St = Some many \<Longrightarrow> invar s \<Longrightarrow> now \<le> t \<Longrightarrow>
      live_at t (snap (snd (many now ks s))) = live_at t (snap s)"
    and many_invar: "as_Many St = Some many \<Longrightarrow> invar s \<Longrightarrow> invar (snd (many now ks s))"
    and touch_refuses: "as_Touch St = Some touch \<Longrightarrow> ttl \<le> 0 \<Longrightarrow> touch now k ttl s = (Inl ErrNoTTL, s)"
    and put_many_result: "as_PutMany St = Some put_many \<Longrightarrow> invar s \<Longrightarrow> 0 < ttl \<Longrightarrow> fst (put_many now kvs ttl s) = Inr ()"
    and put_many_snap: "as_PutMany St = Some put_many \<Longrightarrow> invar s \<Longrightarrow> 0 < ttl \<Longrightarrow> now \<le> t \<Longrightarrow>
      live_at t (snap (snd (put_many now kvs ttl s))) = live_at t (written kvs (now + ttl) (snap s))"
    and put_many_refuses: "as_PutMany St = Some put_many \<Longrightarrow> ttl \<le> 0 \<Longrightarrow> put_many now kvs ttl s = (Inl ErrNoTTL, s)"
    and put_many_invar: "as_PutMany St = Some put_many \<Longrightarrow> invar s \<Longrightarrow> invar (snd (put_many now kvs ttl s))"

section \<open>What a lock space promises\<close>

text \<open>A lock is an entry holding the token of its owner. \<open>lsnap\<close> reads the lock space.\<close>

locale lock_contract =
  fixes L :: "'s locking" and linvar :: "'s \<Rightarrow> bool" and lsnap :: "'s \<Rightarrow> snapshot"
  assumes acquire_result: "linvar s \<Longrightarrow> 0 < ttl \<Longrightarrow>
      fst (AcquireLock L now k tok ttl s) = Inr (live_at now (lsnap s) k = None)"
    and acquire_snap: "linvar s \<Longrightarrow> 0 < ttl \<Longrightarrow> now \<le> t \<Longrightarrow>
      live_at t (lsnap (snd (AcquireLock L now k tok ttl s))) =
      (if live_at now (lsnap s) k = None then live_at t ((lsnap s)(k \<mapsto> (tok, now + ttl))) else live_at t (lsnap s))"
    and acquire_refuses: "ttl \<le> 0 \<Longrightarrow> AcquireLock L now k tok ttl s = (Inl ErrNoTTL, s)"
    and acquire_invar: "linvar s \<Longrightarrow> linvar (snd (AcquireLock L now k tok ttl s))"
    and release_result: "linvar s \<Longrightarrow> fst (ReleaseLock L now k tok s) = Inr ()"
    and release_snap: "linvar s \<Longrightarrow> now \<le> t \<Longrightarrow> live_at t (lsnap (snd (ReleaseLock L now k tok s))) =
      (if map_option fst (live_at now (lsnap s) k) = Some tok then (live_at t (lsnap s))(k := None)
       else live_at t (lsnap s))"
    and release_invar: "linvar s \<Longrightarrow> linvar (snd (ReleaseLock L now k tok s))"
begin

definition holder :: "instant \<Rightarrow> string \<Rightarrow> 's \<Rightarrow> string option" where
  "holder t k s = map_option fst (live_at t (lsnap s) k)"

lemma holder_acquire: "linvar s \<Longrightarrow> 0 < ttl \<Longrightarrow>
    holder now k (snd (AcquireLock L now k tok ttl s)) =
    (case holder now k s of None \<Rightarrow> Some tok | Some o' \<Rightarrow> Some o')"
  by (auto simp: holder_def acquire_snap live_at_upd split: option.splits)

lemma holder_release: "linvar s \<Longrightarrow>
    holder now k (snd (ReleaseLock L now k tok s)) = (if holder now k s = Some tok then None else holder now k s)"
  by (simp add: holder_def release_snap)

text \<open>A holder whose lock expired cannot release the lock its successor now owns.\<close>

lemma late_release: "linvar s \<Longrightarrow> now \<le> t \<Longrightarrow> holder now k s \<noteq> Some tok \<Longrightarrow>
    live_at t (lsnap (snd (ReleaseLock L now k tok s))) = live_at t (lsnap s)"
  by (simp add: holder_def release_snap)

end

text \<open>A store whose locks live apart from its entries: neither half moves the other.\<close>

locale separate_lock_store = store_contract St invar snap + lock_contract L invar lsnap
  for St :: "'s store" and invar :: "'s \<Rightarrow> bool" and snap :: "'s \<Rightarrow> snapshot"
    and L :: "'s locking" and lsnap :: "'s \<Rightarrow> snapshot" +
  assumes locking: "as_Locking St = Some L"
    and get_locks: "lsnap (snd (Store_Get St now k s)) = lsnap s"
    and put_locks: "lsnap (snd (Store_Put St now k v ttl s)) = lsnap s"
    and add_locks: "lsnap (snd (Store_Add St now k v ttl s)) = lsnap s"
    and forget_locks: "lsnap (snd (Store_Forget St now k s)) = lsnap s"
    and increment_locks: "lsnap (snd (Store_Increment St now k d ttl s)) = lsnap s"
    and flush_locks: "lsnap (snd (Store_Flush St now k s)) = lsnap s"
    and acquire_entries: "snap (snd (AcquireLock L now k tok ttl s)) = snap s"
    and release_entries: "snap (snd (ReleaseLock L now k tok s)) = snap s"
begin

lemma flush_keeps_holder: "holder t k (snd (Store_Flush St now p s)) = holder t k s"
  by (simp add: holder_def flush_locks)

end

end
