(* ===== verification/Array_Store.thy ===== *)
theory Array_Store
  imports Cache_Store
begin

text \<open>
  The in-process store, \<^verbatim>\<open>cache/array.go\<close>, and the store that keeps nothing, \<^verbatim>\<open>cache/null.go\<close>.
  Every method of \<^verbatim>\<open>ArrayStore\<close> holds its mutex from its first read to its last write, so each
  is one atomic step of the state; \<open>now\<close> is what \<^verbatim>\<open>support.Now\<close> answers in it.
  Values are copied in and out, which a value of the logic always is.
\<close>

section \<open>ArrayStore\<close>

record entry =
  e_value :: bytes
  e_expires :: instant

record array_store =
  as_entries :: "string \<Rightarrow> entry option"
  as_locks :: "string \<Rightarrow> entry option"

definition NewArrayStore :: array_store where
  "NewArrayStore = \<lparr>as_entries = Map.empty, as_locks = Map.empty\<rparr>"

definition newEntry :: "instant \<Rightarrow> bytes \<Rightarrow> duration \<Rightarrow> entry" where
  "newEntry now value ttl = \<lparr>e_value = value, e_expires = now + ttl\<rparr>"

text \<open>\<open>live\<close> reads an entry and drops it when it has expired.\<close>

definition live :: "instant \<Rightarrow> (string \<Rightarrow> entry option) \<Rightarrow> string \<Rightarrow> entry option \<times> (string \<Rightarrow> entry option)" where
  "live now from key =
     (case from key of
        None \<Rightarrow> (None, from)
      | Some e \<Rightarrow> if \<not> now < e_expires e then (None, from(key := None)) else (Some e, from))"

text \<open>\<^verbatim>\<open>All\<close> visits every key with \<open>live\<close>: what it returns and what it leaves are the live entries.\<close>

definition ArrayStore_All :: "instant \<Rightarrow> array_store \<Rightarrow> (string \<Rightarrow> entry option) \<times> array_store" where
  "ArrayStore_All now s =
     (let kept = (\<lambda>key. fst (live now (as_entries s) key)) in (kept, s\<lparr>as_entries := kept\<rparr>))"

fun many_loop ::
  "instant \<Rightarrow> string list \<Rightarrow> (string \<rightharpoonup> bytes option) \<Rightarrow> (string \<Rightarrow> entry option) \<Rightarrow>
   (string \<rightharpoonup> bytes option) \<times> (string \<Rightarrow> entry option)" where
  "many_loop now [] out es = (out, es)"
| "many_loop now (key # keys) out es =
     (case live now es key of
        (None, es') \<Rightarrow> many_loop now keys (out(key \<mapsto> None)) es'
      | (Some e, es') \<Rightarrow> many_loop now keys (out(key \<mapsto> Some (e_value e))) es')"

definition ArrayStore_Many :: "instant \<Rightarrow> string list \<Rightarrow> array_store \<Rightarrow> (string \<rightharpoonup> bytes option) go \<times> array_store" where
  "ArrayStore_Many now keys s =
     (case many_loop now keys Map.empty (as_entries s) of (out, es) \<Rightarrow> (Inr out, s\<lparr>as_entries := es\<rparr>))"

text \<open>The map argument of \<^verbatim>\<open>PutMany\<close> is the list of its pairs, in the order the loop takes them.\<close>

fun putmany_loop :: "instant \<Rightarrow> (string \<times> bytes) list \<Rightarrow> duration \<Rightarrow> (string \<Rightarrow> entry option) \<Rightarrow> (string \<Rightarrow> entry option)" where
  "putmany_loop now [] ttl es = es"
| "putmany_loop now ((key, value) # rest) ttl es = putmany_loop now rest ttl (es(key \<mapsto> newEntry now value ttl))"

definition ArrayStore_PutMany :: "instant \<Rightarrow> (string \<times> bytes) list \<Rightarrow> duration \<Rightarrow> array_store \<Rightarrow> unit go \<times> array_store" where
  "ArrayStore_PutMany now values ttl s =
     (if ttl \<le> 0 then (Inl ErrNoTTL, s)
      else (Inr (), s\<lparr>as_entries := putmany_loop now values ttl (as_entries s)\<rparr>))"

definition ArrayStore_Get :: "instant \<Rightarrow> string \<Rightarrow> array_store \<Rightarrow> bytes go \<times> array_store" where
  "ArrayStore_Get now key s =
     (case live now (as_entries s) key of
        (None, es) \<Rightarrow> (Inl ErrNotFound, s\<lparr>as_entries := es\<rparr>)
      | (Some e, es) \<Rightarrow> (Inr (e_value e), s\<lparr>as_entries := es\<rparr>))"

definition ArrayStore_Put :: "instant \<Rightarrow> string \<Rightarrow> bytes \<Rightarrow> duration \<Rightarrow> array_store \<Rightarrow> unit go \<times> array_store" where
  "ArrayStore_Put now key value ttl s =
     (if ttl \<le> 0 then (Inl ErrNoTTL, s)
      else (Inr (), s\<lparr>as_entries := (as_entries s)(key \<mapsto> newEntry now value ttl)\<rparr>))"

definition ArrayStore_Add :: "instant \<Rightarrow> string \<Rightarrow> bytes \<Rightarrow> duration \<Rightarrow> array_store \<Rightarrow> bool go \<times> array_store" where
  "ArrayStore_Add now key value ttl s =
     (if ttl \<le> 0 then (Inl ErrNoTTL, s)
      else case live now (as_entries s) key of
        (Some e, es) \<Rightarrow> (Inr False, s\<lparr>as_entries := es\<rparr>)
      | (None, es) \<Rightarrow> (Inr True, s\<lparr>as_entries := es(key \<mapsto> newEntry now value ttl)\<rparr>))"

definition ArrayStore_Forget :: "instant \<Rightarrow> string \<Rightarrow> array_store \<Rightarrow> unit go \<times> array_store" where
  "ArrayStore_Forget now key s = (Inr (), s\<lparr>as_entries := (as_entries s)(key := None)\<rparr>)"

definition ArrayStore_Increment :: "instant \<Rightarrow> string \<Rightarrow> int \<Rightarrow> duration \<Rightarrow> array_store \<Rightarrow> int go \<times> array_store" where
  "ArrayStore_Increment now key delta ttl s =
     (if ttl \<le> 0 then (Inl ErrNoTTL, s)
      else case live now (as_entries s) key of
        (Some e, es) \<Rightarrow>
          (case parse_int (e_value e) of
             None \<Rightarrow> (Inl (NotACounter key), s\<lparr>as_entries := es\<rparr>)
           | Some parsed \<Rightarrow>
               let n = wrap64 (parsed + delta)
               in (Inr n, s\<lparr>as_entries := es(key \<mapsto> \<lparr>e_value = format_int n, e_expires = e_expires e\<rparr>)\<rparr>))
      | (None, es) \<Rightarrow>
          let n = wrap64 (0 + delta)
          in (Inr n, s\<lparr>as_entries := es(key \<mapsto> \<lparr>e_value = format_int n, e_expires = now + ttl\<rparr>)\<rparr>))"

definition ArrayStore_Decrement :: "instant \<Rightarrow> string \<Rightarrow> int \<Rightarrow> duration \<Rightarrow> array_store \<Rightarrow> int go \<times> array_store" where
  "ArrayStore_Decrement now key delta ttl s = ArrayStore_Increment now key (wrap64 (- delta)) ttl s"

text \<open>\<^verbatim>\<open>foreverTTL\<close>, of \<^verbatim>\<open>cache/repository.go\<close>: a century.\<close>

definition foreverTTL :: duration where
  "foreverTTL = 100 * 365 * 24 * Hour"

definition ArrayStore_Forever :: "instant \<Rightarrow> string \<Rightarrow> bytes \<Rightarrow> array_store \<Rightarrow> unit go \<times> array_store" where
  "ArrayStore_Forever now key value s = ArrayStore_Put now key value foreverTTL s"

definition ArrayStore_Touch :: "instant \<Rightarrow> string \<Rightarrow> duration \<Rightarrow> array_store \<Rightarrow> bool go \<times> array_store" where
  "ArrayStore_Touch now key ttl s =
     (if ttl \<le> 0 then (Inl ErrNoTTL, s)
      else case live now (as_entries s) key of
        (None, es) \<Rightarrow> (Inr False, s\<lparr>as_entries := es\<rparr>)
      | (Some e, es) \<Rightarrow> (Inr True, s\<lparr>as_entries := es(key \<mapsto> e\<lparr>e_expires := now + ttl\<rparr>)\<rparr>))"

definition ArrayStore_FlushLocks :: "instant \<Rightarrow> array_store \<Rightarrow> unit go \<times> array_store" where
  "ArrayStore_FlushLocks now s = (Inr (), s\<lparr>as_locks := Map.empty\<rparr>)"

definition ArrayStore_CurrentOwner :: "instant \<Rightarrow> string \<Rightarrow> array_store \<Rightarrow> string go \<times> array_store" where
  "ArrayStore_CurrentOwner now key s =
     (case live now (as_locks s) key of
        (None, ls) \<Rightarrow> (Inr [], s\<lparr>as_locks := ls\<rparr>)
      | (Some e, ls) \<Rightarrow> (Inr (e_value e), s\<lparr>as_locks := ls\<rparr>))"

definition ArrayStore_ForceReleaseLock :: "instant \<Rightarrow> string \<Rightarrow> array_store \<Rightarrow> unit go \<times> array_store" where
  "ArrayStore_ForceReleaseLock now key s = (Inr (), s\<lparr>as_locks := (as_locks s)(key := None)\<rparr>)"

definition ArrayStore_Flush :: "instant \<Rightarrow> string \<Rightarrow> array_store \<Rightarrow> unit go \<times> array_store" where
  "ArrayStore_Flush now prefix s =
     (Inr (), s\<lparr>as_entries := (\<lambda>key. if has_prefix key prefix then None else as_entries s key)\<rparr>)"

definition ArrayStore_AcquireLock :: "instant \<Rightarrow> string \<Rightarrow> string \<Rightarrow> duration \<Rightarrow> array_store \<Rightarrow> bool go \<times> array_store" where
  "ArrayStore_AcquireLock now key token ttl s =
     (if ttl \<le> 0 then (Inl ErrNoTTL, s)
      else case live now (as_locks s) key of
        (Some e, ls) \<Rightarrow> (Inr False, s\<lparr>as_locks := ls\<rparr>)
      | (None, ls) \<Rightarrow> (Inr True, s\<lparr>as_locks := ls(key \<mapsto> newEntry now token ttl)\<rparr>))"

definition ArrayStore_ReleaseLock :: "instant \<Rightarrow> string \<Rightarrow> string \<Rightarrow> array_store \<Rightarrow> unit go \<times> array_store" where
  "ArrayStore_ReleaseLock now key token s =
     (case live now (as_locks s) key of
        (None, ls) \<Rightarrow> (Inr (), s\<lparr>as_locks := ls\<rparr>)
      | (Some e, ls) \<Rightarrow>
          if e_value e \<noteq> token then (Inr (), s\<lparr>as_locks := ls\<rparr>)
          else (Inr (), s\<lparr>as_locks := ls(key := None)\<rparr>))"

text \<open>The interface values a \<^verbatim>\<open>*ArrayStore\<close> converts to.\<close>

definition array_locking :: "array_store locking" where
  "array_locking = \<lparr>AcquireLock = ArrayStore_AcquireLock, ReleaseLock = ArrayStore_ReleaseLock\<rparr>"

definition array_ops :: "array_store store" where
  "array_ops =
     \<lparr>Store_Get = ArrayStore_Get, Store_Put = ArrayStore_Put, Store_Add = ArrayStore_Add,
      Store_Forget = ArrayStore_Forget, Store_Increment = ArrayStore_Increment, Store_Flush = ArrayStore_Flush,
      as_Locking = Some array_locking, as_CurrentOwner = Some ArrayStore_CurrentOwner,
      as_CanFlushLocks = Some ArrayStore_FlushLocks, as_Touch = Some ArrayStore_Touch,
      as_Many = Some ArrayStore_Many, as_PutMany = Some ArrayStore_PutMany\<rparr>"

section \<open>NullStore\<close>

definition NullStore_Get :: "instant \<Rightarrow> string \<Rightarrow> unit \<Rightarrow> bytes go \<times> unit" where
  "NullStore_Get now key s = (Inl ErrNotFound, s)"

fun null_many_loop :: "string list \<Rightarrow> (string \<rightharpoonup> bytes option) \<Rightarrow> (string \<rightharpoonup> bytes option)" where
  "null_many_loop [] out = out"
| "null_many_loop (key # keys) out = null_many_loop keys (out(key \<mapsto> None))"

definition NullStore_Many :: "instant \<Rightarrow> string list \<Rightarrow> unit \<Rightarrow> (string \<rightharpoonup> bytes option) go \<times> unit" where
  "NullStore_Many now keys s = (Inr (null_many_loop keys Map.empty), s)"

definition NullStore_Put :: "instant \<Rightarrow> string \<Rightarrow> bytes \<Rightarrow> duration \<Rightarrow> unit \<Rightarrow> unit go \<times> unit" where
  "NullStore_Put now key value ttl s = (Inr (), s)"

definition NullStore_PutMany :: "instant \<Rightarrow> (string \<times> bytes) list \<Rightarrow> duration \<Rightarrow> unit \<Rightarrow> unit go \<times> unit" where
  "NullStore_PutMany now values ttl s = (Inr (), s)"

definition NullStore_Add :: "instant \<Rightarrow> string \<Rightarrow> bytes \<Rightarrow> duration \<Rightarrow> unit \<Rightarrow> bool go \<times> unit" where
  "NullStore_Add now key value ttl s = (Inr False, s)"

definition NullStore_Forever :: "instant \<Rightarrow> string \<Rightarrow> bytes \<Rightarrow> unit \<Rightarrow> unit go \<times> unit" where
  "NullStore_Forever now key value s = (Inr (), s)"

definition NullStore_Increment :: "instant \<Rightarrow> string \<Rightarrow> int \<Rightarrow> duration \<Rightarrow> unit \<Rightarrow> int go \<times> unit" where
  "NullStore_Increment now key delta ttl s = (Inr 0, s)"

definition NullStore_Decrement :: "instant \<Rightarrow> string \<Rightarrow> int \<Rightarrow> duration \<Rightarrow> unit \<Rightarrow> int go \<times> unit" where
  "NullStore_Decrement now key delta ttl s = (Inr 0, s)"

definition NullStore_Touch :: "instant \<Rightarrow> string \<Rightarrow> duration \<Rightarrow> unit \<Rightarrow> bool go \<times> unit" where
  "NullStore_Touch now key ttl s = (Inr False, s)"

definition NullStore_Forget :: "instant \<Rightarrow> string \<Rightarrow> unit \<Rightarrow> unit go \<times> unit" where
  "NullStore_Forget now key s = (Inr (), s)"

definition NullStore_Flush :: "instant \<Rightarrow> string \<Rightarrow> unit \<Rightarrow> unit go \<times> unit" where
  "NullStore_Flush now prefix s = (Inr (), s)"

definition NullStore_AcquireLock :: "instant \<Rightarrow> string \<Rightarrow> string \<Rightarrow> duration \<Rightarrow> unit \<Rightarrow> bool go \<times> unit" where
  "NullStore_AcquireLock now key token ttl s = (Inr True, s)"

definition NullStore_ReleaseLock :: "instant \<Rightarrow> string \<Rightarrow> string \<Rightarrow> unit \<Rightarrow> unit go \<times> unit" where
  "NullStore_ReleaseLock now key token s = (Inr (), s)"

definition NullStore_CurrentOwner :: "instant \<Rightarrow> string \<Rightarrow> unit \<Rightarrow> string go \<times> unit" where
  "NullStore_CurrentOwner now key s = (Inr [], s)"

definition null_ops :: "unit store" where
  "null_ops =
     \<lparr>Store_Get = NullStore_Get, Store_Put = NullStore_Put, Store_Add = NullStore_Add,
      Store_Forget = NullStore_Forget, Store_Increment = NullStore_Increment, Store_Flush = NullStore_Flush,
      as_Locking = Some \<lparr>AcquireLock = NullStore_AcquireLock, ReleaseLock = NullStore_ReleaseLock\<rparr>,
      as_CurrentOwner = Some NullStore_CurrentOwner, as_CanFlushLocks = None,
      as_Touch = Some NullStore_Touch, as_Many = Some NullStore_Many, as_PutMany = Some NullStore_PutMany\<rparr>"

section \<open>The laws\<close>

definition entry_pair :: "entry \<Rightarrow> bytes \<times> instant" where
  "entry_pair e = (e_value e, e_expires e)"

definition array_snap :: "array_store \<Rightarrow> snapshot" where
  "array_snap s k = map_option entry_pair (as_entries s k)"

definition array_lsnap :: "array_store \<Rightarrow> snapshot" where
  "array_lsnap s k = map_option entry_pair (as_locks s k)"

lemma live_result: "map_option entry_pair (fst (live now m k)) = live_at now (\<lambda>k. map_option entry_pair (m k)) k"
  by (auto simp: live_def live_at_def entry_pair_def split: option.splits)

lemma live_keeps: "now \<le> t \<Longrightarrow>
    live_at t (\<lambda>k. map_option entry_pair (snd (live now m k') k)) = live_at t (\<lambda>k. map_option entry_pair (m k))"
  by (rule ext) (auto simp: live_def live_at_def entry_pair_def split: option.splits)

lemma live_cases:
  obtains (free) m' where "live now m k = (None, m')" "live_at now (\<lambda>k. map_option entry_pair (m k)) k = None"
      "\<And>k'. k' \<noteq> k \<Longrightarrow> m' k' = m k'" "m' k = None"
  | (held) e where "live now m k = (Some e, m)" "m k = Some e" "now < e_expires e"
      "live_at now (\<lambda>k. map_option entry_pair (m k)) k = Some (e_value e, e_expires e)"
proof (cases "\<exists>e. m k = Some e \<and> now < e_expires e")
  case True
  then show ?thesis by (auto simp: live_def live_at_def entry_pair_def intro: held)
next
  case False
  show ?thesis
    by (rule free [of "m(k := None)"])
       (use False in \<open>auto simp: live_def live_at_def entry_pair_def fun_upd_idem split: option.splits\<close>)
qed

lemmas array_op_defs = ArrayStore_Get_def ArrayStore_Put_def ArrayStore_Add_def ArrayStore_Forget_def
  ArrayStore_Increment_def ArrayStore_Flush_def ArrayStore_AcquireLock_def ArrayStore_ReleaseLock_def

lemma array_snap_fun: "array_snap s = (\<lambda>k. map_option entry_pair (as_entries s k))"
  by (rule ext) (simp add: array_snap_def)

lemma array_lsnap_fun: "array_lsnap s = (\<lambda>k. map_option entry_pair (as_locks s k))"
  by (rule ext) (simp add: array_lsnap_def)

lemma live_at_agree: "m k = m' k \<Longrightarrow> live_at t m k = live_at t m' k"
  by (simp add: live_at_def)

lemma live_at_None_later: "now \<le> t \<Longrightarrow> live_at now m k = None \<Longrightarrow> live_at t m k = None"
  by (auto simp: live_at_def split: option.splits if_splits)

interpretation array: reading_contract array_ops "\<lambda>_. True" array_snap
proof (unfold_locales, goal_cases)
  case (1 s now k)
  show ?case
    by (cases rule: live_cases [of now "as_entries s" k])
       (simp_all add: array_ops_def ArrayStore_Get_def array_snap_fun)
next
  case (2 s now t k)
  then show ?case
    by (auto simp: array_ops_def ArrayStore_Get_def array_snap_fun live_keeps [of now t "as_entries s" k, symmetric]
        split: prod.split option.split)
next
  case (5 s now t k)
  show ?case by (rule ext) (simp add: array_ops_def ArrayStore_Forget_def array_snap_fun live_at_def)
next
  case (7 s now t p)
  show ?case by (rule ext) (simp add: array_ops_def ArrayStore_Flush_def array_snap_fun live_at_def)
qed (simp_all add: array_ops_def ArrayStore_Forget_def ArrayStore_Flush_def)

lemma array_live_upd:
  assumes "now \<le> t" "\<And>k'. k' \<noteq> k \<Longrightarrow> m' k' = m k'"
  shows "live_at t (\<lambda>k'. map_option entry_pair ((m'(k \<mapsto> e)) k')) =
    live_at t ((\<lambda>k'. map_option entry_pair (m k'))(k \<mapsto> (e_value e, e_expires e)))"
  using assms by (intro ext) (simp add: live_at_def entry_pair_def)

interpretation array: store_contract array_ops "\<lambda>_. True" array_snap
proof (unfold_locales, goal_cases)
  case (2 s ttl now t k v)
  then show ?case
    using array_live_upd [of now t k "as_entries s" "as_entries s" "newEntry now v ttl"]
    by (simp add: array_ops_def ArrayStore_Put_def array_snap_fun newEntry_def)
next
  case (5 s ttl now k v)
  then show ?case
    by (cases rule: live_cases [of now "as_entries s" k])
       (simp_all add: array_ops_def ArrayStore_Add_def array_snap_fun)
next
  case (6 s ttl now t k v)
  then show ?case
  proof (cases rule: live_cases [of now "as_entries s" k])
    case (free m')
    with 6 show ?thesis
      using array_live_upd [of now t k m' "as_entries s" "newEntry now v ttl"]
      by (simp add: array_ops_def ArrayStore_Add_def array_snap_fun newEntry_def)
  qed (simp_all add: array_ops_def ArrayStore_Add_def array_snap_fun)
next
  case (8 s ttl now k d)
  then show ?case
    by (cases rule: live_cases [of now "as_entries s" k])
       (simp_all add: array_ops_def ArrayStore_Increment_def array_snap_fun counter_of_def Let_def split: option.split)
next
  case (9 s ttl now t k d)
  then show ?case
  proof (cases rule: live_cases [of now "as_entries s" k])
    case (free m')
    with 9 show ?thesis
      using array_live_upd [of now t k m' "as_entries s" "\<lparr>e_value = format_int (wrap64 d), e_expires = now + ttl\<rparr>"]
      by (simp add: array_ops_def ArrayStore_Increment_def array_snap_fun counter_of_def deadline_of_def Let_def)
  next
    case (held e)
    with 9 show ?thesis
      using array_live_upd [of now t k "as_entries s" "as_entries s"]
      by (simp add: array_ops_def ArrayStore_Increment_def array_snap_fun counter_of_def deadline_of_def Let_def
          split: option.split)
  qed
qed (simp_all add: array_ops_def ArrayStore_Put_def ArrayStore_Add_def ArrayStore_Increment_def)

interpretation array: touch_contract array_ops "\<lambda>_. True" array_snap
proof (unfold_locales, goal_cases)
  case (1 touch s ttl now k)
  then show ?case
    by (cases rule: live_cases [of now "as_entries s" k])
       (auto simp: array_ops_def ArrayStore_Touch_def array_snap_fun)
next
  case (2 touch s ttl now t k)
  show ?case
  proof (cases rule: live_cases [of now "as_entries s" k])
    case (free m')
    with 2 show ?thesis
      using live_keeps [of now t "as_entries s" k]
      by (auto simp: array_ops_def ArrayStore_Touch_def array_snap_fun)
  next
    case (held e)
    with 2 show ?thesis
      using array_live_upd [of now t k "as_entries s" "as_entries s" "e\<lparr>e_expires := now + ttl\<rparr>"]
      by (auto simp: array_ops_def ArrayStore_Touch_def array_snap_fun)
  qed
qed simp

lemma many_loop_result:
  "fst (many_loop now ks out es) = (\<lambda>k. if k \<in> set ks
     then Some (map_option fst (live_at now (\<lambda>k. map_option entry_pair (es k)) k)) else out k)"
proof (induction ks arbitrary: out es)
  case (Cons key ks)
  show ?case
  proof (cases rule: live_cases [of now es key])
    case (free m')
    have "live_at now (\<lambda>k. map_option entry_pair (m' k)) = live_at now (\<lambda>k. map_option entry_pair (es k))"
      using live_keeps [of now now es key] free(1) by simp
    with free Cons.IH show ?thesis by auto
  next
    case (held e)
    with Cons.IH show ?thesis by auto
  qed
qed simp

lemma many_loop_keeps: "now \<le> t \<Longrightarrow>
    live_at t (\<lambda>k. map_option entry_pair (snd (many_loop now ks out es) k)) = live_at t (\<lambda>k. map_option entry_pair (es k))"
proof (induction ks arbitrary: out es)
  case (Cons key ks)
  have "live_at t (\<lambda>k. map_option entry_pair (snd (live now es key) k)) = live_at t (\<lambda>k. map_option entry_pair (es k))"
    using Cons.prems by (rule live_keeps)
  with Cons show ?case by (cases "live now es key") (simp split: option.split)
qed simp

lemma putmany_loop_snap:
  "(\<lambda>k. map_option entry_pair (putmany_loop now kvs ttl es k)) =
     written kvs (now + ttl) (\<lambda>k. map_option entry_pair (es k))"
proof (induction kvs arbitrary: es)
  case (Cons kv kvs)
  obtain k v where kv: "kv = (k, v)" by (cases kv)
  have "(\<lambda>k'. map_option entry_pair ((es(k \<mapsto> newEntry now v ttl)) k')) =
      (\<lambda>k. map_option entry_pair (es k))(k \<mapsto> (v, now + ttl))"
    by (rule ext) (simp add: newEntry_def entry_pair_def)
  with Cons show ?case by (simp add: kv written_def)
qed (simp add: written_def)

interpretation array: batch_contract array_ops "\<lambda>_. True" array_snap
proof (unfold_locales, goal_cases)
  case (1 many s now ks)
  then show ?case
    using many_loop_result [of now ks Map.empty "as_entries s"]
    by (cases "many_loop now ks Map.empty (as_entries s)") (auto simp: array_ops_def ArrayStore_Many_def array_snap_fun)
next
  case (2 many s now t ks)
  then show ?case
    using many_loop_keeps [of now t ks Map.empty "as_entries s"]
    by (auto simp: array_ops_def ArrayStore_Many_def array_snap_fun split: prod.split)
next
  case (6 put_many s ttl now t kvs)
  then show ?case
    by (auto simp: array_ops_def ArrayStore_PutMany_def array_snap_fun putmany_loop_snap)
qed (auto simp: array_ops_def ArrayStore_PutMany_def ArrayStore_Touch_def)

interpretation array: lock_contract array_locking "\<lambda>_. True" array_lsnap
proof (unfold_locales, goal_cases)
  case (1 s ttl now k tok)
  then show ?case
    by (cases rule: live_cases [of now "as_locks s" k])
       (simp_all add: array_locking_def ArrayStore_AcquireLock_def array_lsnap_fun)
next
  case (2 s ttl now t k tok)
  then show ?case
  proof (cases rule: live_cases [of now "as_locks s" k])
    case (free m')
    with 2 show ?thesis
      using array_live_upd [of now t k m' "as_locks s" "newEntry now tok ttl"]
      by (simp add: array_locking_def ArrayStore_AcquireLock_def array_lsnap_fun newEntry_def)
  qed (simp_all add: array_locking_def ArrayStore_AcquireLock_def array_lsnap_fun)
next
  case (5 s now k tok)
  show ?case by (auto simp: array_locking_def ArrayStore_ReleaseLock_def split: prod.split option.split)
next
  case (6 s now t k tok)
  show ?case
  proof (cases rule: live_cases [of now "as_locks s" k])
    case (free m')
    then show ?thesis
      using live_keeps [OF 6(2), of "as_locks s" k]
      by (simp add: array_locking_def ArrayStore_ReleaseLock_def array_lsnap_fun)
  next
    case (held e)
    then show ?thesis
      by (auto simp: array_locking_def ArrayStore_ReleaseLock_def array_lsnap_fun live_at_def)
  qed
qed (simp_all add: array_locking_def ArrayStore_AcquireLock_def)

interpretation array: separate_lock_store array_ops "\<lambda>_. True" array_snap array_locking array_lsnap
  by unfold_locales
     (auto simp: array_ops_def array_locking_def array_op_defs array_snap_def array_lsnap_def Let_def
       split: option.split prod.split)

lemma CurrentOwner_result: "fst (ArrayStore_CurrentOwner now k s) =
    Inr (case live_at now (array_lsnap s) k of None \<Rightarrow> [] | Some (tok, _) \<Rightarrow> tok)"
  by (auto simp: ArrayStore_CurrentOwner_def array_lsnap_fun live_def live_at_def entry_pair_def
    split: option.splits)

text \<open>The null store is a store on the reading side: every read misses, before and after any
  removal. It makes none of the promises of the writing half.\<close>

interpretation null: reading_contract null_ops "\<lambda>_. True" "\<lambda>_. Map.empty"
  by unfold_locales
     (simp_all add: null_ops_def NullStore_Get_def NullStore_Forget_def NullStore_Flush_def live_at_def fun_eq_iff)

end
