(* ===== verification/Cache_Lock.thy ===== *)
theory Cache_Lock
  imports Array_Store
begin

text \<open>
  Distributed locks, \<^verbatim>\<open>cache/lock.go\<close>: the handle, taking and giving back, waiting for a lock with
  a deadline, and the asking functions. A handle works over any \<^verbatim>\<open>Locking\<close>; the random bytes of
  \<^verbatim>\<open>crypto/rand\<close>, the callback and what other processes do while \<^verbatim>\<open>Block\<close> sleeps are
  arguments. The protocol of several handles over one store is the step relation \<open>lock_step\<close>.
\<close>

section \<open>Handles\<close>

record lock =
  lk_name :: string
  lk_ttl :: duration
  lk_owner :: string
  lk_held :: bool
  lk_sleep :: duration

definition defaultSleepBetweenBlockedAttempts :: duration where
  "defaultSleepBetweenBlockedAttempts = 250000000"

definition Locks_Lock :: "string \<Rightarrow> duration \<Rightarrow> lock" where
  "Locks_Lock name ttl = \<lparr>lk_name = name, lk_ttl = ttl, lk_owner = [], lk_held = False, lk_sleep = 0\<rparr>"

definition Locks_RestoreLock :: "string \<Rightarrow> string \<Rightarrow> lock" where
  "Locks_RestoreLock name owner = \<lparr>lk_name = name, lk_ttl = 0, lk_owner = owner, lk_held = True, lk_sleep = 0\<rparr>"

text \<open>\<^verbatim>\<open>ArrayStore.Lock\<close> and \<^verbatim>\<open>NullStore.Lock\<close> build the same handle.\<close>

definition ArrayStore_Lock :: "string \<Rightarrow> duration \<Rightarrow> string \<Rightarrow> lock" where
  "ArrayStore_Lock name ttl owner =
     \<lparr>lk_name = name, lk_ttl = ttl, lk_owner = owner, lk_held = (owner \<noteq> []), lk_sleep = 0\<rparr>"

definition ArrayStore_RestoreLock :: "string \<Rightarrow> string \<Rightarrow> lock" where
  "ArrayStore_RestoreLock name owner = ArrayStore_Lock name 0 owner"

definition lockKey :: "string \<Rightarrow> string" where
  "lockKey name = ''lock:'' @ name"

definition newLockOwner :: "bytes option \<Rightarrow> string go" where
  "newLockOwner rnd = (case rnd of None \<Rightarrow> Inl NoRandomness | Some b \<Rightarrow> Inr (hex_encode b))"

definition isLocked :: "cache_error \<Rightarrow> bool" where
  "isLocked err \<longleftrightarrow> err = ErrLocked"

definition Lock_Acquire :: "'s locking \<Rightarrow> bytes option \<Rightarrow> instant \<Rightarrow> lock \<Rightarrow> 's \<Rightarrow> unit go \<times> lock \<times> 's" where
  "Lock_Acquire L rnd now lk s =
     (if lk_ttl lk \<le> 0 then (Inl (LockWithoutTTL (lk_name lk)), lk, s)
      else if lk_name lk = [] then (Inl LockWithoutName, lk, s)
      else case newLockOwner rnd of
        Inl err \<Rightarrow> (Inl err, lk, s)
      | Inr owner \<Rightarrow>
          (case AcquireLock L now (lockKey (lk_name lk)) owner (lk_ttl lk) s of
             (Inl err, s') \<Rightarrow> (Inl err, lk, s')
           | (Inr ok, s') \<Rightarrow>
               if \<not> ok then (Inl ErrLocked, lk, s')
               else (Inr (), lk\<lparr>lk_owner := owner, lk_held := True\<rparr>, s')))"

definition Lock_Release :: "'s locking \<Rightarrow> instant \<Rightarrow> lock \<Rightarrow> 's \<Rightarrow> unit go \<times> lock \<times> 's" where
  "Lock_Release L now lk s =
     (if lk_owner lk = [] then (Inr (), lk, s)
      else case ReleaseLock L now (lockKey (lk_name lk)) (lk_owner lk) s of
        (r, s') \<Rightarrow> (r, lk\<lparr>lk_owner := [], lk_held := False\<rparr>, s'))"

definition Lock_ForceRelease ::
  "'s locking \<Rightarrow> (instant \<Rightarrow> string \<Rightarrow> 's \<Rightarrow> string go \<times> 's) option \<Rightarrow> instant \<Rightarrow> lock \<Rightarrow> 's \<Rightarrow> unit go \<times> lock \<times> 's" where
  "Lock_ForceRelease L reader now lk s =
     (let lk' = lk\<lparr>lk_owner := [], lk_held := False\<rparr>
      in case reader of
           None \<Rightarrow> (Inl (Unsupported ''releasing a lock held by somebody else''), lk', s)
         | Some current \<Rightarrow>
             (case current now (lockKey (lk_name lk)) s of
                (Inl err, s') \<Rightarrow> (Inl err, lk', s')
              | (Inr owner, s') \<Rightarrow>
                  if owner = [] then (Inr (), lk', s')
                  else case ReleaseLock L now (lockKey (lk_name lk)) owner s' of (r, s'') \<Rightarrow> (r, lk', s'')))"

text \<open>The callback and the deferred release behind it, at the instant \<open>done\<close>. The error of the
  release is dropped, as the source drops it.\<close>

definition run_then_release ::
  "'s locking \<Rightarrow> ('s \<Rightarrow> unit go \<times> 's) \<Rightarrow> instant \<Rightarrow> lock \<Rightarrow> 's \<Rightarrow> unit go \<times> lock \<times> 's" where
  "run_then_release L fn finish lk s =
     (case fn s of (r, s') \<Rightarrow> case Lock_Release L finish lk s' of (_, lk', s'') \<Rightarrow> (r, lk', s''))"

definition Lock_Get ::
  "'s locking \<Rightarrow> bytes option \<Rightarrow> instant \<Rightarrow> instant \<Rightarrow> ('s \<Rightarrow> unit go \<times> 's) option \<Rightarrow> lock \<Rightarrow> 's \<Rightarrow>
   bool \<times> unit go \<times> lock \<times> 's" where
  "Lock_Get L rnd now finish fn lk s =
     (case Lock_Acquire L rnd now lk s of
        (Inl err, lk', s') \<Rightarrow> if isLocked err then (False, Inr (), lk', s') else (False, Inl err, lk', s')
      | (Inr _, lk', s') \<Rightarrow>
          (case fn of
             None \<Rightarrow> (True, Inr (), lk', s')
           | Some f \<Rightarrow> (True, run_then_release L f finish lk' s')))"

definition Lock_Run ::
  "'s locking \<Rightarrow> bytes option \<Rightarrow> instant \<Rightarrow> instant \<Rightarrow> ('s \<Rightarrow> unit go \<times> 's) \<Rightarrow> lock \<Rightarrow> 's \<Rightarrow> unit go \<times> lock \<times> 's" where
  "Lock_Run L rnd now finish fn lk s =
     (case Lock_Acquire L rnd now lk s of
        (Inl err, lk', s') \<Rightarrow> (Inl err, lk', s')
      | (Inr _, lk', s') \<Rightarrow> run_then_release L fn finish lk' s')"

section \<open>Waiting for a lock\<close>

definition block_sleep :: "lock \<Rightarrow> duration" where
  "block_sleep lk = (if lk_sleep lk \<le> 0 then defaultSleepBetweenBlockedAttempts else lk_sleep lk)"

lemma block_sleep_pos: "0 < block_sleep lk"
  by (simp add: block_sleep_def defaultSleepBetweenBlockedAttempts_def)

text \<open>What one wait meets, by attempt: the random bytes drawn, how late its timer fires (in
  nanoseconds), whether the context is cancelled in the sleep after it, and what the other
  processes do to the store meanwhile.\<close>

record 's surroundings =
  w_rand :: "nat \<Rightarrow> bytes option"
  w_late :: "nat \<Rightarrow> nat"
  w_cancelled :: "nat \<Rightarrow> bool"
  w_others :: "nat \<Rightarrow> 's \<Rightarrow> 's"

function block_loop ::
  "'s locking \<Rightarrow> 's surroundings \<Rightarrow> duration \<Rightarrow> instant \<Rightarrow> nat \<Rightarrow> instant \<Rightarrow> lock \<Rightarrow> 's \<Rightarrow> unit go \<times> instant \<times> lock \<times> 's" where
  "block_loop L w wait deadline i now lk s =
     (case Lock_Acquire L (w_rand w i) now lk s of
        (Inr _, lk', s') \<Rightarrow> (Inr (), now, lk', s')
      | (Inl err, lk', s') \<Rightarrow>
          if isLocked err
          then if now + block_sleep lk > deadline then (Inl (LockStillHeld (lk_name lk) wait), now, lk', s')
               else if w_cancelled w i then (Inl ContextDone, now, lk', s')
               else block_loop L w wait deadline (Suc i) (now + block_sleep lk + int (w_late w i)) lk (w_others w i s')
          else (Inl err, now, lk', s'))"
  by pat_completeness auto
termination
proof (relation "measure (\<lambda>(L, w, wait, deadline, i, now, lk, s). nat (deadline - now))", goal_cases)
  case (2 L w wait deadline i now lk s)
  then have "now + block_sleep lk \<le> deadline" by simp
  then show ?case using block_sleep_pos [of lk] unfolding in_measure prod.case by linarith
qed simp

declare block_loop.simps [simp del]

definition Lock_Block ::
  "'s locking \<Rightarrow> 's surroundings \<Rightarrow> instant \<Rightarrow> duration \<Rightarrow> instant \<Rightarrow> ('s \<Rightarrow> unit go \<times> 's) option \<Rightarrow> lock \<Rightarrow> 's \<Rightarrow>
   unit go \<times> lock \<times> 's" where
  "Lock_Block L w now wait finish fn lk s =
     (case block_loop L w wait (now + wait) 0 now lk s of
        (Inl err, _, lk', s') \<Rightarrow> (Inl err, lk', s')
      | (Inr _, _, lk', s') \<Rightarrow>
          (case fn of None \<Rightarrow> (Inr (), lk', s') | Some f \<Rightarrow> run_then_release L f finish lk' s'))"

section \<open>Asking\<close>

definition Lock_Owner :: "lock \<Rightarrow> string" where
  "Lock_Owner lk = lk_owner lk"

definition Lock_IsOwnedBy ::
  "(instant \<Rightarrow> string \<Rightarrow> 's \<Rightarrow> string go \<times> 's) option \<Rightarrow> instant \<Rightarrow> lock \<Rightarrow> string \<Rightarrow> 's \<Rightarrow> bool go \<times> 's" where
  "Lock_IsOwnedBy reader now lk owner s =
     (case reader of
        None \<Rightarrow> (Inl (Unsupported ''reading a lock's owner''), s)
      | Some get_owner \<Rightarrow>
          (case get_owner now (lockKey (lk_name lk)) s of
             (Inl err, s') \<Rightarrow> (Inl err, s')
           | (Inr current, s') \<Rightarrow> (Inr (current \<noteq> [] \<and> current = owner), s')))"

definition Lock_IsOwnedByCurrentProcess ::
  "(instant \<Rightarrow> string \<Rightarrow> 's \<Rightarrow> string go \<times> 's) option \<Rightarrow> instant \<Rightarrow> lock \<Rightarrow> 's \<Rightarrow> bool go \<times> 's" where
  "Lock_IsOwnedByCurrentProcess reader now lk s = Lock_IsOwnedBy reader now lk (lk_owner lk) s"

definition Lock_BetweenBlockedAttemptsSleepFor :: "duration \<Rightarrow> lock \<Rightarrow> lock" where
  "Lock_BetweenBlockedAttemptsSleepFor d lk = lk\<lparr>lk_sleep := d\<rparr>"

definition Lock_Held :: "lock \<Rightarrow> bool" where
  "Lock_Held lk = lk_held lk"

definition Lock_Name :: "lock \<Rightarrow> string" where
  "Lock_Name lk = lk_name lk"

section \<open>Several handles over one store\<close>

text \<open>Handles are numbered. \<open>ls_lease\<close> is when the last lease of a handle ends and \<open>ls_drawn\<close> the
  tokens drawn so far; no program reads either. Sixteen random bytes are taken never to repeat.
  \<open>other\<close> is whatever else happens to the store between two steps.\<close>

record 's lock_system =
  ls_now :: instant
  ls_store :: 's
  ls_handle :: "nat \<Rightarrow> lock"
  ls_lease :: "nat \<Rightarrow> instant"
  ls_drawn :: "string set"

inductive lock_step :: "'s locking \<Rightarrow> ('s \<Rightarrow> 's \<Rightarrow> bool) \<Rightarrow> 's lock_system \<Rightarrow> 's lock_system \<Rightarrow> bool"
  for L other where
  step_tick: "ls_now S \<le> t \<Longrightarrow> lock_step L other S (S\<lparr>ls_now := t\<rparr>)"
| step_other: "other (ls_store S) s' \<Longrightarrow> lock_step L other S (S\<lparr>ls_store := s'\<rparr>)"
| step_acquire: "length b = 16 \<Longrightarrow> hex_encode b \<notin> ls_drawn S \<Longrightarrow>
    Lock_Acquire L (Some b) (ls_now S) (ls_handle S i) (ls_store S) = (r, lk', s') \<Longrightarrow>
    lock_step L other S
      (S\<lparr>ls_store := s', ls_handle := (ls_handle S)(i := lk'),
         ls_lease := (if r = Inr () then (ls_lease S)(i := ls_now S + lk_ttl lk') else ls_lease S),
         ls_drawn := insert (hex_encode b) (ls_drawn S)\<rparr>)"
| step_release: "Lock_Release L (ls_now S) (ls_handle S i) (ls_store S) = (r, lk', s') \<Longrightarrow>
    lock_step L other S (S\<lparr>ls_store := s', ls_handle := (ls_handle S)(i := lk')\<rparr>)"

inductive lock_reach ::
  "'s locking \<Rightarrow> ('s \<Rightarrow> 's \<Rightarrow> bool) \<Rightarrow> instant \<Rightarrow> 's \<Rightarrow> (nat \<Rightarrow> string \<times> duration) \<Rightarrow> 's lock_system \<Rightarrow> bool"
  for L other now s named where
  reach_start: "lock_reach L other now s named
    \<lparr>ls_now = now, ls_store = s, ls_handle = (\<lambda>i. case named i of (n, ttl) \<Rightarrow> Locks_Lock n ttl),
     ls_lease = (\<lambda>_. now), ls_drawn = {}\<rparr>"
| reach_step: "lock_reach L other now s named S \<Longrightarrow> lock_step L other S T \<Longrightarrow> lock_reach L other now s named T"

text \<open>A handle that took the lock, has not given it back and whose time to live has not run out.\<close>

definition leased :: "'s lock_system \<Rightarrow> nat \<Rightarrow> bool" where
  "leased S i \<longleftrightarrow> lk_owner (ls_handle S i) \<noteq> [] \<and> ls_now S < ls_lease S i"

text \<open>Everything the rest of the application may do to an \<^verbatim>\<open>ArrayStore\<close> through the \<^verbatim>\<open>Store\<close>
  interface.\<close>

inductive array_entry_step :: "array_store \<Rightarrow> array_store \<Rightarrow> bool" where
  "array_entry_step s (snd (ArrayStore_Get now k s))"
| "array_entry_step s (snd (ArrayStore_Put now k v ttl s))"
| "array_entry_step s (snd (ArrayStore_Add now k v ttl s))"
| "array_entry_step s (snd (ArrayStore_Forget now k s))"
| "array_entry_step s (snd (ArrayStore_Increment now k d ttl s))"
| "array_entry_step s (snd (ArrayStore_Flush now p s))"
| "array_entry_step s (snd (ArrayStore_Touch now k ttl s))"
| "array_entry_step s (snd (ArrayStore_Many now ks s))"
| "array_entry_step s (snd (ArrayStore_PutMany now vs ttl s))"

section \<open>Lemmas\<close>

text \<open>The ways \<^verbatim>\<open>Acquire\<close> can end.\<close>

lemma Lock_Acquire_name [simp]:
  "lk_name (fst (snd (Lock_Acquire L rnd now lk s))) = lk_name lk"
  "lk_ttl (fst (snd (Lock_Acquire L rnd now lk s))) = lk_ttl lk"
  "lk_sleep (fst (snd (Lock_Acquire L rnd now lk s))) = lk_sleep lk"
  by (auto simp: Lock_Acquire_def split: sum.splits prod.splits)

context lock_contract
begin

lemma acquire_cases [consumes 1, case_names refused held taken]:
  assumes "linvar s"
  obtains (refused) e where "Lock_Acquire L rnd now lk s = (Inl e, lk, s)" "e \<noteq> ErrLocked"
      "lk_ttl lk \<le> 0 \<or> lk_name lk = [] \<or> rnd = None"
  | (held) b s' where "Lock_Acquire L rnd now lk s = (Inl ErrLocked, lk, s')" "rnd = Some b"
      "0 < lk_ttl lk" "lk_name lk \<noteq> []"
      "live_at now (lsnap s) (lockKey (lk_name lk)) \<noteq> None"
      "\<And>t. now \<le> t \<Longrightarrow> live_at t (lsnap s') = live_at t (lsnap s)" "linvar s'"
  | (taken) b s' where
      "Lock_Acquire L rnd now lk s = (Inr (), lk\<lparr>lk_owner := hex_encode b, lk_held := True\<rparr>, s')"
      "rnd = Some b" "0 < lk_ttl lk" "lk_name lk \<noteq> []"
      "live_at now (lsnap s) (lockKey (lk_name lk)) = None"
      "\<And>t. now \<le> t \<Longrightarrow> live_at t (lsnap s') =
         live_at t ((lsnap s)(lockKey (lk_name lk) \<mapsto> (hex_encode b, now + lk_ttl lk)))" "linvar s'"
proof (cases "lk_ttl lk \<le> 0 \<or> lk_name lk = [] \<or> rnd = None")
  case True
  then have "\<exists>e. Lock_Acquire L rnd now lk s = (Inl e, lk, s) \<and> e \<noteq> ErrLocked"
    by (auto simp: Lock_Acquire_def newLockOwner_def split: option.splits)
  with True show ?thesis using refused by blast
next
  case False
  then obtain b where b: "rnd = Some b" "0 < lk_ttl lk" "lk_name lk \<noteq> []" by force
  let ?r = "AcquireLock L now (lockKey (lk_name lk)) (hex_encode b) (lk_ttl lk) s"
  have r: "fst ?r = Inr (live_at now (lsnap s) (lockKey (lk_name lk)) = None)"
    using assms b by (simp add: acquire_result)
  obtain s' where s': "?r = (Inr (live_at now (lsnap s) (lockKey (lk_name lk)) = None), s')"
    using r by (cases ?r) simp
  have inv: "linvar s'" using acquire_invar [OF assms] s' by (metis snd_conv)
  have snap: "\<And>t. now \<le> t \<Longrightarrow> live_at t (lsnap s') = (if live_at now (lsnap s) (lockKey (lk_name lk)) = None
      then live_at t ((lsnap s)(lockKey (lk_name lk) \<mapsto> (hex_encode b, now + lk_ttl lk))) else live_at t (lsnap s))"
    using acquire_snap [OF assms b(2)] s' by (metis snd_conv)
  show ?thesis
  proof (cases "live_at now (lsnap s) (lockKey (lk_name lk)) = None")
    case True
    with b s' snap inv show ?thesis
      by (intro taken [of b s']) (auto simp: Lock_Acquire_def newLockOwner_def)
  next
    case False
    with b s' snap inv show ?thesis
      by (intro held [of s' b]) (auto simp: Lock_Acquire_def newLockOwner_def)
  qed
qed

lemma release_cases [consumes 1, case_names nothing released]:
  assumes "linvar s"
  obtains (nothing) "lk_owner lk = []" "Lock_Release L now lk s = (Inr (), lk, s)"
  | (released) s' where "lk_owner lk \<noteq> []"
      "Lock_Release L now lk s = (Inr (), lk\<lparr>lk_owner := [], lk_held := False\<rparr>, s')" "linvar s'"
      "\<And>t. now \<le> t \<Longrightarrow> live_at t (lsnap s') =
         (if holder now (lockKey (lk_name lk)) s = Some (lk_owner lk)
          then (live_at t (lsnap s))(lockKey (lk_name lk) := None) else live_at t (lsnap s))"
proof (cases "lk_owner lk = []")
  case True
  moreover from True have "Lock_Release L now lk s = (Inr (), lk, s)" by (simp add: Lock_Release_def)
  ultimately show ?thesis by (rule nothing)
next
  case False
  let ?r = "ReleaseLock L now (lockKey (lk_name lk)) (lk_owner lk) s"
  obtain s' where s': "?r = (Inr (), s')"
    using release_result [OF assms] by (metis prod.collapse)
  show ?thesis
    using False s' release_invar [OF assms] release_snap [OF assms]
    by (intro released [of s']) (auto simp: Lock_Release_def holder_def, (metis snd_conv)+)
qed

text \<open>The invariant of the protocol.\<close>

definition protocol_inv :: "'s lock_system \<Rightarrow> bool" where
  "protocol_inv S \<longleftrightarrow> linvar (ls_store S) \<and>
     (\<forall>i. lk_owner (ls_handle S i) \<noteq> [] \<longrightarrow> lk_owner (ls_handle S i) \<in> ls_drawn S) \<and>
     (\<forall>i j. lk_owner (ls_handle S i) \<noteq> [] \<longrightarrow> lk_owner (ls_handle S i) = lk_owner (ls_handle S j) \<longrightarrow> i = j) \<and>
     (\<forall>i. leased S i \<longrightarrow> live_at (ls_now S) (lsnap (ls_store S)) (lockKey (lk_name (ls_handle S i))) =
        Some (lk_owner (ls_handle S i), ls_lease S i))"

lemma protocol_invI:
  assumes "linvar (ls_store S)"
    and "\<And>i. lk_owner (ls_handle S i) \<noteq> [] \<Longrightarrow> lk_owner (ls_handle S i) \<in> ls_drawn S"
    and "\<And>i j. lk_owner (ls_handle S i) \<noteq> [] \<Longrightarrow> lk_owner (ls_handle S i) = lk_owner (ls_handle S j) \<Longrightarrow> i = j"
    and "\<And>i. leased S i \<Longrightarrow> live_at (ls_now S) (lsnap (ls_store S)) (lockKey (lk_name (ls_handle S i))) =
        Some (lk_owner (ls_handle S i), ls_lease S i)"
  shows "protocol_inv S"
  unfolding protocol_inv_def using assms by blast

lemma protocol_invD:
  assumes "protocol_inv S"
  shows protocol_linvar: "linvar (ls_store S)"
    and protocol_drawn: "lk_owner (ls_handle S i) \<noteq> [] \<Longrightarrow> lk_owner (ls_handle S i) \<in> ls_drawn S"
    and protocol_unique: "lk_owner (ls_handle S i) \<noteq> [] \<Longrightarrow> lk_owner (ls_handle S i) = lk_owner (ls_handle S j) \<Longrightarrow> i = j"
    and protocol_lease: "leased S i \<Longrightarrow> live_at (ls_now S) (lsnap (ls_store S)) (lockKey (lk_name (ls_handle S i))) =
        Some (lk_owner (ls_handle S i), ls_lease S i)"
  using assms unfolding protocol_inv_def by blast+

lemma protocol_inv_same:
  assumes inv: "protocol_inv S" and "linvar (ls_store T)" "ls_now T = ls_now S" "ls_handle T = ls_handle S"
    and "ls_lease T = ls_lease S" "ls_drawn S \<subseteq> ls_drawn T"
    and "live_at (ls_now S) (lsnap (ls_store T)) = live_at (ls_now S) (lsnap (ls_store S))"
  shows "protocol_inv T"
proof (rule protocol_invI)
  fix i assume "leased T i"
  then show "live_at (ls_now T) (lsnap (ls_store T)) (lockKey (lk_name (ls_handle T i))) =
      Some (lk_owner (ls_handle T i), ls_lease T i)"
    using assms protocol_lease [OF inv, of i] by (simp add: leased_def)
qed (use assms protocol_invD [OF inv] in auto)

lemma protocol_inv_acquire:
  assumes inv: "protocol_inv S" and b: "length b = 16" "hex_encode b \<notin> ls_drawn S"
    and acq: "Lock_Acquire L (Some b) (ls_now S) (ls_handle S i) (ls_store S) = (r, lk', s')"
  shows "protocol_inv (S\<lparr>ls_store := s', ls_handle := (ls_handle S)(i := lk'),
      ls_lease := (if r = Inr () then (ls_lease S)(i := ls_now S + lk_ttl lk') else ls_lease S),
      ls_drawn := insert (hex_encode b) (ls_drawn S)\<rparr>)" (is "protocol_inv ?T")
  using protocol_linvar [OF inv]
proof (cases rule: acquire_cases [where rnd = "Some b" and now = "ls_now S" and lk = "ls_handle S i"])
  case (refused e)
  with acq have "lk' = ls_handle S i" "r = Inl e" "s' = ls_store S" by auto
  with protocol_linvar [OF inv] show ?thesis by (auto intro!: protocol_inv_same [OF inv])
next
  case (held b' s'')
  with acq have "lk' = ls_handle S i" "r = Inl ErrLocked" "s'' = s'" by auto
  with held(6) [of "ls_now S"] held(7) show ?thesis by (auto intro: protocol_inv_same [OF inv])
next
  case (taken b' s'')
  with acq have eq: "b' = b" "r = Inr ()" "s'' = s'"
      "lk' = (ls_handle S i)\<lparr>lk_owner := hex_encode b, lk_held := True\<rparr>" by auto
  have fresh: "lk_owner (ls_handle S j) \<noteq> hex_encode b" for j
    using protocol_drawn [OF inv, of j] b by (cases b) auto
  show ?thesis
  proof (rule protocol_invI)
    show "linvar (ls_store ?T)" using taken(7) eq by simp
  next
    fix j assume "lk_owner (ls_handle ?T j) \<noteq> []"
    then show "lk_owner (ls_handle ?T j) \<in> ls_drawn ?T"
      using protocol_drawn [OF inv, of j] eq by (simp split: if_splits)
  next
    fix j k assume "lk_owner (ls_handle ?T j) \<noteq> []" "lk_owner (ls_handle ?T j) = lk_owner (ls_handle ?T k)"
    then show "j = k"
      using protocol_unique [OF inv, of j k] eq fresh [of j] fresh [of k] by (simp split: if_splits)
  next
    fix j assume l: "leased ?T j"
    have snap: "live_at (ls_now S) (lsnap s') = live_at (ls_now S)
        ((lsnap (ls_store S))(lockKey (lk_name (ls_handle S i)) \<mapsto> (hex_encode b, ls_now S + lk_ttl (ls_handle S i))))"
      using taken(6) [of "ls_now S"] eq by simp
    show "live_at (ls_now ?T) (lsnap (ls_store ?T)) (lockKey (lk_name (ls_handle ?T j))) =
        Some (lk_owner (ls_handle ?T j), ls_lease ?T j)"
    proof (cases "j = i")
      case True
      with snap eq taken(3) show ?thesis by (simp add: live_at_upd)
    next
      case False
      with l have lj: "live_at (ls_now S) (lsnap (ls_store S)) (lockKey (lk_name (ls_handle S j))) =
          Some (lk_owner (ls_handle S j), ls_lease S j)"
        using protocol_lease [OF inv, of j] eq by (simp add: leased_def)
      then have "lockKey (lk_name (ls_handle S j)) \<noteq> lockKey (lk_name (ls_handle S i))"
        using taken(5) by (metis option.distinct(1))
      with False lj snap eq show ?thesis by (simp add: live_at_upd)
    qed
  qed
qed

lemma protocol_inv_release:
  assumes inv: "protocol_inv S"
    and rel: "Lock_Release L (ls_now S) (ls_handle S i) (ls_store S) = (r, lk', s')"
  shows "protocol_inv (S\<lparr>ls_store := s', ls_handle := (ls_handle S)(i := lk')\<rparr>)" (is "protocol_inv ?T")
  using protocol_linvar [OF inv]
proof (cases rule: release_cases [where now = "ls_now S" and lk = "ls_handle S i"])
  case nothing
  with rel inv show ?thesis by (auto intro: protocol_inv_same [OF inv] dest: protocol_linvar)
next
  case (released s'')
  with rel have eq: "lk' = (ls_handle S i)\<lparr>lk_owner := [], lk_held := False\<rparr>" "s'' = s'" by auto
  show ?thesis
  proof (rule protocol_invI)
    show "linvar (ls_store ?T)" using released(3) eq by simp
  next
    fix j assume "lk_owner (ls_handle ?T j) \<noteq> []"
    then show "lk_owner (ls_handle ?T j) \<in> ls_drawn ?T"
      using protocol_drawn [OF inv, of j] eq by (simp split: if_splits)
  next
    fix j k assume "lk_owner (ls_handle ?T j) \<noteq> []" "lk_owner (ls_handle ?T j) = lk_owner (ls_handle ?T k)"
    then show "j = k" using protocol_unique [OF inv, of j k] eq by (simp split: if_splits)
  next
    fix j assume l: "leased ?T j"
    with eq have ji: "j \<noteq> i" "leased S j" by (auto simp: leased_def split: if_splits)
    note lj = protocol_lease [OF inv ji(2)]
    have "lk_owner (ls_handle S j) \<noteq> lk_owner (ls_handle S i)"
      using protocol_unique [OF inv, of j i] ji by (auto simp: leased_def)
    with lj have "holder (ls_now S) (lockKey (lk_name (ls_handle S i))) (ls_store S) = Some (lk_owner (ls_handle S i)) \<Longrightarrow>
        lockKey (lk_name (ls_handle S j)) \<noteq> lockKey (lk_name (ls_handle S i))"
      by (auto simp: holder_def)
    with lj ji released(4) [of "ls_now S"] eq
    show "live_at (ls_now ?T) (lsnap (ls_store ?T)) (lockKey (lk_name (ls_handle ?T j))) =
        Some (lk_owner (ls_handle ?T j), ls_lease ?T j)" by (auto split: if_splits)
  qed
qed

lemma protocol_inv_tick:
  assumes inv: "protocol_inv S" and t: "ls_now S \<le> t"
  shows "protocol_inv (S\<lparr>ls_now := t\<rparr>)"
proof (rule protocol_invI)
  fix i assume "leased (S\<lparr>ls_now := t\<rparr>) i"
  with t have "leased S i" "t < ls_lease S i" by (auto simp: leased_def)
  then show "live_at (ls_now (S\<lparr>ls_now := t\<rparr>)) (lsnap (ls_store (S\<lparr>ls_now := t\<rparr>)))
      (lockKey (lk_name (ls_handle (S\<lparr>ls_now := t\<rparr>) i))) =
      Some (lk_owner (ls_handle (S\<lparr>ls_now := t\<rparr>) i), ls_lease (S\<lparr>ls_now := t\<rparr>) i)"
    using protocol_lease [OF inv] by (simp add: live_at_Some)
qed (use protocol_invD [OF inv] in simp_all)

lemma protocol_inv_step:
  assumes "lock_step L other S T" and inv: "protocol_inv S"
    and "\<And>s s'. linvar s \<Longrightarrow> other s s' \<Longrightarrow> linvar s' \<and> lsnap s' = lsnap s"
  shows "protocol_inv T"
  using assms(1)
proof (cases rule: lock_step.cases)
  case (step_other s')
  with assms(3) [OF protocol_linvar [OF inv]] show ?thesis by (auto intro: protocol_inv_same [OF inv])
qed (simp_all add: inv protocol_inv_tick protocol_inv_acquire protocol_inv_release)

lemma protocol_inv_reach:
  assumes "lock_reach L other now s named S" and "linvar s"
    and other: "\<And>s s'. linvar s \<Longrightarrow> other s s' \<Longrightarrow> linvar s' \<and> lsnap s' = lsnap s"
  shows "protocol_inv S"
  using assms(1)
proof (induction rule: lock_reach.induct)
  case reach_start
  with assms(2) show ?case
    by (intro protocol_invI) (auto simp: leased_def Locks_Lock_def split: prod.splits)
next
  case (reach_step S T)
  from protocol_inv_step [OF reach_step.hyps(2) reach_step.IH other] show ?case .
qed

lemma leases_exclude:
  assumes "protocol_inv S" "leased S i" "leased S j" "lk_name (ls_handle S i) = lk_name (ls_handle S j)"
  shows "i = j \<and> holder (ls_now S) (lockKey (lk_name (ls_handle S i))) (ls_store S) = Some (lk_owner (ls_handle S i))"
proof -
  have "lk_owner (ls_handle S i) = lk_owner (ls_handle S j)"
    using protocol_lease [OF assms(1,2)] protocol_lease [OF assms(1,3)] assms(4) by simp
  moreover have "lk_owner (ls_handle S i) \<noteq> []" using assms(2) by (simp add: leased_def)
  ultimately have "i = j" using protocol_unique [OF assms(1)] by blast
  then show ?thesis using protocol_lease [OF assms(1,2)] by (simp add: holder_def)
qed

text \<open>Waiting for a lock: what a successful wait leaves behind, and when it ends.\<close>

lemma block_loop_result:
  assumes "block_loop L w wait deadline i now lk s = (r, t, lk', s')" and "linvar s"
    and others: "\<And>i s. linvar s \<Longrightarrow> linvar (w_others w i s)"
  shows "linvar s' \<and> now \<le> t \<and> ((\<forall>j. w_late w j = 0) \<longrightarrow> t \<le> max now deadline) \<and>
    (case r of Inr _ \<Rightarrow> \<exists>b. lk' = lk\<lparr>lk_owner := hex_encode b, lk_held := True\<rparr> \<and>
         live_at t (lsnap s') (lockKey (lk_name lk)) = Some (hex_encode b, t + lk_ttl lk)
     | Inl _ \<Rightarrow> lk' = lk)"
  using assms(1,2)
proof (induction "nat (deadline - now)" arbitrary: i now s rule: less_induct)
  case less
  note step = less.prems(1) [unfolded block_loop.simps [of L w wait deadline i now lk s]]
  from less.prems(2) show ?case
  proof (cases rule: acquire_cases [where rnd = "w_rand w i" and now = now and lk = lk])
    case (refused e)
    with step less.prems(2) show ?thesis by (auto simp: isLocked_def)
  next
    case (taken b s'')
    with step show ?thesis by (auto simp: live_at_upd)
  next
    case (held b s'')
    show ?thesis
    proof (cases "now + block_sleep lk > deadline \<or> w_cancelled w i")
      case True
      with held step show ?thesis by (auto simp: isLocked_def split: if_splits)
    next
      case False
      let ?now = "now + block_sleep lk + int (w_late w i)"
      have dec: "nat (deadline - ?now) < nat (deadline - now)"
        using False block_sleep_pos [of lk] by linarith
      have "block_loop L w wait deadline (Suc i) ?now lk (w_others w i s'') = (r, t, lk', s')"
        using False held step by (simp add: isLocked_def)
      from less.hyps [OF dec this others [OF held(7)]] False block_sleep_pos [of lk]
      show ?thesis by auto
    qed
  qed
qed

text \<open>A lock whose holder never comes back is taken once its time to live has run out, provided the
  wait reaches one attempt past that instant.\<close>

lemma block_loop_outlasts:
  assumes "linvar s" and "\<And>t. now \<le> t \<Longrightarrow> e \<le> t \<Longrightarrow> live_at t (lsnap s) (lockKey (lk_name lk)) = None"
    and e: "e + block_sleep lk \<le> deadline" and lk: "0 < lk_ttl lk" "lk_name lk \<noteq> []"
    and w: "\<And>j. w_rand w j \<noteq> None" "\<And>j. w_late w j = 0" "\<And>j. \<not> w_cancelled w j"
    and others: "\<And>j s. linvar s \<Longrightarrow> linvar (w_others w j s) \<and> lsnap (w_others w j s) = lsnap s"
  shows "fst (block_loop L w wait deadline i now lk s) = Inr ()"
  using assms(1,2)
proof (induction "nat (deadline - now)" arbitrary: i now s rule: less_induct)
  case less
  from less.prems(1) show ?case
  proof (cases rule: acquire_cases [where rnd = "w_rand w i" and now = now and lk = lk])
    case (refused err)
    with lk w(1) [of i] show ?thesis by simp
  next
    case (taken b s'')
    then show ?thesis by (simp add: block_loop.simps)
  next
    case (held b s'')
    let ?now = "now + block_sleep lk"
    have "now < e" using held(5) less.prems(2) [of now] by force
    with e have le: "?now \<le> deadline" by linarith
    then have dec: "nat (deadline - ?now) < nat (deadline - now)"
      using block_sleep_pos [of lk] by linarith
    have "fst (block_loop L w wait deadline (Suc i) ?now lk (w_others w i s'')) = Inr ()"
    proof (rule less.hyps [OF dec])
      show "linvar (w_others w i s'')" using others [OF held(7)] by simp
    next
      fix t assume "?now \<le> t" "e \<le> t"
      then show "live_at t (lsnap (w_others w i s'')) (lockKey (lk_name lk)) = None"
        using others [OF held(7)] held(6) [of t] less.prems(2) [of t] block_sleep_pos [of lk] by simp
    qed
    with held le w show ?thesis by (simp add: block_loop.simps [of L w wait deadline i] isLocked_def)
  qed
qed

end

section \<open>Properties\<close>

lemma array_entry_step_locks: "array_entry_step s s' \<Longrightarrow> as_locks s' = as_locks s"
  by (induction rule: array_entry_step.induct)
     (auto simp: array_op_defs ArrayStore_Touch_def ArrayStore_Many_def ArrayStore_PutMany_def Let_def
       split: option.split prod.split sum.split)

text \<open>C3. Over an \<^verbatim>\<open>ArrayStore\<close> whose entries the rest of the application reads, writes and flushes at
  will, and with any number of handles taking and releasing locks in any order while time passes,
  two handles that both hold an unexpired lock of one name are the same handle, and the store
  reports exactly that handle's token as the owner. In particular a holder that outlived its time
  to live can release nothing its successor took.\<close>

theorem lock_mutual_exclusion:
  assumes "lock_reach array_locking array_entry_step now s named S"
    and "leased S i" "leased S j" "lk_name (ls_handle S i) = lk_name (ls_handle S j)"
  shows "i = j \<and> fst (ArrayStore_CurrentOwner (ls_now S) (lockKey (lk_name (ls_handle S i))) (ls_store S)) =
    Inr (lk_owner (ls_handle S i))"
proof -
  have "array.protocol_inv S"
    by (rule array.protocol_inv_reach [OF assms(1)]) (simp_all add: array_lsnap_fun array_entry_step_locks)
  from array.leases_exclude [OF this assms(2-)] show ?thesis
    by (auto simp: array.holder_def CurrentOwner_result)
qed

definition example_token :: bytes where
  "example_token = replicate 16 (CHR 0x2A)"

definition example_held :: array_store where
  "example_held = \<lparr>as_entries = Map.empty, as_locks = [''lock:job'' \<mapsto> newEntry 0 (hex_encode example_token) Second]\<rparr>"

definition example_handle :: lock where
  "example_handle = (Locks_Lock ''job'' Second)\<lparr>lk_owner := hex_encode example_token, lk_held := True\<rparr>"

lemma example_acquire: "Lock_Acquire array_locking (Some example_token) 0 (Locks_Lock ''job'' Second) NewArrayStore =
    (Inr (), example_handle, example_held)"
  by (simp add: Lock_Acquire_def Locks_Lock_def newLockOwner_def array_locking_def ArrayStore_AcquireLock_def
    NewArrayStore_def live_def lockKey_def example_handle_def example_held_def)

theorem lock_mutual_exclusion_witness:
  "\<exists>S. lock_reach array_locking array_entry_step 0 NewArrayStore (\<lambda>_. (''job'', Second)) S \<and> leased S 0 \<and>
     fst (ArrayStore_CurrentOwner (ls_now S) (lockKey (lk_name (ls_handle S 0))) (ls_store S)) =
       Inr (lk_owner (ls_handle S 0))"
proof -
  note start = reach_start [of array_locking array_entry_step 0 NewArrayStore "\<lambda>_. (''job'', Second)"]
  note step = step_acquire [of example_token _ array_locking 0 "Inr ()" example_handle example_held array_entry_step]
  let ?S = "\<lparr>ls_now = 0, ls_store = example_held,
    ls_handle = (\<lambda>_. Locks_Lock ''job'' Second)(0 := example_handle), ls_lease = (\<lambda>_. 0)(0 := Second),
    ls_drawn = {hex_encode example_token}\<rparr>"
  have reach: "lock_reach array_locking array_entry_step 0 NewArrayStore (\<lambda>_. (''job'', Second)) ?S"
    using reach_step [OF start step] example_acquire
    by (simp add: example_token_def example_handle_def Locks_Lock_def)
  have leased: "leased ?S 0"
    by (simp add: leased_def example_handle_def example_token_def)
  from lock_mutual_exclusion [OF reach leased leased refl] reach leased show ?thesis by blast
qed


definition example_surroundings :: "array_store surroundings" where
  "example_surroundings = \<lparr>w_rand = (\<lambda>_. Some example_token), w_late = (\<lambda>_. 0),
     w_cancelled = (\<lambda>_. False), w_others = (\<lambda>_ s. snd (ArrayStore_Put 0 ''k'' ''v'' Second s))\<rparr>"


end
