(* ===== verification/Go_Utf8.thy ===== *)
theory Go_Utf8
  imports Prelude
begin

text \<open>Strings as the language ranges over them: \<^verbatim>\<open>for _, r := range s\<close> decodes UTF-8 one rune at a
  time and answers the replacement rune, one byte wide, for a byte that does not start an encoded
  rune; \<^verbatim>\<open>strings.Builder.WriteRune\<close> encodes one. The main lemma is that ranging over an encoded
  list of runes gives the list back.\<close>

type_synonym rune = nat

abbreviation RuneError :: rune where "RuneError \<equiv> 0xFFFD"

definition is_cont :: "nat \<Rightarrow> nat \<Rightarrow> char \<Rightarrow> bool" where
  "is_cont lo hi c \<longleftrightarrow> lo \<le> of_char c \<and> of_char c \<le> hi"

definition second_lo :: "nat \<Rightarrow> nat" where
  "second_lo b = (if b = 0xE0 then 0xA0 else if b = 0xF0 then 0x90 else 0x80)"

definition second_hi :: "nat \<Rightarrow> nat" where
  "second_hi b = (if b = 0xED then 0x9F else if b = 0xF4 then 0x8F else 0xBF)"

definition tail_bits :: "char \<Rightarrow> nat" where
  "tail_bits c = of_char c mod 64"

text \<open>\<^verbatim>\<open>utf8.DecodeRuneInString\<close>: the rune and its width.\<close>

fun decode_rune :: "string \<Rightarrow> rune \<times> nat" where
  "decode_rune [] = (RuneError, 0)"
| "decode_rune (c # cs) =
     (let b = of_char c in
      if b < 0x80 then (b, 1)
      else if 0xC2 \<le> b \<and> b \<le> 0xDF then
        (case cs of c1 # _ \<Rightarrow>
           if is_cont 0x80 0xBF c1 then ((b - 0xC0) * 64 + tail_bits c1, 2) else (RuneError, 1)
         | [] \<Rightarrow> (RuneError, 1))
      else if 0xE0 \<le> b \<and> b \<le> 0xEF then
        (case cs of c1 # c2 # _ \<Rightarrow>
           if is_cont (second_lo b) (second_hi b) c1 \<and> is_cont 0x80 0xBF c2
           then ((b - 0xE0) * 4096 + tail_bits c1 * 64 + tail_bits c2, 3) else (RuneError, 1)
         | _ \<Rightarrow> (RuneError, 1))
      else if 0xF0 \<le> b \<and> b \<le> 0xF4 then
        (case cs of c1 # c2 # c3 # _ \<Rightarrow>
           if is_cont (second_lo b) (second_hi b) c1 \<and> is_cont 0x80 0xBF c2 \<and> is_cont 0x80 0xBF c3
           then ((b - 0xF0) * 262144 + tail_bits c1 * 4096 + tail_bits c2 * 64 + tail_bits c3, 4)
           else (RuneError, 1)
         | _ \<Rightarrow> (RuneError, 1))
      else (RuneError, 1))"

lemma decode_rune_width: "0 < snd (decode_rune (c # cs))"
  by (simp add: Let_def split: list.split)

function range_runes :: "string \<Rightarrow> rune list" where
  "range_runes s = (if s = [] then [] else fst (decode_rune s) # range_runes (drop (snd (decode_rune s)) s))"
  by pat_completeness auto
termination
proof (relation "measure length", goal_cases)
  case (2 s)
  then show ?case using decode_rune_width by (cases s) (simp_all del: decode_rune.simps)
qed simp

declare range_runes.simps [simp del]

text \<open>\<^verbatim>\<open>utf8.AppendRune\<close>: a surrogate or a number past the last code point is written as the
  replacement rune.\<close>

definition valid_rune :: "rune \<Rightarrow> bool" where
  "valid_rune r \<longleftrightarrow> r < 0xD800 \<or> 0xE000 \<le> r \<and> r \<le> 0x10FFFF"

definition encode_rune :: "rune \<Rightarrow> string" where
  "encode_rune r =
     (let r = (if valid_rune r then r else RuneError); t = (\<lambda>n. char_of (0x80 + n mod 64 :: nat)) in
      if r < 0x80 then [char_of r]
      else if r < 0x800 then [char_of (0xC0 + r div 64), t r]
      else if r < 0x10000 then [char_of (0xE0 + r div 4096), t (r div 64), t r]
      else [char_of (0xF0 + r div 262144), t (r div 4096), t (r div 64), t r])"

definition encode_runes :: "rune list \<Rightarrow> string" where
  "encode_runes rs = concat (map encode_rune rs)"

lemma of_char_small [simp]: "n < 256 \<Longrightarrow> of_char (char_of (n :: nat)) = n"
  by (simp add: of_char_of)

lemma tail_bits_tail [simp]: "tail_bits (char_of (0x80 + n mod 64 :: nat)) = n mod 64"
  using mod_mult_self2 [of "n mod 64" 64 2] by (simp add: tail_bits_def add.commute)

lemma is_cont_tail: "lo \<le> 0x80 + n mod 64 \<Longrightarrow> 0x80 + n mod 64 \<le> hi \<Longrightarrow> is_cont lo hi (char_of (0x80 + n mod 64 :: nat))"
  by (simp add: is_cont_def)

lemma split64: "(r :: nat) div 4096 * 4096 + r div 64 mod 64 * 64 + r mod 64 = r"
proof -
  have "r div 4096 = r div 64 div 64" by (simp add: div_mult2_eq [symmetric])
  then show ?thesis using div_mult_mod_eq [of r 64] div_mult_mod_eq [of "r div 64" 64] by linarith
qed

lemma split64_4: "(r :: nat) div 262144 * 262144 + r div 4096 mod 64 * 4096 + r div 64 mod 64 * 64 + r mod 64 = r"
proof -
  have "r div 262144 = r div 4096 div 64" by (simp add: div_mult2_eq [symmetric])
  then show ?thesis using split64 [of r] div_mult_mod_eq [of "r div 4096" 64] by linarith
qed

lemma second_range_3:
  assumes "r = q * 4096 + m * 64 + l" "m < 64" "l < 64" "0x800 \<le> r" "r < 0x10000" "r < 0xD800 \<or> 0xE000 \<le> r"
  shows "second_lo (0xE0 + q) \<le> 0x80 + m \<and> 0x80 + m \<le> second_hi (0xE0 + q)"
proof -
  have "q = 0 \<Longrightarrow> 32 \<le> m" using assms by linarith
  moreover have "q = 13 \<Longrightarrow> m < 32" using assms by linarith
  moreover have "q < 16" using assms by linarith
  ultimately show ?thesis using assms(2) by (auto simp: second_lo_def second_hi_def)
qed

lemma second_range_4:
  assumes "r = q * 262144 + m * 4096 + k * 64 + l" "m < 64" "k < 64" "l < 64" "0x10000 \<le> r" "r \<le> 0x10FFFF"
  shows "second_lo (0xF0 + q) \<le> 0x80 + m \<and> 0x80 + m \<le> second_hi (0xF0 + q)"
proof -
  have "q = 0 \<Longrightarrow> 16 \<le> m" using assms by linarith
  moreover have "q = 4 \<Longrightarrow> m < 16" using assms by linarith
  ultimately show ?thesis using assms(2) by (auto simp: second_lo_def second_hi_def)
qed

lemma decode_encode_rune:
  assumes "valid_rune r"
  shows "decode_rune (encode_rune r @ s) = (r, length (encode_rune r))"
proof -
  consider "r < 0x80" | "0x80 \<le> r" "r < 0x800" | "0x800 \<le> r" "r < 0x10000" | "0x10000 \<le> r" "r \<le> 0x10FFFF"
    using assms unfolding valid_rune_def by linarith
  then show ?thesis
  proof cases
    case 1
    with assms show ?thesis by (simp add: encode_rune_def)
  next
    case 2
    have "r div 64 < 32" "2 \<le> r div 64" using 2 less_mult_imp_div_less [of r 32 64] div_le_mono [of 128 r 64] by simp_all
    with assms 2 show ?thesis by (simp add: encode_rune_def Let_def is_cont_tail)
  next
    case 3
    let ?b = "0xE0 + r div 4096" and ?m = "r div 64 mod 64"
    have b: "r div 4096 < 16" using 3 by (intro less_mult_imp_div_less) simp
    have "second_lo ?b \<le> 0x80 + ?m \<and> 0x80 + ?m \<le> second_hi ?b"
      using assms 3 by (intro second_range_3 [OF split64 [symmetric]]) (auto simp: valid_rune_def)
    with assms 3 b show ?thesis
      by (simp add: encode_rune_def Let_def is_cont_tail split64)
  next
    case 4
    let ?b = "0xF0 + r div 262144" and ?m = "r div 4096 mod 64"
    have b: "r div 262144 < 5" using 4 by (intro less_mult_imp_div_less) simp
    have "second_lo ?b \<le> 0x80 + ?m \<and> 0x80 + ?m \<le> second_hi ?b"
      using 4 by (intro second_range_4 [OF split64_4 [symmetric]]) simp_all
    with assms 4 b show ?thesis
      by (simp add: encode_rune_def Let_def is_cont_tail split64_4)
  qed
qed

lemma encode_rune_nonempty [simp]: "encode_rune r \<noteq> []"
  by (simp add: encode_rune_def Let_def)

lemma range_encode_runes: "(\<forall>r \<in> set rs. valid_rune r) \<Longrightarrow> range_runes (encode_runes rs) = rs"
proof (induction rs)
  case Nil
  then show ?case by (simp add: encode_runes_def range_runes.simps)
next
  case (Cons r rs)
  then have d: "decode_rune (encode_rune r @ encode_runes rs) = (r, length (encode_rune r))"
    by (simp add: decode_encode_rune)
  have "range_runes (encode_runes (r # rs)) = r # range_runes (encode_runes rs)"
    by (subst range_runes.simps) (simp add: encode_runes_def d [unfolded encode_runes_def])
  with Cons show ?case by simp
qed

text \<open>A string of ASCII characters is its own list of runes.\<close>

lemma decode_ascii: "of_char c < (0x80 :: nat) \<Longrightarrow> decode_rune (c # cs) = (of_char c, 1)"
  by (simp add: Let_def)

lemma range_ascii: "(\<forall>c \<in> set s. of_char c < (0x80 :: nat)) \<Longrightarrow> range_runes s = map of_char s"
proof (induction s)
  case Nil
  then show ?case by (simp add: range_runes.simps)
next
  case (Cons c s)
  then show ?case by (subst range_runes.simps) (simp add: decode_ascii del: decode_rune.simps)
qed

lemma encode_ascii: "of_char c < (0x80 :: nat) \<Longrightarrow> encode_rune (of_char c) = [c]"
  by (simp add: encode_rune_def valid_rune_def)

end
