(* ===== verification/Rate_Limiter.thy ===== *)
theory Rate_Limiter
  imports Array_Store Go_Utf8
begin

text \<open>Counting attempts against limits: \<^verbatim>\<open>cache/ratelimiter.go\<close>, with the fold of a key in
  \<^verbatim>\<open>cache/entities.go\<close>. The limiter counts in any store that keeps the contract of
  \<open>Cache_Store\<close>; the properties are proved for such a store once and taken for the array store.\<close>

section \<open>Limits\<close>

record limit =
  lm_Key :: string
  lm_MaxAttempts :: int
  lm_Decay :: duration

definition PerSecond :: "int \<Rightarrow> limit" where
  "PerSecond n = \<lparr>lm_Key = [], lm_MaxAttempts = n, lm_Decay = Second\<rparr>"

definition PerMinute :: "int \<Rightarrow> limit" where
  "PerMinute n = \<lparr>lm_Key = [], lm_MaxAttempts = n, lm_Decay = Minute\<rparr>"

definition PerMinutes :: "int \<Rightarrow> int \<Rightarrow> limit" where
  "PerMinutes decayMinutes n = \<lparr>lm_Key = [], lm_MaxAttempts = n, lm_Decay = wrap64 (decayMinutes * Minute)\<rparr>"

definition PerHour :: "int \<Rightarrow> limit" where
  "PerHour n = \<lparr>lm_Key = [], lm_MaxAttempts = n, lm_Decay = Hour\<rparr>"

definition PerDay :: "int \<Rightarrow> limit" where
  "PerDay n = \<lparr>lm_Key = [], lm_MaxAttempts = n, lm_Decay = 24 * Hour\<rparr>"

definition Limit_None :: limit where
  "Limit_None = \<lparr>lm_Key = [], lm_MaxAttempts = 2147483647, lm_Decay = Minute\<rparr>"

definition Limit_By :: "limit \<Rightarrow> string \<Rightarrow> limit" where
  "Limit_By l key = l\<lparr>lm_Key := key\<rparr>"

definition Limit_FallbackKey :: "limit \<Rightarrow> string" where
  "Limit_FallbackKey l =
     (if lm_Key l \<noteq> [] then lm_Key l @ '':'' else []) @ ''attempts:'' @ format_int (lm_MaxAttempts l) @
     '':decay:'' @ format_int (lm_Decay l sdiv Second)"

section \<open>Named limiters\<close>

text \<open>\<open>'c\<close> is the context a resolver reads; a registered resolver may be nil.\<close>

type_synonym 'c resolver = "'c \<Rightarrow> limit list"

type_synonym 'c limiters = "string \<rightharpoonup> 'c resolver option"

definition RateLimiter_For :: "string \<Rightarrow> 'c resolver option \<Rightarrow> 'c limiters \<Rightarrow> 'c limiters" where
  "RateLimiter_For name resolver limiters = limiters(name \<mapsto> resolver)"

definition seen_keys :: "limit list \<Rightarrow> string \<Rightarrow> nat" where
  "seen_keys limits key = length (filter (\<lambda>l. lm_Key l = key) limits)"

definition separate_limits :: "limit list \<Rightarrow> limit list" where
  "separate_limits limits =
     (if length limits < 2 then limits
      else map (\<lambda>l. if seen_keys limits (lm_Key l) > 1 then l\<lparr>lm_Key := Limit_FallbackKey l\<rparr> else l) limits)"

definition RateLimiter_Limiter :: "string \<Rightarrow> 'c limiters \<Rightarrow> 'c resolver option" where
  "RateLimiter_Limiter name limiters =
     (case limiters name of
        Some (Some resolver) \<Rightarrow> Some (\<lambda>ctx. separate_limits (resolver ctx))
      | _ \<Rightarrow> None)"

section \<open>The fold of a key\<close>

text \<open>\<^verbatim>\<open>htmlEntity\<close>, the code points in decimal.\<close>

definition htmlEntity :: "(rune \<times> string) list" where
  "htmlEntity = [
    (38, ''amp''), (60, ''lt''), (62, ''gt''), (34, ''quot''), (160, ''nbsp''), (161, ''iexcl''),
    (162, ''cent''), (163, ''pound''), (164, ''curren''), (165, ''yen''), (166, ''brvbar''), (167, ''sect''),
    (168, ''uml''), (169, ''copy''), (170, ''ordf''), (171, ''laquo''), (172, ''not''), (173, ''shy''),
    (174, ''reg''), (175, ''macr''), (176, ''deg''), (177, ''plusmn''), (178, ''sup2''), (179, ''sup3''),
    (180, ''acute''), (181, ''micro''), (182, ''para''), (183, ''middot''), (184, ''cedil''),
    (185, ''sup1''), (186, ''ordm''), (187, ''raquo''), (188, ''frac14''), (189, ''frac12''),
    (190, ''frac34''), (191, ''iquest''), (192, ''Agrave''), (193, ''Aacute''), (194, ''Acirc''),
    (195, ''Atilde''), (196, ''Auml''), (197, ''Aring''), (198, ''AElig''), (199, ''Ccedil''),
    (200, ''Egrave''), (201, ''Eacute''), (202, ''Ecirc''), (203, ''Euml''), (204, ''Igrave''),
    (205, ''Iacute''), (206, ''Icirc''), (207, ''Iuml''), (208, ''ETH''), (209, ''Ntilde''),
    (210, ''Ograve''), (211, ''Oacute''), (212, ''Ocirc''), (213, ''Otilde''), (214, ''Ouml''),
    (215, ''times''), (216, ''Oslash''), (217, ''Ugrave''), (218, ''Uacute''), (219, ''Ucirc''),
    (220, ''Uuml''), (221, ''Yacute''), (222, ''THORN''), (223, ''szlig''), (224, ''agrave''),
    (225, ''aacute''), (226, ''acirc''), (227, ''atilde''), (228, ''auml''), (229, ''aring''),
    (230, ''aelig''), (231, ''ccedil''), (232, ''egrave''), (233, ''eacute''), (234, ''ecirc''),
    (235, ''euml''), (236, ''igrave''), (237, ''iacute''), (238, ''icirc''), (239, ''iuml''), (240, ''eth''),
    (241, ''ntilde''), (242, ''ograve''), (243, ''oacute''), (244, ''ocirc''), (245, ''otilde''),
    (246, ''ouml''), (247, ''divide''), (248, ''oslash''), (249, ''ugrave''), (250, ''uacute''),
    (251, ''ucirc''), (252, ''uuml''), (253, ''yacute''), (254, ''thorn''), (255, ''yuml''),
    (338, ''OElig''), (339, ''oelig''), (352, ''Scaron''), (353, ''scaron''), (376, ''Yuml''),
    (402, ''fnof''), (710, ''circ''), (732, ''tilde''), (913, ''Alpha''), (914, ''Beta''), (915, ''Gamma''),
    (916, ''Delta''), (917, ''Epsilon''), (918, ''Zeta''), (919, ''Eta''), (920, ''Theta''), (921, ''Iota''),
    (922, ''Kappa''), (923, ''Lambda''), (924, ''Mu''), (925, ''Nu''), (926, ''Xi''), (927, ''Omicron''),
    (928, ''Pi''), (929, ''Rho''), (931, ''Sigma''), (932, ''Tau''), (933, ''Upsilon''), (934, ''Phi''),
    (935, ''Chi''), (936, ''Psi''), (937, ''Omega''), (945, ''alpha''), (946, ''beta''), (947, ''gamma''),
    (948, ''delta''), (949, ''epsilon''), (950, ''zeta''), (951, ''eta''), (952, ''theta''), (953, ''iota''),
    (954, ''kappa''), (955, ''lambda''), (956, ''mu''), (957, ''nu''), (958, ''xi''), (959, ''omicron''),
    (960, ''pi''), (961, ''rho''), (962, ''sigmaf''), (963, ''sigma''), (964, ''tau''), (965, ''upsilon''),
    (966, ''phi''), (967, ''chi''), (968, ''psi''), (969, ''omega''), (977, ''thetasym''), (978, ''upsih''),
    (982, ''piv''), (8194, ''ensp''), (8195, ''emsp''), (8201, ''thinsp''), (8204, ''zwnj''),
    (8205, ''zwj''), (8206, ''lrm''), (8207, ''rlm''), (8211, ''ndash''), (8212, ''mdash''),
    (8216, ''lsquo''), (8217, ''rsquo''), (8218, ''sbquo''), (8220, ''ldquo''), (8221, ''rdquo''),
    (8222, ''bdquo''), (8224, ''dagger''), (8225, ''Dagger''), (8226, ''bull''), (8230, ''hellip''),
    (8240, ''permil''), (8242, ''prime''), (8243, ''Prime''), (8249, ''lsaquo''), (8250, ''rsaquo''),
    (8254, ''oline''), (8260, ''frasl''), (8364, ''euro''), (8465, ''image''), (8472, ''weierp''),
    (8476, ''real''), (8482, ''trade''), (8501, ''alefsym''), (8592, ''larr''), (8593, ''uarr''),
    (8594, ''rarr''), (8595, ''darr''), (8596, ''harr''), (8629, ''crarr''), (8656, ''lArr''),
    (8657, ''uArr''), (8658, ''rArr''), (8659, ''dArr''), (8660, ''hArr''), (8704, ''forall''),
    (8706, ''part''), (8707, ''exist''), (8709, ''empty''), (8711, ''nabla''), (8712, ''isin''),
    (8713, ''notin''), (8715, ''ni''), (8719, ''prod''), (8721, ''sum''), (8722, ''minus''),
    (8727, ''lowast''), (8730, ''radic''), (8733, ''prop''), (8734, ''infin''), (8736, ''ang''),
    (8743, ''and''), (8744, ''or''), (8745, ''cap''), (8746, ''cup''), (8747, ''int''), (8756, ''there4''),
    (8764, ''sim''), (8773, ''cong''), (8776, ''asymp''), (8800, ''ne''), (8801, ''equiv''), (8804, ''le''),
    (8805, ''ge''), (8834, ''sub''), (8835, ''sup''), (8836, ''nsub''), (8838, ''sube''), (8839, ''supe''),
    (8853, ''oplus''), (8855, ''otimes''), (8869, ''perp''), (8901, ''sdot''), (8968, ''lceil''),
    (8969, ''rceil''), (8970, ''lfloor''), (8971, ''rfloor''), (12296, ''lang''), (12297, ''rang''),
    (9674, ''loz''), (9824, ''spades''), (9827, ''clubs''), (9829, ''hearts''), (9830, ''diams'')]"

definition ascii_letter :: "char \<Rightarrow> bool" where
  "ascii_letter c \<longleftrightarrow> of_char c \<in> {97..122 :: nat} \<or> of_char c \<in> {65..90 :: nat}"

definition foldEntity :: "string \<Rightarrow> string option" where
  "foldEntity name =
     (if length name < 2 then None
      else if list_all ascii_letter name then Some (take 1 name) else None)"

definition clean_rune :: "rune \<Rightarrow> string" where
  "clean_rune r =
     (if r = 39 then ''&#039;''
      else case map_of htmlEntity r of
        None \<Rightarrow> encode_rune r
      | Some name \<Rightarrow> (case foldEntity name of Some folded \<Rightarrow> folded | None \<Rightarrow> ''&'' @ name @ '';''))"

definition CleanRateLimiterKey :: "string \<Rightarrow> string" where
  "CleanRateLimiterKey key = concat (map clean_rune (range_runes key))"

section \<open>Counting\<close>

definition rl_bucket :: "instant \<Rightarrow> duration \<Rightarrow> int" where
  "rl_bucket now decay = now sdiv decay"

definition RateLimiter_key :: "instant \<Rightarrow> limit \<Rightarrow> string go" where
  "RateLimiter_key now l =
     (if lm_Key l = [] then Inl LimitWithoutKey
      else if lm_Decay l \<le> 0 then Inl (LimitWithoutWindow (lm_Key l))
      else if lm_MaxAttempts l \<le> 0 then Inl (LimitClosed (lm_Key l) (lm_MaxAttempts l))
      else Inr (''ratelimit:'' @ CleanRateLimiterKey (lm_Key l) @ '':'' @ format_int (rl_bucket now (lm_Decay l))))"

definition RateLimiter_AvailableIn :: "instant \<Rightarrow> limit \<Rightarrow> duration" where
  "RateLimiter_AvailableIn now l = (if lm_Decay l \<le> 0 then 0 else lm_Decay l - now smod lm_Decay l)"

record limit_result =
  r_OK :: bool
  r_Attempts :: int
  r_Remaining :: int
  r_RetryAfter :: duration

definition RateLimiter_Hit :: "'s store \<Rightarrow> instant \<Rightarrow> limit \<Rightarrow> 's \<Rightarrow> int go \<times> 's" where
  "RateLimiter_Hit St now l s =
     (case RateLimiter_key now l of
        Inl err \<Rightarrow> (Inl err, s)
      | Inr key \<Rightarrow> Store_Increment St now key 1 (lm_Decay l) s)"

definition RateLimiter_Attempt :: "'s store \<Rightarrow> instant \<Rightarrow> limit \<Rightarrow> 's \<Rightarrow> limit_result go \<times> 's" where
  "RateLimiter_Attempt St now l s =
     (case RateLimiter_Hit St now l s of
        (Inl err, s') \<Rightarrow> (Inl err, s')
      | (Inr attempts, s') \<Rightarrow>
          (let remaining = max 0 (wrap64 (lm_MaxAttempts l - attempts)) in
           if attempts > lm_MaxAttempts l
           then (Inr \<lparr>r_OK = False, r_Attempts = attempts, r_Remaining = 0,
                      r_RetryAfter = RateLimiter_AvailableIn now l\<rparr>, s')
           else (Inr \<lparr>r_OK = True, r_Attempts = attempts, r_Remaining = remaining, r_RetryAfter = 0\<rparr>, s')))"

text \<open>\<^verbatim>\<open>Release\<close> is three calls of the store; other callers may come in between, so each is a
  definition of its own.\<close>

definition release_look :: "'s store \<Rightarrow> instant \<Rightarrow> string \<Rightarrow> 's \<Rightarrow> bool go \<times> 's" where
  "release_look St now key s =
     (case Store_Get St now key s of
        (Inl err, s') \<Rightarrow> if errors_is err ErrNotFound then (Inr False, s') else (Inl err, s')
      | (Inr _, s') \<Rightarrow> (Inr True, s'))"

definition release_take :: "'s store \<Rightarrow> instant \<Rightarrow> string \<Rightarrow> duration \<Rightarrow> 's \<Rightarrow> int go \<times> 's" where
  "release_take St now key decay s = Store_Increment St now key (- 1) decay s"

definition release_floor :: "'s store \<Rightarrow> instant \<Rightarrow> string \<Rightarrow> int \<Rightarrow> duration \<Rightarrow> 's \<Rightarrow> unit go \<times> 's" where
  "release_floor St now key n decay s =
     (if n < 0
      then case Store_Increment St now key (wrap64 (- n)) decay s of
             (Inl err, s') \<Rightarrow> (Inl err, s')
           | (Inr _, s') \<Rightarrow> (Inr (), s')
      else (Inr (), s))"

definition RateLimiter_Release :: "'s store \<Rightarrow> instant \<Rightarrow> limit \<Rightarrow> 's \<Rightarrow> unit go \<times> 's" where
  "RateLimiter_Release St now l s =
     (case RateLimiter_key now l of
        Inl err \<Rightarrow> (Inl err, s)
      | Inr key \<Rightarrow>
          (case release_look St now key s of
             (Inl err, s1) \<Rightarrow> (Inl err, s1)
           | (Inr False, s1) \<Rightarrow> (Inr (), s1)
           | (Inr True, s1) \<Rightarrow>
               (case release_take St now key (lm_Decay l) s1 of
                  (Inl err, s2) \<Rightarrow> (Inl err, s2)
                | (Inr n, s2) \<Rightarrow> release_floor St now key n (lm_Decay l) s2)))"

definition RateLimiter_Attempts :: "'s store \<Rightarrow> instant \<Rightarrow> limit \<Rightarrow> 's \<Rightarrow> int go \<times> 's" where
  "RateLimiter_Attempts St now l s =
     (case RateLimiter_key now l of
        Inl err \<Rightarrow> (Inl err, s)
      | Inr key \<Rightarrow>
          (case Store_Get St now key s of
             (Inl err, s') \<Rightarrow> if errors_is err ErrNotFound then (Inr 0, s') else (Inl err, s')
           | (Inr raw, s') \<Rightarrow>
               (case parse_int raw of None \<Rightarrow> (Inl (NotACounter key), s') | Some n \<Rightarrow> (Inr n, s'))))"

definition RateLimiter_TooManyAttempts :: "'s store \<Rightarrow> instant \<Rightarrow> limit \<Rightarrow> 's \<Rightarrow> bool go \<times> 's" where
  "RateLimiter_TooManyAttempts St now l s =
     (case RateLimiter_Attempts St now l s of
        (Inl err, s') \<Rightarrow> (Inl err, s')
      | (Inr attempts, s') \<Rightarrow> (Inr (attempts \<ge> lm_MaxAttempts l), s'))"

definition RateLimiter_Remaining :: "'s store \<Rightarrow> instant \<Rightarrow> limit \<Rightarrow> 's \<Rightarrow> int go \<times> 's" where
  "RateLimiter_Remaining St now l s =
     (case RateLimiter_Attempts St now l s of
        (Inl err, s') \<Rightarrow> (Inl err, s')
      | (Inr attempts, s') \<Rightarrow> (Inr (max 0 (wrap64 (lm_MaxAttempts l - attempts))), s'))"

definition RateLimiter_RetriesLeft :: "'s store \<Rightarrow> instant \<Rightarrow> limit \<Rightarrow> 's \<Rightarrow> int go \<times> 's" where
  "RateLimiter_RetriesLeft = RateLimiter_Remaining"

definition RateLimiter_Clear :: "'s store \<Rightarrow> instant \<Rightarrow> limit \<Rightarrow> 's \<Rightarrow> unit go \<times> 's" where
  "RateLimiter_Clear St now l s =
     (case RateLimiter_key now l of
        Inl err \<Rightarrow> (Inl err, s)
      | Inr key \<Rightarrow> Store_Forget St now key s)"

definition RateLimiter_ResetAttempts :: "'s store \<Rightarrow> instant \<Rightarrow> limit \<Rightarrow> 's \<Rightarrow> unit go \<times> 's" where
  "RateLimiter_ResetAttempts = RateLimiter_Clear"

section \<open>Releases that overlap\<close>

text \<open>Callers that release one counter at the same time: each is before its look, between its look
  and its decrement, or holds the number its decrement answered. Attempts, clears and the clock
  come in between. Every number stays within \<open>counter_bound\<close>, far from where 64 bits wrap.\<close>

datatype releaser = Idle | Looked | Taken int

definition counter_bound :: int where
  "counter_bound = 2 ^ 62"

record 's release_system =
  rs_now :: instant
  rs_store :: 's
  rs_callers :: "releaser list"

inductive release_step ::
  "'s store \<Rightarrow> string \<Rightarrow> duration \<Rightarrow> 's release_system \<Rightarrow> 's release_system \<Rightarrow> bool"
  for St key decay where
  rs_tick: "rs_now R \<le> t \<Longrightarrow> release_step St key decay R (R\<lparr>rs_now := t\<rparr>)"
| rs_hit: "Store_Increment St (rs_now R) key 1 decay (rs_store R) = (Inr n, s') \<Longrightarrow> \<bar>n\<bar> < counter_bound \<Longrightarrow>
    release_step St key decay R (R\<lparr>rs_store := s'\<rparr>)"
| rs_clear: "Store_Forget St (rs_now R) key (rs_store R) = (r, s') \<Longrightarrow>
    release_step St key decay R (R\<lparr>rs_store := s'\<rparr>)"
| rs_look: "i < length (rs_callers R) \<Longrightarrow> rs_callers R ! i = Idle \<Longrightarrow>
    release_look St (rs_now R) key (rs_store R) = (Inr found, s') \<Longrightarrow>
    release_step St key decay R
      (R\<lparr>rs_store := s', rs_callers := (rs_callers R)[i := if found then Looked else Idle]\<rparr>)"
| rs_take: "i < length (rs_callers R) \<Longrightarrow> rs_callers R ! i = Looked \<Longrightarrow>
    release_take St (rs_now R) key decay (rs_store R) = (Inr n, s') \<Longrightarrow> \<bar>n\<bar> < counter_bound \<Longrightarrow>
    release_step St key decay R (R\<lparr>rs_store := s', rs_callers := (rs_callers R)[i := Taken n]\<rparr>)"
| rs_floor: "i < length (rs_callers R) \<Longrightarrow> rs_callers R ! i = Taken n \<Longrightarrow>
    release_floor St (rs_now R) key n decay (rs_store R) = (Inr (), s') \<Longrightarrow>
    (\<And>m s''. n < 0 \<Longrightarrow> Store_Increment St (rs_now R) key (wrap64 (- n)) decay (rs_store R) = (Inr m, s'') \<Longrightarrow> \<bar>m\<bar> < counter_bound) \<Longrightarrow>
    release_step St key decay R (R\<lparr>rs_store := s', rs_callers := (rs_callers R)[i := Idle]\<rparr>)"

section \<open>The counters a limiter promises\<close>

text \<open>The fold as the source documents it, in two steps: every character that has an entity is written
  as the entity, and then every \<^verbatim>\<open>&name;\<close> whose name is two or more letters is replaced by the
  first of them.\<close>

definition htmlentities_rune :: "rune \<Rightarrow> string" where
  "htmlentities_rune r =
     (if r = 39 then ''&#039;''
      else case map_of htmlEntity r of None \<Rightarrow> encode_rune r | Some name \<Rightarrow> ''&'' @ name @ '';'')"

definition htmlentities :: "string \<Rightarrow> string" where
  "htmlentities key = concat (map htmlentities_rune (range_runes key))"

definition entity_at :: "string \<Rightarrow> (char \<times> string) option" where
  "entity_at cs =
     (case (takeWhile ascii_letter cs, dropWhile ascii_letter cs) of
        (c # _ # _, e # rest) \<Rightarrow> if e = CHR '';'' then Some (c, rest) else None
      | _ \<Rightarrow> None)"

lemma entity_at_length: "entity_at cs = Some (c, rest) \<Longrightarrow> length rest < length cs"
  using length_dropWhile_le [of ascii_letter cs]
  by (auto simp: entity_at_def split: list.splits if_splits)

function replace_entities :: "string \<Rightarrow> string" where
  "replace_entities [] = []"
| "replace_entities (c # cs) =
     (if c = CHR ''&'' then
        (case entity_at cs of
           Some (letter, rest) \<Rightarrow> letter # replace_entities rest
         | None \<Rightarrow> c # replace_entities cs)
      else c # replace_entities cs)"
  by pat_completeness auto
termination
  by (relation "measure length") (auto dest: entity_at_length)

definition fold_key :: "string \<Rightarrow> string" where
  "fold_key key = replace_entities (htmlentities key)"

text \<open>The abstract limiter: a number for every folded key and window, nothing else.\<close>

type_synonym cell = "string \<times> int"

datatype rl_op = DoAttempt limit | DoRelease limit | DoClear limit

fun op_limit :: "rl_op \<Rightarrow> limit" where
  "op_limit (DoAttempt l) = l"
| "op_limit (DoRelease l) = l"
| "op_limit (DoClear l) = l"

definition limit_cell :: "instant \<Rightarrow> limit \<Rightarrow> cell" where
  "limit_cell now l = (fold_key (lm_Key l), now div lm_Decay l)"

definition spec_result :: "instant \<Rightarrow> limit \<Rightarrow> int \<Rightarrow> limit_result" where
  "spec_result now l n =
     (if n \<le> lm_MaxAttempts l
      then \<lparr>r_OK = True, r_Attempts = n, r_Remaining = lm_MaxAttempts l - n, r_RetryAfter = 0\<rparr>
      else \<lparr>r_OK = False, r_Attempts = n, r_Remaining = 0, r_RetryAfter = (now div lm_Decay l + 1) * lm_Decay l - now\<rparr>)"

fun spec_do :: "instant \<Rightarrow> rl_op \<Rightarrow> (cell \<Rightarrow> int) \<Rightarrow> limit_result go option \<times> (cell \<Rightarrow> int)" where
  "spec_do now (DoAttempt l) cnt =
     (let c = limit_cell now l in (Some (Inr (spec_result now l (cnt c + 1))), cnt(c := cnt c + 1)))"
| "spec_do now (DoRelease l) cnt = (let c = limit_cell now l in (None, cnt(c := max 0 (cnt c - 1))))"
| "spec_do now (DoClear l) cnt = (let c = limit_cell now l in (None, cnt(c := 0)))"

fun rl_do :: "'s store \<Rightarrow> instant \<Rightarrow> rl_op \<Rightarrow> 's \<Rightarrow> limit_result go option \<times> 's" where
  "rl_do St now (DoAttempt l) s = (case RateLimiter_Attempt St now l s of (r, s') \<Rightarrow> (Some r, s'))"
| "rl_do St now (DoRelease l) s = (None, snd (RateLimiter_Release St now l s))"
| "rl_do St now (DoClear l) s = (None, snd (RateLimiter_Clear St now l s))"

fun rl_run :: "'s store \<Rightarrow> (instant \<times> rl_op) list \<Rightarrow> 's \<Rightarrow> limit_result go option list" where
  "rl_run St [] s = []"
| "rl_run St ((now, op) # evs) s = (case rl_do St now op s of (r, s') \<Rightarrow> r # rl_run St evs s')"

fun spec_run :: "(instant \<times> rl_op) list \<Rightarrow> (cell \<Rightarrow> int) \<Rightarrow> limit_result go option list" where
  "spec_run [] cnt = []"
| "spec_run ((now, op) # evs) cnt = (case spec_do now op cnt of (r, cnt') \<Rightarrow> r # spec_run evs cnt')"

text \<open>A limit anybody can count against.\<close>

definition limit_ok :: "limit \<Rightarrow> bool" where
  "limit_ok l \<longleftrightarrow> lm_Key l \<noteq> [] \<and> 0 < lm_Decay l \<and> 0 < lm_MaxAttempts l \<and> lm_MaxAttempts l \<le> MaxInt64"

text \<open>A family of limits that may share their counters: those whose keys fold alike count in the same
  windows, under maxima of their own.\<close>

definition limits_agree :: "limit set \<Rightarrow> bool" where
  "limits_agree F \<longleftrightarrow> (\<forall>l \<in> F. limit_ok l) \<and>
     (\<forall>l \<in> F. \<forall>l' \<in> F. fold_key (lm_Key l) = fold_key (lm_Key l') \<longrightarrow> lm_Decay l = lm_Decay l')"

lemma limits_agreeD:
  assumes "limits_agree F" "l \<in> F"
  shows "limit_ok l" "l' \<in> F \<Longrightarrow> fold_key (lm_Key l) = fold_key (lm_Key l') \<Longrightarrow> lm_Decay l = lm_Decay l'"
  using assms unfolding limits_agree_def by blast+

definition cell_key :: "cell \<Rightarrow> string" where
  "cell_key c = ''ratelimit:'' @ fst c @ '':'' @ format_int (snd c)"

lemma cell_key_inj [simp]: "cell_key c = cell_key c' \<longleftrightarrow> c = c'"
  by (simp add: cell_key_def prod_eq_iff last_segment_inj)

subsection \<open>The code's fold is the documented one\<close>

lemma replace_no_entity: "CHR ''&'' \<notin> set cs \<Longrightarrow> replace_entities (cs @ rest) = cs @ replace_entities rest"
  by (induction cs) auto

lemma entity_folds:
  assumes "list_all ascii_letter (a # b # name)"
  shows "replace_entities (CHR ''&'' # (a # b # name) @ CHR '';'' # rest) = a # replace_entities rest"
proof -
  have semi: "\<not> ascii_letter CHR '';''" by (simp add: ascii_letter_def)
  have "takeWhile ascii_letter ((a # b # name) @ CHR '';'' # rest) = a # b # name"
    "dropWhile ascii_letter ((a # b # name) @ CHR '';'' # rest) = CHR '';'' # rest"
    using assms semi takeWhile_append2 [of name ascii_letter] dropWhile_append2 [of name ascii_letter]
    by (simp_all add: list_all_iff)
  then show ?thesis by (simp add: entity_at_def)
qed

lemma entity_stays:
  assumes "length name < 2 \<or> \<not> list_all ascii_letter name" "CHR '';'' \<notin> set name"
  shows "entity_at (name @ CHR '';'' # rest) = None"
proof (cases "list_all ascii_letter name")
  case True
  then have "takeWhile ascii_letter (name @ CHR '';'' # rest) = name"
    using takeWhile_append2 [of name ascii_letter] by (simp add: list_all_iff ascii_letter_def)
  with True assms(1) show ?thesis
    by (auto simp: entity_at_def split: list.splits)
next
  case False
  then obtain c where "c \<in> set name" "\<not> ascii_letter c" by (auto simp: list_all_iff)
  then have d: "dropWhile ascii_letter (name @ CHR '';'' # rest) = dropWhile ascii_letter name @ CHR '';'' # rest"
    "dropWhile ascii_letter name \<noteq> []"
    by (simp_all add: dropWhile_append1 dropWhile_eq_Nil_conv) blast
  have "hd (dropWhile ascii_letter name) \<in> set name"
    using d(2) by (metis hd_in_set set_dropWhileD)
  with d assms(2) show ?thesis
    by (cases "dropWhile ascii_letter name") (auto simp: entity_at_def split: list.splits)
qed

lemma replace_entity:
  assumes "CHR '';'' \<notin> set name" "CHR ''&'' \<notin> set name"
  shows "replace_entities (CHR ''&'' # name @ CHR '';'' # rest) =
    (case foldEntity name of Some folded \<Rightarrow> folded | None \<Rightarrow> ''&'' @ name @ '';'') @ replace_entities rest"
proof (cases "foldEntity name")
  case None
  then have "length name < 2 \<or> \<not> list_all ascii_letter name" by (auto simp: foldEntity_def split: if_splits)
  from entity_stays [OF this assms(1)] None replace_no_entity [of "name @ '';''" rest] assms(2)
  show ?thesis by simp
next
  case (Some folded)
  then have "list_all ascii_letter name" "2 \<le> length name" "folded = take 1 name"
    by (auto simp: foldEntity_def split: if_splits)
  moreover from this(2) obtain a b cs where "name = a # b # cs" by (cases name; cases "tl name") auto
  ultimately show ?thesis using Some entity_folds [of a b cs rest] by simp
qed

lemma entity_names_plain: "list_all (\<lambda>(r, name). CHR '';'' \<notin> set name \<and> CHR ''&'' \<notin> set name) htmlEntity"
  by (simp add: htmlEntity_def)

lemma ampersand_char_of: "n < 256 \<Longrightarrow> CHR ''&'' = char_of (n :: nat) \<longleftrightarrow> n = 38"
proof
  assume "n < 256" "CHR ''&'' = char_of n"
  then have "of_char CHR ''&'' = n" by simp
  then show "n = 38" by simp
qed (simp add: char_of_def bit_0)

lemma encode_no_ampersand:
  assumes "r \<noteq> 38"
  shows "CHR ''&'' \<notin> set (encode_rune r)"
proof -
  have "encode_rune r = encode_rune (if valid_rune r then r else RuneError)" "valid_rune RuneError"
    by (simp_all add: encode_rune_def valid_rune_def)
  moreover have "CHR ''&'' \<notin> set (encode_rune r')" if "valid_rune r'" "r' \<noteq> 38" for r'
  proof -
    have t: "CHR ''&'' \<noteq> char_of (0x80 + n mod 64 :: nat)" for n using ampersand_char_of [of "0x80 + n mod 64"] by simp
    have "r' \<le> 0x10FFFF" using that(1) by (auto simp: valid_rune_def)
    then have "r' < 0x800 \<Longrightarrow> r' div 64 < 0x20" "r' < 0x10000 \<Longrightarrow> r' div 4096 < 0x10" "r' div 262144 < 0x10"
      by linarith+
    with that t show ?thesis
      by (auto simp: encode_rune_def Let_def ampersand_char_of)
  qed
  ultimately show ?thesis using assms by simp
qed

lemma replace_rune: "replace_entities (htmlentities_rune r @ rest) = clean_rune r @ replace_entities rest"
proof (cases "r = 39")
  case True
  have "entity_at (''#039;'' @ rest) = None" by (simp add: entity_at_def ascii_letter_def)
  with True replace_no_entity [of "''#039;''" rest] show ?thesis by (simp add: htmlentities_rune_def clean_rune_def)
next
  case False
  show ?thesis
  proof (cases "map_of htmlEntity r")
    case None
    have "map_of htmlEntity 38 = Some ''amp''" by (simp add: htmlEntity_def)
    with None have "r \<noteq> 38" by auto
    from replace_no_entity [OF encode_no_ampersand [OF this]] None False show ?thesis
      by (simp add: htmlentities_rune_def clean_rune_def)
  next
    case (Some name)
    from map_of_SomeD [OF this] entity_names_plain have "CHR '';'' \<notin> set name" "CHR ''&'' \<notin> set name"
      by (auto simp: list_all_iff)
    from replace_entity [OF this] Some False show ?thesis by (simp add: htmlentities_rune_def clean_rune_def)
  qed
qed

lemma CleanRateLimiterKey_folds: "CleanRateLimiterKey key = fold_key key"
proof -
  have "replace_entities (concat (map htmlentities_rune rs)) = concat (map clean_rune rs)" for rs
    by (induction rs) (simp_all add: replace_rune)
  then show ?thesis by (simp add: CleanRateLimiterKey_def fold_key_def htmlentities_def)
qed

subsection \<open>Keys, cells and windows\<close>

lemma RateLimiter_key_ok: "limit_ok l \<Longrightarrow> 0 \<le> now \<Longrightarrow> RateLimiter_key now l = Inr (cell_key (limit_cell now l))"
  by (simp add: RateLimiter_key_def limit_ok_def cell_key_def limit_cell_def rl_bucket_def sdiv_nonneg CleanRateLimiterKey_folds)

lemma AvailableIn_ok: "limit_ok l \<Longrightarrow> 0 \<le> now \<Longrightarrow>
    RateLimiter_AvailableIn now l = (now div lm_Decay l + 1) * lm_Decay l - now"
  using minus_div_mult_eq_mod [of now "lm_Decay l", symmetric]
  by (simp add: RateLimiter_AvailableIn_def limit_ok_def smod_nonneg algebra_simps)

text \<open>A store tracks the counters of the family \<open>F\<close>: for the current and every later window the
  entry holds the number and outlives the window, and an absent entry is a zero.\<close>

definition cell_tracked :: "instant \<Rightarrow> snapshot \<Rightarrow> cell \<Rightarrow> duration \<Rightarrow> int \<Rightarrow> bool" where
  "cell_tracked now m c decay n \<longleftrightarrow>
     (case live_at now m (cell_key c) of
        None \<Rightarrow> n = 0
      | Some (v, e) \<Rightarrow> v = format_int n \<and> (snd c + 1) * decay \<le> e)"

definition tracks :: "limit set \<Rightarrow> instant \<Rightarrow> (cell \<Rightarrow> int) \<Rightarrow> snapshot \<Rightarrow> bool" where
  "tracks F now cnt m \<longleftrightarrow> (\<forall>l \<in> F. \<forall>b. now < (b + 1) * lm_Decay l \<longrightarrow>
     (let c = (fold_key (lm_Key l), b) in cell_tracked now m c (lm_Decay l) (cnt c)))"

definition counts_to :: "int \<Rightarrow> (cell \<Rightarrow> int) \<Rightarrow> bool" where
  "counts_to N cnt \<longleftrightarrow> (\<forall>c. 0 \<le> cnt c \<and> cnt c \<le> N)"

lemma counts_toD: "counts_to N cnt \<Longrightarrow> 0 \<le> cnt c" "counts_to N cnt \<Longrightarrow> cnt c \<le> N"
  by (cases c, simp add: counts_to_def)+

lemma counts_to_write:
  assumes "counts_to N cnt" "0 \<le> n" "n \<le> N + 1"
  shows "counts_to (N + 1) (cnt(c := n))"
  unfolding counts_to_def
proof
  fix d
  show "0 \<le> (cnt(c := n)) d \<and> (cnt(c := n)) d \<le> N + 1"
    using counts_toD [OF assms(1), of d] assms(2,3) by simp
qed

lemma spec_do_counts:
  assumes "counts_to N cnt"
  shows "counts_to (N + 1) (snd (spec_do now op cnt))"
  using counts_toD [OF assms, of "limit_cell now (op_limit op)"]
  by (cases op) (simp_all add: Let_def counts_to_write [OF assms])

lemma cell_key_prefix: "has_prefix (cell_key c) ''ratelimit:''"
  by (simp add: cell_key_def has_prefix_def)

lemma tracksI:
  assumes "\<And>l b. l \<in> F \<Longrightarrow> now < (b + 1) * lm_Decay l \<Longrightarrow>
      cell_tracked now m (fold_key (lm_Key l), b) (lm_Decay l) (cnt (fold_key (lm_Key l), b))"
  shows "tracks F now cnt m"
  using assms by (simp add: tracks_def)

lemma tracksD:
  assumes "tracks F now cnt m" "l \<in> F" "now < (b + 1) * lm_Decay l"
  shows "cell_tracked now m (fold_key (lm_Key l), b) (lm_Decay l) (cnt (fold_key (lm_Key l), b))"
  using assms unfolding tracks_def Let_def by blast

lemma tracks_later:
  assumes "tracks F now cnt m" "now \<le> t"
  shows "tracks F t cnt m"
proof (rule tracksI)
  fix l b assume l: "l \<in> F" "t < (b + 1) * lm_Decay l"
  then have "now < (b + 1) * lm_Decay l" using assms(2) by simp
  from tracksD [OF assms(1) l(1) this] assms(2) l(2)
  show "cell_tracked t m (fold_key (lm_Key l), b) (lm_Decay l) (cnt (fold_key (lm_Key l), b))"
    by (auto simp: cell_tracked_def live_at_def split: option.splits if_splits)
qed

lemma now_in_window:
  assumes "0 < (d :: int)"
  shows "now div d * d \<le> now" "now < (now div d + 1) * d"
  using div_mult_mod_eq [of now d] pos_mod_bound [OF assms, of now] pos_mod_sign [OF assms, of now]
  unfolding distrib_right by linarith+

lemma snd_limit_cell [simp]: "snd (limit_cell now l) = now div lm_Decay l"
  by (simp add: limit_cell_def)

text \<open>Writing one cell, or deleting it, moves only that cell's counter.\<close>

lemma tracks_write:
  assumes F: "limits_agree F" "l \<in> F" and tr: "tracks F now cnt m"
    and other: "\<And>k. k \<noteq> cell_key (limit_cell now l) \<Longrightarrow> live_at now m' k = live_at now m k"
    and here: "cell_tracked now m' (limit_cell now l) (lm_Decay l) n"
  shows "tracks F now (cnt(limit_cell now l := n)) m'"
proof (rule tracksI)
  fix l' b assume l': "l' \<in> F" "now < (b + 1) * lm_Decay l'"
  let ?c = "(fold_key (lm_Key l'), b)"
  show "cell_tracked now m' ?c (lm_Decay l') ((cnt(limit_cell now l := n)) ?c)"
  proof (cases "?c = limit_cell now l")
    case True
    then have "lm_Decay l' = lm_Decay l" using limits_agreeD(2) [OF F(1) l'(1) F(2)] by (simp add: limit_cell_def)
    with True here show ?thesis by simp
  next
    case False
    with tracksD [OF tr l'] other [of "cell_key ?c"] show ?thesis by (simp add: cell_tracked_def)
  qed
qed

lemma tracks_current:
  assumes "limits_agree F" "l \<in> F" "tracks F now cnt m"
  shows "cell_tracked now m (limit_cell now l) (lm_Decay l) (cnt (limit_cell now l))"
proof -
  have "0 < lm_Decay l" using limits_agreeD(1) [OF assms(1,2)] by (simp add: limit_ok_def)
  from tracksD [OF assms(3,2) now_in_window(2) [OF this]] show ?thesis by (simp add: limit_cell_def)
qed

lemma tracked_counter:
  assumes "cell_tracked now m c decay n" "in_int64 n"
  shows "counter_of now m (cell_key c) = Some n"
  using assms by (auto simp: cell_tracked_def counter_of_def parse_format_int split: option.splits)

lemma tracked_deadline:
  assumes "limit_ok l" "cell_tracked now m (limit_cell now l) (lm_Decay l) n"
  shows "(now div lm_Decay l + 1) * lm_Decay l \<le> deadline_of now m (cell_key (limit_cell now l)) (lm_Decay l)"
  using assms now_in_window [of "lm_Decay l" now]
  by (auto simp: cell_tracked_def deadline_of_def limit_ok_def distrib_right split: option.splits)

context store_contract
begin

text \<open>One step of the limiter is one step of the counters.\<close>

lemma increment_tracks:
  assumes F: "limits_agree F" "l \<in> F" and tr: "tracks F now cnt (snap s)" and inv: "invar s"
    and n: "in_int64 (cnt (limit_cell now l))" "in_int64 (cnt (limit_cell now l) + d)"
  obtains s' where
    "Store_Increment St now (cell_key (limit_cell now l)) d (lm_Decay l) s = (Inr (cnt (limit_cell now l) + d), s')"
    "invar s'" "tracks F now (cnt(limit_cell now l := cnt (limit_cell now l) + d)) (snap s')"
proof -
  let ?c = "limit_cell now l" and ?k = "cell_key (limit_cell now l)"
  let ?n = "cnt ?c + d"
  let ?s = "snd (Store_Increment St now ?k d (lm_Decay l) s)"
  have ok: "limit_ok l" by (rule limits_agreeD(1) [OF F])
  then have D: "0 < lm_Decay l" by (simp add: limit_ok_def)
  note cur = tracks_current [OF F tr]
  from tracked_counter [OF cur n(1)] n(2)
  have cnt: "counter_of now (snap s) ?k = Some (cnt ?c)" and w: "wrap64 ?n = ?n" by (simp_all add: wrap64_id)
  have r: "fst (Store_Increment St now ?k d (lm_Decay l) s) = Inr ?n"
    using inv D by (simp add: increment_result cnt w)
  have snap: "live_at now (snap ?s) = live_at now ((snap s)(?k \<mapsto> (format_int ?n, deadline_of now (snap s) ?k (lm_Decay l))))"
    using inv D by (simp add: increment_snap cnt w)
  have dl: "(now div lm_Decay l + 1) * lm_Decay l \<le> deadline_of now (snap s) ?k (lm_Decay l)"
    by (rule tracked_deadline [OF ok cur])
  have "tracks F now (cnt(?c := ?n)) (snap ?s)"
  proof (rule tracks_write [OF F tr])
    show "live_at now (snap ?s) k = live_at now (snap s) k" if "k \<noteq> ?k" for k
      using that by (simp add: snap live_at_upd)
    show "cell_tracked now (snap ?s) ?c (lm_Decay l) ?n"
      using dl now_in_window(2) [OF D, of now] by (auto simp: cell_tracked_def snap live_at_upd)
  qed
  with r increment_invar [OF inv] show ?thesis by (intro that [of ?s]) (auto simp: prod_eq_iff)
qed

lemma attempt_tracks:
  assumes F: "limits_agree F" "l \<in> F" and now: "0 \<le> now" and tr: "tracks F now cnt (snap s)" and inv: "invar s"
    and N: "counts_to N cnt" "N < MaxInt64"
  obtains s' where "RateLimiter_Attempt St now l s = (Inr (spec_result now l (cnt (limit_cell now l) + 1)), s')"
    "invar s'" "tracks F now (cnt(limit_cell now l := cnt (limit_cell now l) + 1)) (snap s')"
proof -
  let ?c = "limit_cell now l"
  have ok: "limit_ok l" by (rule limits_agreeD(1) [OF F])
  have n: "0 \<le> cnt ?c" "cnt ?c < MaxInt64" using counts_toD [OF N(1), of ?c] N(2) by linarith+
  then have "in_int64 (cnt ?c)" "in_int64 (cnt ?c + 1)" by (simp_all add: in_int64_def)
  from increment_tracks [OF F tr inv this] obtain s' where
    s': "Store_Increment St now (cell_key ?c) 1 (lm_Decay l) s = (Inr (cnt ?c + 1), s')"
      "invar s'" "tracks F now (cnt(?c := cnt ?c + 1)) (snap s')" .
  have "wrap64 (lm_MaxAttempts l - (cnt ?c + 1)) = lm_MaxAttempts l - (cnt ?c + 1)"
    using n ok by (intro wrap64_id) (auto simp: in_int64_def limit_ok_def)
  with s' ok now show ?thesis
    by (intro that [of s'])
      (simp_all add: RateLimiter_Attempt_def RateLimiter_Hit_def RateLimiter_key_ok AvailableIn_ok spec_result_def)
qed

lemma release_tracks:
  assumes F: "limits_agree F" "l \<in> F" and now: "0 \<le> now" and tr: "tracks F now cnt (snap s)" and inv: "invar s"
    and N: "counts_to N cnt" "N < MaxInt64"
  obtains s' where "RateLimiter_Release St now l s = (Inr (), s')" "invar s'"
    "tracks F now (cnt(limit_cell now l := max 0 (cnt (limit_cell now l) - 1))) (snap s')"
proof -
  let ?c = "limit_cell now l" and ?k = "cell_key (limit_cell now l)"
  have ok: "limit_ok l" by (rule limits_agreeD(1) [OF F])
  have n: "0 \<le> cnt ?c" "cnt ?c < MaxInt64" using counts_toD [OF N(1), of ?c] N(2) by linarith+
  let ?s1 = "snd (Store_Get St now ?k s)"
  have inv1: "invar ?s1" and tr1: "tracks F now cnt (snap ?s1)"
    using inv tr by (simp_all add: get_invar tracks_def cell_tracked_def get_keeps)
  show ?thesis
  proof (cases "live_at now (snap s) ?k")
    case None
    then have "cnt ?c = 0" using tracks_current [OF F tr] by (simp add: cell_tracked_def)
    then have "cnt(?c := max 0 (cnt ?c - 1)) = cnt" by (simp add: fun_eq_iff)
    moreover have "release_look St now ?k s = (Inr False, ?s1)"
      using None get_result [OF inv, of now ?k] by (auto simp: release_look_def split: prod.splits)
    ultimately show ?thesis using inv1 tr1 ok now
      by (intro that [of ?s1]) (simp_all add: RateLimiter_Release_def RateLimiter_key_ok)
  next
    case (Some ve)
    have look: "release_look St now ?k s = (Inr True, ?s1)"
      using Some get_result [OF inv, of now ?k] by (cases ve) (auto simp: release_look_def split: prod.splits)
    have i: "in_int64 (cnt ?c)" "in_int64 (cnt ?c + - 1)" using n by (simp_all add: in_int64_def)
    obtain s2 where s2: "Store_Increment St now ?k (- 1) (lm_Decay l) ?s1 = (Inr (cnt ?c + - 1), s2)" "invar s2"
        "tracks F now (cnt(?c := cnt ?c + - 1)) (snap s2)"
      using increment_tracks [OF F tr1 inv1 i] .
    show ?thesis
    proof (cases "cnt ?c = 0")
      case False
      with n s2 look ok now show ?thesis
        by (intro that [of s2])
          (simp_all add: RateLimiter_Release_def RateLimiter_key_ok release_take_def release_floor_def max_def)
    next
      case True
      have w: "wrap64 1 = 1" by (rule wrap64_id) (simp add: in_int64_def)
      have i: "in_int64 ((cnt(?c := cnt ?c + - 1)) ?c)" "in_int64 ((cnt(?c := cnt ?c + - 1)) ?c + 1)"
        using True by (simp_all add: in_int64_def)
      obtain s3 where s3: "Store_Increment St now ?k 1 (lm_Decay l) s2 = (Inr ((cnt(?c := cnt ?c + - 1)) ?c + 1), s3)"
          "invar s3" "tracks F now ((cnt(?c := cnt ?c + - 1))(?c := (cnt(?c := cnt ?c + - 1)) ?c + 1)) (snap s3)"
        using increment_tracks [OF F s2(3,2) i] .
      with True s2 look ok now w show ?thesis
        by (intro that [of s3])
          (simp_all add: RateLimiter_Release_def RateLimiter_key_ok release_take_def release_floor_def)
    qed
  qed
qed

lemma clear_tracks:
  assumes F: "limits_agree F" "l \<in> F" and now: "0 \<le> now" and tr: "tracks F now cnt (snap s)" and inv: "invar s"
  obtains s' where "RateLimiter_Clear St now l s = (Inr (), s')" "invar s'"
    "tracks F now (cnt(limit_cell now l := 0)) (snap s')"
proof -
  let ?k = "cell_key (limit_cell now l)"
  let ?s = "snd (Store_Forget St now ?k s)"
  have ok: "limit_ok l" by (rule limits_agreeD(1) [OF F])
  have "tracks F now (cnt(limit_cell now l := 0)) (snap ?s)"
    by (rule tracks_write [OF F tr]) (simp_all add: forget_snap inv cell_tracked_def)
  moreover have "Store_Forget St now ?k s = (Inr (), ?s)"
    using forget_result [OF inv] by (simp add: prod_eq_iff)
  ultimately show ?thesis using ok now forget_invar [OF inv]
    by (intro that [of ?s]) (simp_all add: RateLimiter_Clear_def RateLimiter_key_ok)
qed

lemma do_tracks:
  assumes "limits_agree F" "op_limit op \<in> F" "0 \<le> now" "tracks F now cnt (snap s)" "invar s"
    and "counts_to N cnt" "N < MaxInt64"
  obtains s' where "rl_do St now op s = (fst (spec_do now op cnt), s')" "invar s'"
    "tracks F now (snd (spec_do now op cnt)) (snap s')"
proof (cases op)
  case (DoAttempt l)
  with assms(2) have "l \<in> F" by simp
  from attempt_tracks [OF assms(1) this assms(3-)] obtain s' where
    "RateLimiter_Attempt St now l s = (Inr (spec_result now l (cnt (limit_cell now l) + 1)), s')"
    "invar s'" "tracks F now (cnt(limit_cell now l := cnt (limit_cell now l) + 1)) (snap s')" .
  with DoAttempt show ?thesis by (intro that [of s']) (simp_all add: Let_def)
next
  case (DoRelease l)
  with assms(2) have "l \<in> F" by simp
  from release_tracks [OF assms(1) this assms(3-)] obtain s' where
    "RateLimiter_Release St now l s = (Inr (), s')" "invar s'"
    "tracks F now (cnt(limit_cell now l := max 0 (cnt (limit_cell now l) - 1))) (snap s')" .
  with DoRelease show ?thesis by (intro that [of s']) (simp_all add: Let_def)
next
  case (DoClear l)
  with assms(2) have "l \<in> F" by simp
  from clear_tracks [OF assms(1) this assms(3-5)] obtain s' where
    "RateLimiter_Clear St now l s = (Inr (), s')" "invar s'" "tracks F now (cnt(limit_cell now l := 0)) (snap s')" .
  with DoClear show ?thesis by (intro that [of s']) (simp_all add: Let_def)
qed

lemma run_refines:
  assumes "limits_agree F" "\<And>now op. (now, op) \<in> set evs \<Longrightarrow> op_limit op \<in> F" "sorted (map fst evs)"
    and "\<And>now op. (now, op) \<in> set evs \<Longrightarrow> t \<le> now" "0 \<le> t" "tracks F t cnt (snap s)" "invar s"
    and "counts_to N cnt" "N + int (length evs) \<le> MaxInt64"
  shows "rl_run St evs s = spec_run evs cnt"
  using assms(2-)
proof (induction evs arbitrary: t cnt s N)
  case Nil
  then show ?case by simp
next
  case (Cons ev evs)
  obtain now op where ev: "ev = (now, op)" by (cases ev)
  have now: "op_limit op \<in> F" "t \<le> now" "0 \<le> now" using Cons.prems(1,3) [of now op] Cons.prems(4) ev by auto
  have N: "N < MaxInt64" using Cons.prems(8) by simp
  from do_tracks [OF assms(1) now(1,3) tracks_later [OF Cons.prems(5) now(2)] Cons.prems(6,7) N] obtain s' where
    s': "rl_do St now op s = (fst (spec_do now op cnt), s')" "invar s'" "tracks F now (snd (spec_do now op cnt)) (snap s')" .
  have "rl_run St evs s' = spec_run evs (snd (spec_do now op cnt))"
  proof (rule Cons.IH [where t = now and N = "N + 1"])
    show "now \<le> now'" if "(now', op') \<in> set evs" for now' op'
      using Cons.prems(2) ev that by (auto simp: image_iff)
  qed (use Cons.prems s' now ev spec_do_counts [OF Cons.prems(7)] in auto)
  with s'(1) ev show ?case by (simp add: split_beta)
qed

end

text \<open>What a caller still owes the counter, and the invariant: the counter with everything owed to
  it is not negative.\<close>

fun owed :: "releaser \<Rightarrow> int" where
  "owed (Taken n) = max 0 (- n)"
| "owed _ = 0"

definition total_owed :: "releaser list \<Rightarrow> int" where
  "total_owed cs = sum_list (map owed cs)"

lemma owed_nonneg: "0 \<le> owed c"
  by (cases c) simp_all

lemma total_owed_nonneg: "0 \<le> total_owed cs"
  unfolding total_owed_def by (rule sum_list_nonneg) (auto simp: owed_nonneg)

lemma total_owed_upd: "i < length cs \<Longrightarrow> total_owed (cs[i := c]) = total_owed cs - owed (cs ! i) + owed c"
  by (induction cs arbitrary: i) (auto simp: total_owed_def nth_Cons split: nat.splits)

lemma total_owed_idle: "(\<forall>c \<in> set cs. c = Idle) \<Longrightarrow> total_owed cs = 0"
  by (induction cs) (auto simp: total_owed_def)

lemma Taken_upd: "Taken n \<in> set (cs[i := c]) \<Longrightarrow> Taken n \<in> set cs \<or> c = Taken n"
  using set_update_subset_insert [of cs i c] by auto

lemma deadline_of_ahead: "0 < ttl \<Longrightarrow> now < deadline_of now m k ttl"
  by (auto simp: deadline_of_def dest: live_at_deadline split: option.splits)

lemma counter_later: "now \<le> t \<Longrightarrow> counter_of now m k = Some c \<Longrightarrow>
    counter_of t m k = Some c \<or> counter_of t m k = Some 0"
  by (auto simp: counter_of_def live_at_def split: option.splits if_splits)

context store_contract
begin

definition balanced :: "string \<Rightarrow> 's release_system \<Rightarrow> bool" where
  "balanced key R \<longleftrightarrow> invar (rs_store R) \<and> (\<exists>c. counter_of (rs_now R) (snap (rs_store R)) key = Some c \<and>
     0 \<le> c + total_owed (rs_callers R) \<and> \<bar>c\<bar> < counter_bound) \<and>
     (\<forall>n. Taken n \<in> set (rs_callers R) \<longrightarrow> \<bar>n\<bar> < counter_bound)"

lemma increment_counter:
  assumes "invar s" "0 < decay" "counter_of now (snap s) key = Some c" "\<bar>c\<bar> < counter_bound" "\<bar>d\<bar> < counter_bound"
    and "Store_Increment St now key d decay s = (Inr n, s')"
  shows "n = c + d" "invar s'" "counter_of now (snap s') key = Some (c + d)"
proof -
  have "in_int64 (c + d)" using assms(4,5) by (auto simp: in_int64_def counter_bound_def)
  then have w: "wrap64 (c + d) = c + d" by (rule wrap64_id)
  show n: "n = c + d" using increment_result [OF assms(1,2), of now key d] assms(3,6) w by simp
  show "invar s'" using increment_invar [OF assms(1), of now key d decay] assms(6) by simp
  show "counter_of now (snap s') key = Some (c + d)"
    using counter_after_increment [OF assms(1,2) order_refl, of now key d n] deadline_of_ahead [OF assms(2)] assms(6) n
    by simp
qed

lemma balanced_step:
  assumes "release_step St key decay R R'" "balanced key R" "0 < decay"
  shows "balanced key R'"
proof -
  from assms(2) obtain c where inv: "invar (rs_store R)"
    and c: "counter_of (rs_now R) (snap (rs_store R)) key = Some c" "0 \<le> c + total_owed (rs_callers R)" "\<bar>c\<bar> < counter_bound"
    and taken: "\<And>n. Taken n \<in> set (rs_callers R) \<Longrightarrow> \<bar>n\<bar> < counter_bound"
    by (auto simp: balanced_def)
  note pos = total_owed_nonneg [of "rs_callers R"]
  have b: "0 < counter_bound" "1 < counter_bound" by (simp_all add: counter_bound_def)
  have one: "\<bar>1 :: int\<bar> < counter_bound" "\<bar>- 1 :: int\<bar> < counter_bound" using b by simp_all
  from assms(1) show ?thesis
  proof (cases rule: release_step.cases)
    case (rs_tick t)
    with counter_later [OF rs_tick(2) c(1)] inv c pos b taken show ?thesis by (auto simp: balanced_def)
  next
    case (rs_hit n s')
    from increment_counter [OF inv assms(3) c(1,3) one(1) rs_hit(2)] have "n = c + 1" "invar s'"
      "counter_of (rs_now R) (snap s') key = Some (c + 1)" by simp_all
    with rs_hit c taken show ?thesis by (simp add: balanced_def)
  next
    case (rs_clear r s')
    then have "s' = snd (Store_Forget St (rs_now R) key (rs_store R))" by simp
    with inv have "invar s'" "counter_of (rs_now R) (snap s') key = Some 0"
      by (simp_all add: counter_of_def forget_snap forget_invar)
    with rs_clear(1) pos b taken show ?thesis by (simp add: balanced_def)
  next
    case (rs_look i found s')
    then have "s' = snd (Store_Get St (rs_now R) key (rs_store R))"
      by (auto simp: release_look_def split: prod.splits sum.splits if_splits)
    with inv c have "invar s'" "counter_of (rs_now R) (snap s') key = Some c"
      by (simp_all add: counter_of_def get_keeps get_invar)
    with rs_look c taken show ?thesis by (auto simp: balanced_def total_owed_upd dest!: Taken_upd)
  next
    case (rs_take i n s')
    from increment_counter [OF inv assms(3) c(1,3) one(2) rs_take(4) [unfolded release_take_def]]
    have "n = c - 1" "invar s'" "counter_of (rs_now R) (snap s') key = Some (c - 1)" by simp_all
    with rs_take c pos taken show ?thesis by (auto simp: balanced_def total_owed_upd dest!: Taken_upd)
  next
    case (rs_floor i n s')
    have n: "\<bar>n\<bar> < counter_bound" using taken rs_floor(2,3) nth_mem by metis
    show ?thesis
    proof (cases "n < 0")
      case False
      with rs_floor inv c taken show ?thesis
        by (auto simp: balanced_def total_owed_upd release_floor_def dest!: Taken_upd)
    next
      case True
      have w: "wrap64 (- n) = - n" using n by (intro wrap64_id) (auto simp: in_int64_def counter_bound_def)
      from True rs_floor(4) w obtain m where
        m: "Store_Increment St (rs_now R) key (- n) decay (rs_store R) = (Inr m, s')"
        by (auto simp: release_floor_def split: prod.splits sum.splits)
      have "\<bar>- n\<bar> < counter_bound" using n by simp
      from increment_counter [OF inv assms(3) c(1,3) this m] have "m = c - n" "invar s'"
        "counter_of (rs_now R) (snap s') key = Some (c - n)" by simp_all
      with True rs_floor c taken m w show ?thesis
        by (auto simp: balanced_def total_owed_upd dest!: Taken_upd)
    qed
  qed
qed

lemma balanced_reach:
  assumes "(release_step St key decay)\<^sup>*\<^sup>* R0 R" "balanced key R0" "0 < decay"
  shows "balanced key R"
  using assms(1,2) by (induction rule: rtranclp_induct) (auto intro: balanced_step [OF _ _ assms(3)])

end

section \<open>How many a window admits\<close>

text \<open>How often a counter was raised, and the counters after a sequence of operations.\<close>

definition hits :: "cell \<Rightarrow> (instant \<times> rl_op) list \<Rightarrow> nat" where
  "hits c evs = length (filter (\<lambda>(now, op). limit_cell now (op_limit op) = c) evs)"

fun only_attempts :: "cell \<Rightarrow> (instant \<times> rl_op) list \<Rightarrow> bool" where
  "only_attempts c evs \<longleftrightarrow>
     list_all (\<lambda>(now, op). limit_cell now (op_limit op) = c \<longrightarrow> op = DoAttempt (op_limit op)) evs"

fun spec_counts :: "(instant \<times> rl_op) list \<Rightarrow> (cell \<Rightarrow> int) \<Rightarrow> cell \<Rightarrow> int" where
  "spec_counts [] cnt = cnt"
| "spec_counts ((now, op) # evs) cnt = spec_counts evs (snd (spec_do now op cnt))"

lemma spec_counts_hits: "only_attempts c evs \<Longrightarrow> spec_counts evs cnt c = cnt c + int (hits c evs)"
proof (induction evs arbitrary: cnt)
  case Nil
  then show ?case by (simp add: hits_def)
next
  case (Cons ev evs)
  obtain now op where ev: "ev = (now, op)" by (cases ev)
  have "snd (spec_do now op cnt) c = cnt c + (if limit_cell now (op_limit op) = c then 1 else 0)"
    using Cons.prems ev by (cases op) (auto simp: Let_def)
  with Cons ev show ?case by (simp add: hits_def)
qed

lemma spec_result_OK [simp]: "r_OK (spec_result now l n) \<longleftrightarrow> n \<le> lm_MaxAttempts l"
  by (simp add: spec_result_def)

lemma spec_run_nth: "i < length evs \<Longrightarrow> evs ! i = (now, op) \<Longrightarrow>
    spec_run evs cnt ! i = fst (spec_do now op (spec_counts (take i evs) cnt))"
proof (induction evs arbitrary: i cnt)
  case (Cons ev evs)
  then show ?case by (cases i; cases ev) (auto simp: split_beta)
qed simp

lemma array_run_spec:
  assumes "limits_agree F" "\<forall>(now, op) \<in> set evs. op_limit op \<in> F \<and> t \<le> now" "sorted (map fst evs)" "0 \<le> t"
    and "\<forall>k. has_prefix k ''ratelimit:'' \<longrightarrow> live_at t (array_snap s) k = None"
    and "int (length evs) \<le> MaxInt64"
  shows "rl_run array_ops evs s = spec_run evs (\<lambda>_. 0)"
proof (rule array.run_refines [where N = 0, OF assms(1) _ assms(3) _ assms(4)])
  show "tracks F t (\<lambda>_. 0) (array_snap s)"
    using assms(5) by (intro tracksI) (simp add: cell_tracked_def cell_key_prefix)
qed (use assms(2,6) in \<open>auto simp: counts_to_def\<close>)

section \<open>Properties\<close>

text \<open>C5. Over an array store with nothing of the limiter's in it, a sequence of attempts, releases
  and clears at times that do not go back answers exactly as counters do: one number for each folded
  key and window, which an attempt raises by one, a release lowers to no less than zero and a clear
  resets. The fold is the documented one: entities written out, then each replaced by its first
  letter. Limits whose keys fold alike share the number and have the same window; their maxima are
  their own. An attempt is admitted if and only if its number is within its limit, and says how many
  are left or when the window rolls.\<close>

theorem ratelimiter_refines_counters:
  assumes "limits_agree F" "\<forall>(now, op) \<in> set evs. op_limit op \<in> F \<and> t \<le> now" "sorted (map fst evs)" "0 \<le> t"
    and "\<forall>k. has_prefix k ''ratelimit:'' \<longrightarrow> live_at t (array_snap s) k = None"
    and "int (length evs) \<le> MaxInt64"
  shows "rl_run array_ops evs s = spec_run evs (\<lambda>_. 0)"
  using assms by (rule array_run_spec)

definition example_limit :: limit where
  "example_limit = Limit_By (PerMinute 2) ''ip''"

text \<open>The same key spelled with an accent, under a maximum of its own.\<close>

definition accented_limit :: limit where
  "accented_limit = Limit_By (PerMinute 3) (encode_runes [237, 112])"

definition example_limits :: "limit set" where
  "example_limits = {example_limit, accented_limit}"

lemma example_limits_agree: "limits_agree example_limits"
  by (simp add: limits_agree_def limit_ok_def example_limits_def example_limit_def accented_limit_def
      Limit_By_def PerMinute_def encode_runes_def encode_rune_def valid_rune_def)

lemma accented_folds: "fold_key (lm_Key accented_limit) = ''ip''" "fold_key (lm_Key example_limit) = ''ip''"
proof -
  have r: "range_runes (encode_runes [237, 112]) = [237, 112]"
    by (rule range_encode_runes) (simp add: valid_rune_def)
  have "range_runes ''ip'' = [105, 112]" by (subst range_ascii) simp_all
  moreover have "map_of htmlEntity 237 = Some ''iacute''" "map_of htmlEntity 105 = None" "map_of htmlEntity 112 = None"
    by (simp_all only: htmlEntity_def map_of_Cons_code map_of.simps(1) numeral_eq_iff num.simps simp_thms if_True if_False)
  then have "clean_rune 237 = ''i''" "clean_rune 105 = ''i''" "clean_rune 112 = ''p''"
    by (simp_all add: clean_rune_def foldEntity_def ascii_letter_def encode_rune_def valid_rune_def char_of_def bit_0)
  ultimately show "fold_key (lm_Key accented_limit) = ''ip''" "fold_key (lm_Key example_limit) = ''ip''"
    using r by (simp_all add: CleanRateLimiterKey_folds [symmetric] CleanRateLimiterKey_def
        accented_limit_def example_limit_def Limit_By_def)
qed

definition example_attempts :: "(instant \<times> rl_op) list" where
  "example_attempts = [(0, DoAttempt example_limit), (1, DoAttempt accented_limit), (2, DoAttempt example_limit),
     (3, DoRelease accented_limit), (Minute, DoAttempt example_limit)]"

lemma example_store_empty: "live_at 0 (array_snap NewArrayStore) k = None"
  by (simp add: live_at_def array_snap_def NewArrayStore_def)

theorem ratelimiter_refines_counters_witness:
  "rl_run array_ops example_attempts NewArrayStore = spec_run example_attempts (\<lambda>_. 0) \<and>
   limit_cell 1 accented_limit = limit_cell 0 example_limit"
proof
  show "rl_run array_ops example_attempts NewArrayStore = spec_run example_attempts (\<lambda>_. 0)"
    by (rule ratelimiter_refines_counters [OF example_limits_agree, where t = 0])
      (simp_all add: example_attempts_def example_limits_def example_store_empty)
  show "limit_cell 1 accented_limit = limit_cell 0 example_limit"
    by (simp add: limit_cell_def accented_folds) (simp add: example_limit_def accented_limit_def Limit_By_def PerMinute_def)
qed



text \<open>C7. Releases that overlap hand out no free attempts: however looks, decrements and repairs of
  several releasing callers interleave with attempts, clears and the clock, once every caller has
  returned the counter in the store is absent or a number that is not negative.\<close>

theorem overlapping_releases_never_negative:
  assumes "(release_step array_ops key decay)\<^sup>*\<^sup>* R0 R" "0 < decay"
    and "live_at (rs_now R0) (array_snap (rs_store R0)) key = None"
    and "\<forall>c \<in> set (rs_callers R0). c = Idle" "\<forall>c \<in> set (rs_callers R). c = Idle"
  shows "case fst (ArrayStore_Get (rs_now R) key (rs_store R)) of
      Inl e \<Rightarrow> e = ErrNotFound | Inr v \<Rightarrow> (\<exists>n. parse_int v = Some n \<and> 0 \<le> n)"
proof -
  have "array.balanced key R0"
    using assms(3,4) by (auto simp: array.balanced_def counter_of_def total_owed_idle counter_bound_def)
  from array.balanced_reach [OF assms(1) this assms(2)] total_owed_idle [OF assms(5)]
  obtain c where c: "counter_of (rs_now R) (array_snap (rs_store R)) key = Some c" "0 \<le> c"
    by (auto simp: array.balanced_def)
  moreover have "fst (ArrayStore_Get (rs_now R) key (rs_store R)) =
      (case live_at (rs_now R) (array_snap (rs_store R)) key of None \<Rightarrow> Inl ErrNotFound | Some (v, _) \<Rightarrow> Inr v)"
    using array.get_result [where s = "rs_store R" and now = "rs_now R" and k = key] by (simp add: array_ops_def)
  ultimately show ?thesis by (auto simp: counter_of_def split: option.splits)
qed

definition ex_s1 :: array_store where "ex_s1 = snd (ArrayStore_Increment 0 ''k'' 1 Minute NewArrayStore)"
definition ex_s2 :: array_store where "ex_s2 = snd (ArrayStore_Get 0 ''k'' ex_s1)"
definition ex_s3 :: array_store where "ex_s3 = snd (ArrayStore_Get 0 ''k'' ex_s2)"
definition ex_s4 :: array_store where "ex_s4 = snd (ArrayStore_Increment 0 ''k'' (- 1) Minute ex_s3)"
definition ex_s5 :: array_store where "ex_s5 = snd (ArrayStore_Increment 0 ''k'' (- 1) Minute ex_s4)"
definition ex_s6 :: array_store where "ex_s6 = snd (ArrayStore_Increment 0 ''k'' 1 Minute ex_s5)"

lemma ex_steps:
  "fst (ArrayStore_Increment 0 ''k'' 1 Minute NewArrayStore) = Inr 1"
  "fst (release_look array_ops 0 ''k'' ex_s1) = Inr True" "fst (release_look array_ops 0 ''k'' ex_s2) = Inr True"
  "fst (ArrayStore_Increment 0 ''k'' (- 1) Minute ex_s3) = Inr 0"
  "fst (ArrayStore_Increment 0 ''k'' (- 1) Minute ex_s4) = Inr (- 1)"
  "fst (ArrayStore_Increment 0 ''k'' 1 Minute ex_s5) = Inr 0"
  "fst (ArrayStore_Get 0 ''k'' ex_s6) = Inr ''0''"
  by code_simp+

lemma ex_looks:
  "release_look array_ops 0 ''k'' ex_s1 = (Inr True, ex_s2)" "release_look array_ops 0 ''k'' ex_s2 = (Inr True, ex_s3)"
  using ex_steps(2,3) by (auto simp: release_look_def array_ops_def ex_s2_def ex_s3_def split: prod.splits sum.splits if_splits)

lemma ex_increments:
  "Store_Increment array_ops 0 ''k'' 1 Minute NewArrayStore = (Inr 1, ex_s1)"
  "release_take array_ops 0 ''k'' Minute ex_s3 = (Inr 0, ex_s4)"
  "release_take array_ops 0 ''k'' Minute ex_s4 = (Inr (- 1), ex_s5)"
  "Store_Increment array_ops 0 ''k'' 1 Minute ex_s5 = (Inr 0, ex_s6)"
  using ex_steps by (simp_all add: prod_eq_iff array_ops_def release_take_def ex_s1_def ex_s4_def ex_s5_def ex_s6_def)

lemma ex_overlap: "(release_step array_ops ''k'' Minute)\<^sup>*\<^sup>*
    \<lparr>rs_now = 0, rs_store = NewArrayStore, rs_callers = [Idle, Idle]\<rparr>
    \<lparr>rs_now = 0, rs_store = ex_s6, rs_callers = [Idle, Idle]\<rparr>" (is "?step\<^sup>*\<^sup>* _ _")
proof -
  let ?R = "\<lambda>s cs. \<lparr>rs_now = 0, rs_store = s, rs_callers = cs\<rparr> :: array_store release_system"
  have b: "\<bar>1 :: int\<bar> < counter_bound" "\<bar>0 :: int\<bar> < counter_bound" "\<bar>- 1 :: int\<bar> < counter_bound"
    by (simp_all add: counter_bound_def)
  have w: "wrap64 1 = 1" by (rule wrap64_id) (simp add: in_int64_def)
  have h1: "?step (?R NewArrayStore [Idle, Idle]) (?R ex_s1 [Idle, Idle])"
    using rs_hit [of array_ops "?R NewArrayStore [Idle, Idle]" "''k''" Minute 1 ex_s1] ex_increments(1) b by simp
  have h2: "?step (?R ex_s1 [Idle, Idle]) (?R ex_s2 [Looked, Idle])"
    using rs_look [of 0 "?R ex_s1 [Idle, Idle]" array_ops "''k''" True ex_s2 Minute] ex_looks(1) by simp
  have h3: "?step (?R ex_s2 [Looked, Idle]) (?R ex_s3 [Looked, Looked])"
    using rs_look [of 1 "?R ex_s2 [Looked, Idle]" array_ops "''k''" True ex_s3 Minute] ex_looks(2) by simp
  have h4: "?step (?R ex_s3 [Looked, Looked]) (?R ex_s4 [Taken 0, Looked])"
    using rs_take [of 0 "?R ex_s3 [Looked, Looked]" array_ops "''k''" Minute 0 ex_s4] ex_increments(2) b by simp
  have h5: "?step (?R ex_s4 [Taken 0, Looked]) (?R ex_s5 [Taken 0, Taken (- 1)])"
    using rs_take [of 1 "?R ex_s4 [Taken 0, Looked]" array_ops "''k''" Minute "- 1" ex_s5] ex_increments(3) b by simp
  have h6: "?step (?R ex_s5 [Taken 0, Taken (- 1)]) (?R ex_s6 [Taken 0, Idle])"
    using rs_floor [of 1 "?R ex_s5 [Taken 0, Taken (- 1)]" "- 1" array_ops "''k''" Minute ex_s6] ex_increments(4) b w
    by (simp add: release_floor_def)
  have h7: "?step (?R ex_s6 [Taken 0, Idle]) (?R ex_s6 [Idle, Idle])"
    using rs_floor [of 0 "?R ex_s6 [Taken 0, Idle]" 0 array_ops "''k''" Minute ex_s6] by (simp add: release_floor_def)
  show ?thesis
    using h1 h2 h3 h4 h5 h6 h7 by (meson converse_rtranclp_into_rtranclp r_into_rtranclp)
qed

theorem overlapping_releases_never_negative_witness:
  "case fst (ArrayStore_Get 0 ''k'' ex_s6) of Inl e \<Rightarrow> e = ErrNotFound | Inr v \<Rightarrow> (\<exists>n. parse_int v = Some n \<and> 0 \<le> n)"
  using overlapping_releases_never_negative [OF ex_overlap] by (simp add: example_store_empty)

text \<open>C8. What \<^verbatim>\<open>FallbackKey\<close> separates: two limits get the same key exactly when their own keys agree,
  their maxima agree and their windows are the same number of whole seconds. So the limits of one
  caller are told apart by the maximum and by the window, except for windows that differ by less
  than a second.\<close>

theorem fallback_keys_separate:
  "Limit_FallbackKey l = Limit_FallbackKey l' \<longleftrightarrow>
     lm_Key l = lm_Key l' \<and> lm_MaxAttempts l = lm_MaxAttempts l' \<and> lm_Decay l sdiv Second = lm_Decay l' sdiv Second"
proof -
  let ?p = "\<lambda>l. if lm_Key l \<noteq> [] then lm_Key l @ '':'' else []"
  have shape: "Limit_FallbackKey l = (((?p l @ ''attempts'') @ CHR '':'' # format_int (lm_MaxAttempts l)) @
      CHR '':'' # ''decay'') @ CHR '':'' # format_int (lm_Decay l sdiv Second)" for l
    by (simp add: Limit_FallbackKey_def)
  have "?p l = ?p l' \<longleftrightarrow> lm_Key l = lm_Key l'" by auto
  then show ?thesis unfolding shape by (simp add: last_segment_inj del: append_assoc)
qed

text \<open>C9. \<^verbatim>\<open>AvailableIn\<close> is exactly the time to the end of the window: it is positive and no longer than
  the window, the limiter counts under one key until then, and under another from then on.\<close>

theorem available_in_is_window_end:
  assumes "limit_ok l" "0 \<le> now"
  shows "0 < RateLimiter_AvailableIn now l \<and> RateLimiter_AvailableIn now l \<le> lm_Decay l \<and>
    (\<forall>d. 0 \<le> d \<longrightarrow> (RateLimiter_key (now + d) l = RateLimiter_key now l \<longleftrightarrow> d < RateLimiter_AvailableIn now l))"
proof -
  have D: "0 < lm_Decay l" using assms(1) by (simp add: limit_ok_def)
  note w = now_in_window [OF D, of now]
  have same: "RateLimiter_key (now + d) l = RateLimiter_key now l \<longleftrightarrow> d < RateLimiter_AvailableIn now l" if "0 \<le> d" for d
  proof -
    have "RateLimiter_key (now + d) l = RateLimiter_key now l \<longleftrightarrow> (now + d) div lm_Decay l = now div lm_Decay l"
      using assms that by (simp add: RateLimiter_key_ok limit_cell_def)
    also have "\<dots> \<longleftrightarrow> now + d < (now div lm_Decay l + 1) * lm_Decay l"
      using w that now_in_window(2) [OF D, of "now + d"]
        int_div_pos_eq [of "now + d" "lm_Decay l" "now div lm_Decay l" "now + d - lm_Decay l * (now div lm_Decay l)"]
      by (auto simp: algebra_simps)
    finally show ?thesis using assms by (auto simp: AvailableIn_ok)
  qed
  then show ?thesis using w assms by (auto simp: AvailableIn_ok distrib_right)
qed

theorem available_in_is_window_end_witness:
  "RateLimiter_AvailableIn 10 example_limit \<le> Minute \<and>
   RateLimiter_key (10 + Minute) example_limit \<noteq> RateLimiter_key 10 example_limit"
proof -
  have "limit_ok example_limit" using example_limits_agree by (simp add: limits_agree_def example_limits_def)
  note rolls = available_in_is_window_end [OF this, of 10]
  have "lm_Decay example_limit = Minute" by (simp add: example_limit_def Limit_By_def PerMinute_def)
  moreover have "(0 :: int) \<le> 10" "(0 :: int) \<le> Minute" by simp_all
  ultimately show ?thesis using rolls by (metis linorder_not_le)
qed

end
