(* ===== verification/Cache_Repository.thy ===== *)
theory Cache_Repository
  imports Cache_Lock "HOL-Library.Char_ord" "HOL-Library.List_Lexorder"
begin

text \<open>
  The cache an application calls: \<^verbatim>\<open>cache/repository.go\<close>, \<^verbatim>\<open>cache/tagged.go\<close>,
  \<^verbatim>\<open>cache/dispatcher.go\<close> and \<^verbatim>\<open>cache/events/events.go\<close>. A repository works on a store, fires
  events into a dispatcher and draws random bytes for tag generations; the three are the
  world \<open>cworld\<close> an operation runs in.

  Values are of a type \<open>'v\<close>, the dynamic values of the language. The JSON encoder is an argument,
  one function from values to bytes; a decoder \<^verbatim>\<open>decode[T]\<close> is an argument of the generic
  functions. SHA-1 is an argument too. An operation sees one instant.
\<close>

section \<open>The surroundings of an operation\<close>

datatype 'v cache_event =
    RetrievingKey string string "string list option"
  | RetrievingManyKeys string string "string list" "string list option"
  | CacheHit string string 'v "string list option"
  | CacheMissed string string "string list option"
  | WritingKey string string 'v int "string list option"
  | KeyWritten string string 'v int "string list option"
  | KeyWriteFailed string string 'v int "string list option"
  | WritingManyKeys string string "string list" "'v list" int "string list option"
  | ForgettingKey string string "string list option"
  | KeyForgotten string string "string list option"
  | KeyForgetFailed string string "string list option"
  | CacheFlushing string "string list option"
  | CacheFlushed string "string list option"
  | CacheFlushFailed string "string list option"
  | CacheLocksFlushing string
  | CacheLocksFlushed string
  | CacheLocksFlushFailed string

record ('s, 'v) cworld =
  cw_store :: 's
  cw_fired :: "'v cache_event list"
  cw_draws :: nat

record ('s, 'v) cache_env =
  ce_store :: "'s store"
  ce_now :: instant
  ce_wall :: instant
  ce_random :: "nat \<Rightarrow> bytes option"
  ce_sha1 :: "bytes \<Rightarrow> bytes"
  ce_marshal :: "'v \<Rightarrow> bytes option"
  ce_int64 :: "int \<Rightarrow> 'v"

type_synonym ('s, 'v, 'a) op = "('s, 'v) cworld \<Rightarrow> 'a go \<times> ('s, 'v) cworld"

text \<open>A call of the store.\<close>

definition on_store :: "('s \<Rightarrow> 'a go \<times> 's) \<Rightarrow> ('s, 'v, 'a) op" where
  "on_store f w = (case f (cw_store w) of (r, s) \<Rightarrow> (r, w\<lparr>cw_store := s\<rparr>))"

text \<open>\<^verbatim>\<open>x, err := m; if err != nil { return err }\<close>, and the rest.\<close>

definition and_then :: "('s, 'v, 'a) op \<Rightarrow> ('a \<Rightarrow> ('s, 'v, 'b) op) \<Rightarrow> ('s, 'v, 'b) op" where
  "and_then m f w = (case m w of (Inl err, w') \<Rightarrow> (Inl err, w') | (Inr x, w') \<Rightarrow> f x w')"

definition give :: "'a go \<Rightarrow> ('s, 'v, 'a) op" where
  "give r w = (r, w)"

section \<open>The repository\<close>

record repository =
  r_namespace :: string
  r_name :: string
  r_defaultTTL :: duration
  r_tags :: "string list option"
  r_events :: bool

definition defaultCacheTime :: duration where
  "defaultCacheTime = Hour"

definition Repository_New :: repository where
  "Repository_New = \<lparr>r_namespace = ''cache'', r_name = [], r_defaultTTL = defaultCacheTime, r_tags = None, r_events = False\<rparr>"

definition Repository_Namespace :: "string \<Rightarrow> repository \<Rightarrow> repository" where
  "Repository_Namespace name r = r\<lparr>r_namespace := name\<rparr>"

definition Repository_GetName :: "repository \<Rightarrow> string" where
  "Repository_GetName r = (if r_name r \<noteq> [] then r_name r else r_namespace r)"

definition Repository_SetName :: "string \<Rightarrow> repository \<Rightarrow> repository" where
  "Repository_SetName name r = r\<lparr>r_name := name\<rparr>"

definition Repository_SetDefaultCacheTime :: "duration \<Rightarrow> repository \<Rightarrow> repository" where
  "Repository_SetDefaultCacheTime ttl r = r\<lparr>r_defaultTTL := ttl\<rparr>"

definition Repository_SetEventDispatcher :: "bool \<Rightarrow> repository \<Rightarrow> repository" where
  "Repository_SetEventDispatcher d r = r\<lparr>r_events := d\<rparr>"

definition Repository_Tags :: "string list \<Rightarrow> repository \<Rightarrow> repository go" where
  "Repository_Tags names r = (if names = [] then Inl NoTags else Inr (r\<lparr>r_tags := Some names\<rparr>))"

section \<open>Events\<close>

definition fire :: "repository \<Rightarrow> 'v cache_event \<Rightarrow> ('s, 'v) cworld \<Rightarrow> ('s, 'v) cworld" where
  "fire r e w = (if r_events r then w\<lparr>cw_fired := cw_fired w @ [e]\<rparr> else w)"

definition seconds :: "duration \<Rightarrow> int" where
  "seconds ttl = ttl sdiv Second"

definition eventRetrieving :: "repository \<Rightarrow> string \<Rightarrow> ('s, 'v) cworld \<Rightarrow> ('s, 'v) cworld" where
  "eventRetrieving r key = fire r (RetrievingKey (Repository_GetName r) key (r_tags r))"

definition eventHit :: "repository \<Rightarrow> string \<Rightarrow> 'v \<Rightarrow> ('s, 'v) cworld \<Rightarrow> ('s, 'v) cworld" where
  "eventHit r key value = fire r (CacheHit (Repository_GetName r) key value (r_tags r))"

definition eventMissed :: "repository \<Rightarrow> string \<Rightarrow> ('s, 'v) cworld \<Rightarrow> ('s, 'v) cworld" where
  "eventMissed r key = fire r (CacheMissed (Repository_GetName r) key (r_tags r))"

definition eventWriting :: "repository \<Rightarrow> string \<Rightarrow> 'v \<Rightarrow> duration \<Rightarrow> ('s, 'v) cworld \<Rightarrow> ('s, 'v) cworld" where
  "eventWriting r key value ttl = fire r (WritingKey (Repository_GetName r) key value (seconds ttl) (r_tags r))"

definition eventWritten :: "repository \<Rightarrow> string \<Rightarrow> 'v \<Rightarrow> duration \<Rightarrow> 'a go \<Rightarrow> ('s, 'v) cworld \<Rightarrow> ('s, 'v) cworld" where
  "eventWritten r key value ttl err =
     fire r (case err of
         Inl _ \<Rightarrow> KeyWriteFailed (Repository_GetName r) key value (seconds ttl) (r_tags r)
       | Inr _ \<Rightarrow> KeyWritten (Repository_GetName r) key value (seconds ttl) (r_tags r))"

definition eventForgetting :: "repository \<Rightarrow> string \<Rightarrow> ('s, 'v) cworld \<Rightarrow> ('s, 'v) cworld" where
  "eventForgetting r key = fire r (ForgettingKey (Repository_GetName r) key (r_tags r))"

definition eventForgotten :: "repository \<Rightarrow> string \<Rightarrow> 'a go \<Rightarrow> ('s, 'v) cworld \<Rightarrow> ('s, 'v) cworld" where
  "eventForgotten r key err =
     fire r (case err of
         Inl _ \<Rightarrow> KeyForgetFailed (Repository_GetName r) key (r_tags r)
       | Inr _ \<Rightarrow> KeyForgotten (Repository_GetName r) key (r_tags r))"

section \<open>Keys and tags\<close>

definition Repository_prefix :: "repository \<Rightarrow> grant \<Rightarrow> string go" where
  "Repository_prefix r g =
     (let tenant = Tenant g in
      if tenant = [] then Inl ErrNoTenant
      else if \<not> ValidTenant tenant then Inl (TenantNotInKey tenant)
      else if \<not> ValidTenant (r_namespace r) then Inl (NotANamespace (r_namespace r))
      else Inr (''cache:'' @ tenant @ '':'' @ r_namespace r @ '':''))"

definition TagSet_TagKey :: "grant \<Rightarrow> string \<Rightarrow> string go" where
  "TagSet_TagKey g name =
     (let tenant = Tenant g in
      if tenant = [] then Inl ErrNoTenant
      else if \<not> ValidTenant tenant then Inl (TenantNotInKey tenant)
      else if name = [] then Inl EmptyTag
      else if CHR '':'' \<in> set name then Inl (TagWithColon name)
      else Inr (''cache:'' @ tenant @ '':tag:'' @ name @ '':key''))"

text \<open>\<^verbatim>\<open>strconv.FormatInt(n, 36)\<close>.\<close>

definition digit36 :: "nat \<Rightarrow> char" where
  "digit36 n = (if n < 10 then char_of (48 + n) else char_of (87 + n))"

fun show36 :: "nat \<Rightarrow> string" where
  "show36 n = (if n < 36 then [digit36 n] else show36 (n div 36) @ [digit36 (n mod 36)])"

declare show36.simps [simp del]

definition format_int36 :: "int \<Rightarrow> string" where
  "format_int36 n = (if n < 0 then CHR ''-'' # show36 (nat (- n)) else show36 (nat n))"

definition newTagID :: "('s, 'v) cache_env \<Rightarrow> ('s, 'v, string) op" where
  "newTagID E w =
     (let w' = w\<lparr>cw_draws := cw_draws w + 1\<rparr> in
      case ce_random E (cw_draws w) of
        None \<Rightarrow> (Inl NoRandomness, w')
      | Some b \<Rightarrow> (Inr (format_int36 (ce_wall E) @ hex_encode b), w'))"

definition TagSet_ResetTag :: "('s, 'v) cache_env \<Rightarrow> grant \<Rightarrow> string \<Rightarrow> ('s, 'v, string) op" where
  "TagSet_ResetTag E g name =
     (case Writable g of
        Some err \<Rightarrow> give (Inl (FromAuth err))
      | None \<Rightarrow>
          and_then (give (TagSet_TagKey g name)) (\<lambda>key.
          and_then (newTagID E) (\<lambda>ident.
          and_then (on_store (Store_Put (ce_store E) (ce_now E) key ident foreverTTL)) (\<lambda>_.
          give (Inr ident)))))"

definition TagSet_TagID :: "('s, 'v) cache_env \<Rightarrow> grant \<Rightarrow> string \<Rightarrow> ('s, 'v, string) op" where
  "TagSet_TagID E g name =
     and_then (give (TagSet_TagKey g name)) (\<lambda>key w.
       case on_store (Store_Get (ce_store E) (ce_now E) key) w of
         (r, w') \<Rightarrow>
           (case r of
              Inr raw \<Rightarrow>
                if raw \<noteq> [] then (Inr raw, w')
                else if Writable g \<noteq> None then newTagID E w' else TagSet_ResetTag E g name w'
            | Inl err \<Rightarrow>
                if errors_is err ErrNotFound
                then if Writable g \<noteq> None then newTagID E w' else TagSet_ResetTag E g name w'
                else (Inl err, w')))"

fun TagSet_Reset :: "('s, 'v) cache_env \<Rightarrow> grant \<Rightarrow> string list \<Rightarrow> ('s, 'v, unit) op" where
  "TagSet_Reset E g [] = give (Inr ())"
| "TagSet_Reset E g (name # names) = and_then (TagSet_ResetTag E g name) (\<lambda>_. TagSet_Reset E g names)"

definition TagSet_FlushTag :: "('s, 'v) cache_env \<Rightarrow> grant \<Rightarrow> string \<Rightarrow> ('s, 'v, unit) op" where
  "TagSet_FlushTag E g name =
     (case Writable g of
        Some err \<Rightarrow> give (Inl (FromAuth err))
      | None \<Rightarrow>
          and_then (give (TagSet_TagKey g name)) (\<lambda>key.
          on_store (Store_Forget (ce_store E) (ce_now E) key)))"

fun TagSet_Flush :: "('s, 'v) cache_env \<Rightarrow> grant \<Rightarrow> string list \<Rightarrow> ('s, 'v, unit) op" where
  "TagSet_Flush E g [] = give (Inr ())"
| "TagSet_Flush E g (name # names) = and_then (TagSet_FlushTag E g name) (\<lambda>_. TagSet_Flush E g names)"

fun tag_ids :: "('s, 'v) cache_env \<Rightarrow> grant \<Rightarrow> string list \<Rightarrow> ('s, 'v, string list) op" where
  "tag_ids E g [] = give (Inr [])"
| "tag_ids E g (name # names) =
     and_then (TagSet_TagID E g name) (\<lambda>ident.
     and_then (tag_ids E g names) (\<lambda>ids. give (Inr (ident # ids))))"

text \<open>\<^verbatim>\<open>strings.Join\<close>.\<close>

fun join :: "string \<Rightarrow> string list \<Rightarrow> string" where
  "join sep [] = []"
| "join sep [x] = x"
| "join sep (x # y # xs) = x @ sep @ join sep (y # xs)"

definition TagSet_GetNamespace :: "('s, 'v) cache_env \<Rightarrow> grant \<Rightarrow> string list \<Rightarrow> ('s, 'v, string) op" where
  "TagSet_GetNamespace E g names = and_then (tag_ids E g names) (\<lambda>ids. give (Inr (join ''|'' ids)))"

definition digest :: "('s, 'v) cache_env \<Rightarrow> string \<Rightarrow> string" where
  "digest E namespace = hex_encode (ce_sha1 E namespace)"

definition taggedItemKey :: "('s, 'v) cache_env \<Rightarrow> grant \<Rightarrow> string list \<Rightarrow> string \<Rightarrow> ('s, 'v, string) op" where
  "taggedItemKey E g names key =
     and_then (TagSet_GetNamespace E g names) (\<lambda>namespace. give (Inr (digest E namespace @ '':'' @ key)))"

definition Repository_key :: "('s, 'v) cache_env \<Rightarrow> repository \<Rightarrow> grant \<Rightarrow> string \<Rightarrow> ('s, 'v, string) op" where
  "Repository_key E r g key =
     and_then (give (Repository_prefix r g)) (\<lambda>prefix.
       if key = [] then give (Inl EmptyKey)
       else case r_tags r of
         Some names \<Rightarrow> and_then (taggedItemKey E g names key) (\<lambda>tagged. give (Inr (prefix @ tagged)))
       | None \<Rightarrow> give (Inr (prefix @ key)))"

definition Repository_writeKey :: "('s, 'v) cache_env \<Rightarrow> repository \<Rightarrow> grant \<Rightarrow> string \<Rightarrow> ('s, 'v, string) op" where
  "Repository_writeKey E r g key =
     (case Writable g of Some err \<Rightarrow> give (Inl (FromAuth err)) | None \<Rightarrow> Repository_key E r g key)"

definition Repository_ItemKey :: "('s, 'v) cache_env \<Rightarrow> repository \<Rightarrow> grant \<Rightarrow> string \<Rightarrow> ('s, 'v, string) op" where
  "Repository_ItemKey = Repository_key"

section \<open>Writing\<close>

definition encode :: "('s, 'v) cache_env \<Rightarrow> 'v \<Rightarrow> bytes go" where
  "encode E v = (case ce_marshal E v of None \<Rightarrow> Inl Encoding | Some raw \<Rightarrow> Inr raw)"

definition Repository_Forget :: "('s, 'v) cache_env \<Rightarrow> repository \<Rightarrow> grant \<Rightarrow> string \<Rightarrow> ('s, 'v, unit) op" where
  "Repository_Forget E r g key =
     and_then (Repository_writeKey E r g key) (\<lambda>full w.
       case on_store (Store_Forget (ce_store E) (ce_now E) full) (eventForgetting r key w) of
         (err, w') \<Rightarrow> (err, eventForgotten r key err w'))"

definition put :: "('s, 'v) cache_env \<Rightarrow> repository \<Rightarrow> grant \<Rightarrow> string \<Rightarrow> 'v \<Rightarrow> duration \<Rightarrow> ('s, 'v, unit) op" where
  "put E r g key value ttl =
     and_then (Repository_writeKey E r g key) (\<lambda>full.
     and_then (give (encode E value)) (\<lambda>raw.
       if ttl \<le> 0 then give (Inl ErrNoTTL)
       else on_store (Store_Put (ce_store E) (ce_now E) full raw ttl)))"

definition Repository_Put :: "('s, 'v) cache_env \<Rightarrow> repository \<Rightarrow> grant \<Rightarrow> string \<Rightarrow> 'v \<Rightarrow> duration \<Rightarrow> ('s, 'v, unit) op" where
  "Repository_Put E r g key value ttl w =
     (if ttl \<le> 0 then Repository_Forget E r g key w
      else case put E r g key value ttl (eventWriting r key value ttl w) of
        (err, w') \<Rightarrow> (err, eventWritten r key value ttl err w'))"

definition Repository_Set :: "('s, 'v) cache_env \<Rightarrow> repository \<Rightarrow> grant \<Rightarrow> string \<Rightarrow> 'v \<Rightarrow> duration \<Rightarrow> ('s, 'v, unit) op" where
  "Repository_Set = Repository_Put"

definition Repository_Delete :: "('s, 'v) cache_env \<Rightarrow> repository \<Rightarrow> grant \<Rightarrow> string \<Rightarrow> ('s, 'v, unit) op" where
  "Repository_Delete = Repository_Forget"

fun Repository_DeleteMultiple :: "('s, 'v) cache_env \<Rightarrow> repository \<Rightarrow> grant \<Rightarrow> string list \<Rightarrow> ('s, 'v, unit) op" where
  "Repository_DeleteMultiple E r g [] = give (Inr ())"
| "Repository_DeleteMultiple E r g (key # keys) =
     and_then (Repository_Forget E r g key) (\<lambda>_. Repository_DeleteMultiple E r g keys)"

fun put_all :: "('s, 'v) cache_env \<Rightarrow> repository \<Rightarrow> grant \<Rightarrow> (string \<times> 'v) list \<Rightarrow> duration \<Rightarrow> ('s, 'v, unit) op" where
  "put_all E r g [] ttl = give (Inr ())"
| "put_all E r g ((key, value) # kvs) ttl =
     (\<lambda>w. case put E r g key value ttl w of
        (Inl err, w') \<Rightarrow> (Inl err, eventWritten r key value ttl (Inl err :: unit go) w')
      | (Inr x, w') \<Rightarrow> put_all E r g kvs ttl (eventWritten r key value ttl (Inr x) w'))"

definition first_key :: "string list \<Rightarrow> string" where
  "first_key keys = (case keys of [] \<Rightarrow> [] | k # _ \<Rightarrow> k)"

text \<open>The map of a batch is the list of its entries, in any order; the code sorts them by key.\<close>

definition Repository_PutMany :: "('s, 'v) cache_env \<Rightarrow> repository \<Rightarrow> grant \<Rightarrow> (string \<times> 'v) list \<Rightarrow> duration \<Rightarrow> ('s, 'v, unit) op" where
  "Repository_PutMany E r g values ttl w =
     (let kvs = sort_key fst values; keys = map fst kvs in
      if ttl \<le> 0 then Repository_DeleteMultiple E r g keys w
      else put_all E r g kvs ttl
        (fire r (WritingManyKeys (Repository_GetName r) (first_key keys) keys (map snd kvs) (seconds ttl) (r_tags r)) w))"

definition Repository_SetMultiple :: "('s, 'v) cache_env \<Rightarrow> repository \<Rightarrow> grant \<Rightarrow> (string \<times> 'v) list \<Rightarrow> duration \<Rightarrow> ('s, 'v, unit) op" where
  "Repository_SetMultiple = Repository_PutMany"

definition Repository_Add :: "('s, 'v) cache_env \<Rightarrow> repository \<Rightarrow> grant \<Rightarrow> string \<Rightarrow> 'v \<Rightarrow> duration \<Rightarrow> ('s, 'v, bool) op" where
  "Repository_Add E r g key value ttl =
     and_then (Repository_writeKey E r g key) (\<lambda>full.
     and_then (give (encode E value)) (\<lambda>raw.
       if ttl \<le> 0 then give (Inr False)
       else on_store (Store_Add (ce_store E) (ce_now E) full raw ttl)))"

definition Repository_Forever :: "('s, 'v) cache_env \<Rightarrow> repository \<Rightarrow> grant \<Rightarrow> string \<Rightarrow> 'v \<Rightarrow> ('s, 'v, unit) op" where
  "Repository_Forever E r g key value = Repository_Put E r g key value foreverTTL"

definition Repository_Increment :: "('s, 'v) cache_env \<Rightarrow> repository \<Rightarrow> grant \<Rightarrow> string \<Rightarrow> int \<Rightarrow> duration \<Rightarrow> ('s, 'v, int) op" where
  "Repository_Increment E r g key delta ttl =
     and_then (Repository_writeKey E r g key) (\<lambda>full.
       if ttl \<le> 0 then give (Inl ErrNoTTL)
       else on_store (Store_Increment (ce_store E) (ce_now E) full delta ttl))"

definition Repository_Decrement :: "('s, 'v) cache_env \<Rightarrow> repository \<Rightarrow> grant \<Rightarrow> string \<Rightarrow> int \<Rightarrow> duration \<Rightarrow> ('s, 'v, int) op" where
  "Repository_Decrement E r g key delta ttl = Repository_Increment E r g key (wrap64 (- delta)) ttl"

definition Repository_Flush :: "('s, 'v) cache_env \<Rightarrow> repository \<Rightarrow> grant \<Rightarrow> ('s, 'v, unit) op" where
  "Repository_Flush E r g =
     (case Writable g of
        Some err \<Rightarrow> give (Inl (FromAuth err))
      | None \<Rightarrow>
          and_then (give (Repository_prefix r g)) (\<lambda>prefix w.
            case on_store (Store_Flush (ce_store E) (ce_now E) prefix)
                   (fire r (CacheFlushing (Repository_GetName r) (r_tags r)) w) of
              (err, w') \<Rightarrow>
                (err, fire r (case err of
                    Inl _ \<Rightarrow> CacheFlushFailed (Repository_GetName r) (r_tags r)
                  | Inr _ \<Rightarrow> CacheFlushed (Repository_GetName r) (r_tags r)) w')))"

definition Repository_Clear :: "('s, 'v) cache_env \<Rightarrow> repository \<Rightarrow> grant \<Rightarrow> ('s, 'v, unit) op" where
  "Repository_Clear = Repository_Flush"

definition Repository_FlushLocks :: "('s, 'v) cache_env \<Rightarrow> repository \<Rightarrow> ('s, 'v, unit) op" where
  "Repository_FlushLocks E r w =
     (case as_CanFlushLocks (ce_store E) of
        None \<Rightarrow> (Inl (Unsupported ''flushing locks''), w)
      | Some flush \<Rightarrow>
          (case on_store (flush (ce_now E)) (fire r (CacheLocksFlushing (Repository_GetName r)) w) of
             (err, w') \<Rightarrow>
               (err, fire r (case err of
                   Inl _ \<Rightarrow> CacheLocksFlushFailed (Repository_GetName r)
                 | Inr _ \<Rightarrow> CacheLocksFlushed (Repository_GetName r)) w')))"

definition Repository_Touch :: "('s, 'v) cache_env \<Rightarrow> repository \<Rightarrow> grant \<Rightarrow> string \<Rightarrow> duration \<Rightarrow> ('s, 'v, bool) op" where
  "Repository_Touch E r g key ttl =
     and_then (Repository_writeKey E r g key) (\<lambda>full w.
       let ttl = (if ttl \<le> 0 then foreverTTL else ttl) in
       case as_Touch (ce_store E) of
         Some touch \<Rightarrow> on_store (touch (ce_now E) full ttl) w
       | None \<Rightarrow>
           (case on_store (Store_Get (ce_store E) (ce_now E) full) w of
              (Inl err, w') \<Rightarrow> if errors_is err ErrNotFound then (Inr False, w') else (Inl err, w')
            | (Inr raw, w') \<Rightarrow>
                and_then (on_store (Store_Put (ce_store E) (ce_now E) full raw ttl)) (\<lambda>_. give (Inr True)) w'))"

text \<open>A lock of the store, taken and released while the rest of the world stays in place.\<close>

definition world_locking :: "'s locking \<Rightarrow> ('s, 'v) cworld locking" where
  "world_locking L = \<lparr>
     AcquireLock = (\<lambda>now key token ttl. on_store (AcquireLock L now key token ttl)),
     ReleaseLock = (\<lambda>now key token. on_store (ReleaseLock L now key token))\<rparr>"

definition Repository_WithoutOverlapping ::
  "('s, 'v) cache_env \<Rightarrow> ('s, 'v) cworld surroundings \<Rightarrow> repository \<Rightarrow> grant \<Rightarrow> string \<Rightarrow> ('s, 'v, unit) op option \<Rightarrow>
   duration \<Rightarrow> duration \<Rightarrow> instant \<Rightarrow> ('s, 'v, unit) op" where
  "Repository_WithoutOverlapping E sur r g key fn lockFor waitFor finish w =
     (case as_Locking (ce_store E) of
        None \<Rightarrow> (Inl (Unsupported ''holding a lock''), w)
      | Some L \<Rightarrow>
          and_then (Repository_writeKey E r g key) (\<lambda>full w.
            let lockFor = (if lockFor \<le> 0 then foreverTTL else lockFor);
                lk = \<lparr>lk_name = full, lk_ttl = lockFor, lk_owner = [], lk_held = False, lk_sleep = 0\<rparr> in
            case Lock_Block (world_locking L) sur (ce_now E) waitFor finish fn lk w of (err, _, w') \<Rightarrow> (err, w')) w)"

section \<open>Reading\<close>

definition decode :: "(bytes \<Rightarrow> 'a option) \<Rightarrow> bytes \<Rightarrow> 'a go" where
  "decode dec raw = (case dec raw of None \<Rightarrow> Inl Decoding | Some v \<Rightarrow> Inr v)"

text \<open>\<open>dec\<close> is \<^verbatim>\<open>decode[T]\<close> and \<open>to_any\<close> sees a value of \<^verbatim>\<open>T\<close> as a dynamic value.\<close>

definition get ::
  "('s, 'v) cache_env \<Rightarrow> ('t \<Rightarrow> 'v) \<Rightarrow> (bytes \<Rightarrow> 't option) \<Rightarrow> repository \<Rightarrow> string \<Rightarrow> string \<Rightarrow> ('s, 'v, 't) op" where
  "get E to_any dec r full key w =
     (case on_store (Store_Get (ce_store E) (ce_now E) full) w of
        (Inl err, w') \<Rightarrow> (Inl err, eventMissed r key w')
      | (Inr raw, w') \<Rightarrow>
          (case decode dec raw of
             Inl err \<Rightarrow> (Inl err, eventMissed r key w')
           | Inr value \<Rightarrow> (Inr value, eventHit r key (to_any value) w')))"

definition Get ::
  "('s, 'v) cache_env \<Rightarrow> ('t \<Rightarrow> 'v) \<Rightarrow> (bytes \<Rightarrow> 't option) \<Rightarrow> repository \<Rightarrow> grant \<Rightarrow> string \<Rightarrow> ('s, 'v, 't) op" where
  "Get E to_any dec r g key =
     and_then (Repository_key E r g key) (\<lambda>full w. get E to_any dec r full key (eventRetrieving r key w))"

definition Repository_Has :: "('s, 'v) cache_env \<Rightarrow> (bytes \<Rightarrow> 'v option) \<Rightarrow> repository \<Rightarrow> grant \<Rightarrow> string \<Rightarrow> ('s, 'v, bool) op" where
  "Repository_Has E dec r g key w =
     (case Get E (\<lambda>v. v) dec r g key w of
        (Inl err, w') \<Rightarrow> if errors_is err ErrNotFound then (Inr False, w') else (Inl err, w')
      | (Inr _, w') \<Rightarrow> (Inr True, w'))"

definition Repository_Missing :: "('s, 'v) cache_env \<Rightarrow> (bytes \<Rightarrow> 'v option) \<Rightarrow> repository \<Rightarrow> grant \<Rightarrow> string \<Rightarrow> ('s, 'v, bool) op" where
  "Repository_Missing E dec r g key = and_then (Repository_Has E dec r g key) (\<lambda>has. give (Inr (\<not> has)))"

fun many_read ::
  "('s, 'v) cache_env \<Rightarrow> ('t \<Rightarrow> 'v) \<Rightarrow> (bytes \<Rightarrow> 't option) \<Rightarrow> 't \<Rightarrow> repository \<Rightarrow> grant \<Rightarrow> string list \<Rightarrow> (string \<rightharpoonup> 't) \<Rightarrow>
   ('s, 'v, string \<rightharpoonup> 't) op" where
  "many_read E to_any dec zero r g [] out = give (Inr out)"
| "many_read E to_any dec zero r g (key # keys) out =
     and_then (Repository_key E r g key) (\<lambda>full w.
       case get E to_any dec r full key w of
         (Inr v, w') \<Rightarrow> many_read E to_any dec zero r g keys (out(key \<mapsto> v)) w'
       | (Inl err, w') \<Rightarrow>
           if errors_is err ErrNotFound then many_read E to_any dec zero r g keys (out(key \<mapsto> zero)) w'
           else (Inl err, w'))"

definition Many ::
  "('s, 'v) cache_env \<Rightarrow> ('t \<Rightarrow> 'v) \<Rightarrow> (bytes \<Rightarrow> 't option) \<Rightarrow> 't \<Rightarrow> repository \<Rightarrow> grant \<Rightarrow> string list \<Rightarrow>
   ('s, 'v, string \<rightharpoonup> 't) op" where
  "Many E to_any dec zero r g keys w =
     many_read E to_any dec zero r g keys Map.empty
       (fire r (RetrievingManyKeys (Repository_GetName r) (first_key keys) keys (r_tags r)) w)"

definition GetMultiple ::
  "('s, 'v) cache_env \<Rightarrow> ('t \<Rightarrow> 'v) \<Rightarrow> (bytes \<Rightarrow> 't option) \<Rightarrow> 't \<Rightarrow> repository \<Rightarrow> grant \<Rightarrow> string list \<Rightarrow>
   ('s, 'v, string \<rightharpoonup> 't) op" where
  "GetMultiple = Many"

text \<open>\<^verbatim>\<open>Pull\<close> answers the value it read even with the error of a \<^verbatim>\<open>Forget\<close> that failed: a value, where
  \<^const>\<open>None\<close> is the zero of the type, and an error, where \<^const>\<open>None\<close> is nil.\<close>

definition Pull ::
  "('s, 'v) cache_env \<Rightarrow> ('t \<Rightarrow> 'v) \<Rightarrow> (bytes \<Rightarrow> 't option) \<Rightarrow> repository \<Rightarrow> grant \<Rightarrow> string \<Rightarrow>
   ('s, 'v) cworld \<Rightarrow> ('t option \<times> cache_error option) \<times> ('s, 'v) cworld" where
  "Pull E to_any dec r g key w =
     (case Get E to_any dec r g key w of
        (Inl err, w') \<Rightarrow> ((None, Some err), w')
      | (Inr v, w') \<Rightarrow>
          (case Repository_Forget E r g key w' of
             (Inl err, w'') \<Rightarrow> ((Some v, Some err), w'')
           | (Inr _, w'') \<Rightarrow> ((Some v, None), w'')))"

text \<open>What a type switch sees of a decoded value: \<^verbatim>\<open>json.Number\<close> keeps the digits as written.\<close>

datatype any_view =
    IsNull | IsBool bool | IsNumber string | IsString string | IsArray | IsObject | IsOther

definition Repository_String ::
  "('s, 'v) cache_env \<Rightarrow> (bytes \<Rightarrow> 'v option) \<Rightarrow> ('v \<Rightarrow> any_view) \<Rightarrow> repository \<Rightarrow> grant \<Rightarrow> string \<Rightarrow> ('s, 'v, string) op" where
  "Repository_String E dec view r g key =
     and_then (Get E (\<lambda>v. v) dec r g key) (\<lambda>v.
       case view v of IsString s \<Rightarrow> give (Inr s) | _ \<Rightarrow> give (Inl (WrongType key ''a string'')))"

definition Repository_Integer ::
  "('s, 'v) cache_env \<Rightarrow> (bytes \<Rightarrow> 'v option) \<Rightarrow> ('v \<Rightarrow> any_view) \<Rightarrow> repository \<Rightarrow> grant \<Rightarrow> string \<Rightarrow> ('s, 'v, int) op" where
  "Repository_Integer E dec view r g key =
     and_then (Get E (\<lambda>v. v) dec r g key) (\<lambda>v.
       let parsed = (\<lambda>n. case parse_int n of None \<Rightarrow> give (Inl (WrongType key ''an integer'')) | Some i \<Rightarrow> give (Inr i)) in
       case view v of
         IsNumber n \<Rightarrow> parsed n
       | IsString n \<Rightarrow> parsed n
       | _ \<Rightarrow> give (Inl (WrongType key ''an integer'')))"

definition Repository_Boolean ::
  "('s, 'v) cache_env \<Rightarrow> (bytes \<Rightarrow> 'v option) \<Rightarrow> ('v \<Rightarrow> any_view) \<Rightarrow> repository \<Rightarrow> grant \<Rightarrow> string \<Rightarrow> ('s, 'v, bool) op" where
  "Repository_Boolean E dec view r g key =
     and_then (Get E (\<lambda>v. v) dec r g key) (\<lambda>v.
       case view v of IsBool b \<Rightarrow> give (Inr b) | _ \<Rightarrow> give (Inl (WrongType key ''a boolean'')))"

definition Repository_Array ::
  "('s, 'v) cache_env \<Rightarrow> (bytes \<Rightarrow> 'v option) \<Rightarrow> ('v \<Rightarrow> any_view) \<Rightarrow> repository \<Rightarrow> grant \<Rightarrow> string \<Rightarrow> ('s, 'v, 'v) op" where
  "Repository_Array E dec view r g key =
     and_then (Get E (\<lambda>v. v) dec r g key) (\<lambda>v.
       case view v of IsArray \<Rightarrow> give (Inr v) | _ \<Rightarrow> give (Inl (WrongType key ''an array'')))"

section \<open>Computing on a miss\<close>

definition roundTrip :: "('s, 'v) cache_env \<Rightarrow> ('t \<Rightarrow> 'v) \<Rightarrow> (bytes \<Rightarrow> 't option) \<Rightarrow> 't \<Rightarrow> 't go" where
  "roundTrip E to_any dec v = (case encode E (to_any v) of Inl err \<Rightarrow> Inl err | Inr raw \<Rightarrow> decode dec raw)"

text \<open>The callback runs in the same world: it may use the cache itself.\<close>

definition Remember ::
  "('s, 'v) cache_env \<Rightarrow> ('t \<Rightarrow> 'v) \<Rightarrow> (bytes \<Rightarrow> 't option) \<Rightarrow> repository \<Rightarrow> grant \<Rightarrow> string \<Rightarrow> duration \<Rightarrow>
   ('s, 'v, 't) op \<Rightarrow> ('s, 'v, 't) op" where
  "Remember E to_any dec r g key ttl compute =
     and_then (Repository_key E r g key) (\<lambda>_ w.
       if ttl \<le> 0 then (Inl ErrNoTTL, w)
       else case Get E to_any dec r g key w of
         (Inr v, w') \<Rightarrow> (Inr v, w')
       | (Inl _, w') \<Rightarrow>
           and_then compute (\<lambda>computed.
           and_then (give (roundTrip E to_any dec computed)) (\<lambda>settled w.
             (Inr settled, snd (Repository_Put E r g key (to_any computed) ttl w)))) w')"

definition RememberForever ::
  "('s, 'v) cache_env \<Rightarrow> ('t \<Rightarrow> 'v) \<Rightarrow> (bytes \<Rightarrow> 't option) \<Rightarrow> repository \<Rightarrow> grant \<Rightarrow> string \<Rightarrow>
   ('s, 'v, 't) op \<Rightarrow> ('s, 'v, 't) op" where
  "RememberForever E to_any dec r g key compute = Remember E to_any dec r g key foreverTTL compute"

definition Sear ::
  "('s, 'v) cache_env \<Rightarrow> ('t \<Rightarrow> 'v) \<Rightarrow> (bytes \<Rightarrow> 't option) \<Rightarrow> repository \<Rightarrow> grant \<Rightarrow> string \<Rightarrow>
   ('s, 'v, 't) op \<Rightarrow> ('s, 'v, 't) op" where
  "Sear = RememberForever"

definition flexibleCreatedKey :: "string \<Rightarrow> string" where
  "flexibleCreatedKey key = ''flexible:created:'' @ key"

definition flexibleLockKey :: "string \<Rightarrow> string" where
  "flexibleLockKey key = ''flexible:'' @ key"

text \<open>\<^verbatim>\<open>time.Time.Unix\<close>: whole seconds, rounded down.\<close>

definition unix_seconds :: "instant \<Rightarrow> int" where
  "unix_seconds t = t div Second"

definition flexibleRefresh ::
  "('s, 'v) cache_env \<Rightarrow> ('t \<Rightarrow> 'v) \<Rightarrow> (bytes \<Rightarrow> 't option) \<Rightarrow> repository \<Rightarrow> grant \<Rightarrow> string \<Rightarrow> string \<Rightarrow> duration \<Rightarrow>
   ('s, 'v, 't) op \<Rightarrow> ('s, 'v, 't) op" where
  "flexibleRefresh E to_any dec r g key createdKey stale compute =
     and_then compute (\<lambda>computed.
     and_then (give (roundTrip E to_any dec computed)) (\<lambda>settled w.
       case Repository_Put E r g key (to_any computed) stale w of
         (Inl _, w') \<Rightarrow> (Inr settled, w')
       | (Inr _, w') \<Rightarrow>
           (Inr settled, snd (Repository_Put E r g createdKey (ce_int64 E (unix_seconds (ce_now E))) stale w'))))"

text \<open>\<^verbatim>\<open>Flexible\<close> answers the value and, when it went stale, the stamp the background refresh is
  started with; \<open>flexible_background\<close> is the body of that goroutine.\<close>

definition Flexible ::
  "('s, 'v) cache_env \<Rightarrow> ('t \<Rightarrow> 'v) \<Rightarrow> (bytes \<Rightarrow> 't option) \<Rightarrow> (bytes \<Rightarrow> int option) \<Rightarrow> repository \<Rightarrow> grant \<Rightarrow> string \<Rightarrow>
   duration \<Rightarrow> duration \<Rightarrow> ('s, 'v, 't) op \<Rightarrow> ('s, 'v, 't \<times> int option) op" where
  "Flexible E to_any dec dec64 r g key fresh stale compute =
     and_then (Repository_key E r g key) (\<lambda>_ w.
       if fresh \<le> 0 \<or> stale \<le> 0 then (Inl ErrNoTTL, w)
       else if fresh > stale then (Inl (FlexibleOrder key fresh stale), w)
       else case Get E to_any dec r g key w of (value, w1) \<Rightarrow>
         (case Get E (ce_int64 E) dec64 r g (flexibleCreatedKey key) w1 of (created, w2) \<Rightarrow>
           (let refresh = and_then (flexibleRefresh E to_any dec r g key (flexibleCreatedKey key) stale compute)
                            (\<lambda>v. give (Inr (v, None))) in
            case value of
              Inl err \<Rightarrow> if \<not> errors_is err ErrNotFound then (Inl err, w2) else refresh w2
            | Inr v \<Rightarrow>
                (case created of
                   Inl _ \<Rightarrow> refresh w2
                 | Inr c \<Rightarrow>
                     if c * Second + fresh > ce_now E then (Inr (v, None), w2)
                     else if Writable g \<noteq> None then (Inr (v, None), w2)
                     else (Inr (v, Some c), w2)))))"

definition flexible_background ::
  "('s, 'v) cache_env \<Rightarrow> ('t \<Rightarrow> 'v) \<Rightarrow> (bytes \<Rightarrow> 't option) \<Rightarrow> (bytes \<Rightarrow> int option) \<Rightarrow> repository \<Rightarrow> grant \<Rightarrow> string \<Rightarrow>
   duration \<Rightarrow> int \<Rightarrow> ('s, 'v, 't) op \<Rightarrow> bytes option \<Rightarrow> instant \<Rightarrow> ('s, 'v, unit) op" where
  "flexible_background E to_any dec dec64 r g key stale created compute rnd finish w =
     (let refresh = (\<lambda>w.
        case Get E (ce_int64 E) dec64 r g (flexibleCreatedKey key) w of (now, w1) \<Rightarrow>
          if (case now of Inr c \<Rightarrow> c \<noteq> created | Inl _ \<Rightarrow> False) then (Inr (), w1)
          else and_then (flexibleRefresh E to_any dec r g key (flexibleCreatedKey key) stale compute) (\<lambda>_. give (Inr ())) w1) in
      case as_Locking (ce_store E) of
        None \<Rightarrow> (Inr (), snd (refresh w))
      | Some L \<Rightarrow>
          (case Repository_key E r g (flexibleLockKey key) w of
             (Inl _, w1) \<Rightarrow> (Inr (), w1)
           | (Inr full, w1) \<Rightarrow>
               (let lk = \<lparr>lk_name = full, lk_ttl = stale, lk_owner = [], lk_held = False, lk_sleep = 0\<rparr> in
                case Lock_Run (world_locking L) rnd (ce_now E) finish refresh lk w1 of (_, _, w2) \<Rightarrow> (Inr (), w2))))"

section \<open>The tagged cache\<close>

definition TaggedCache_Flush :: "('s, 'v) cache_env \<Rightarrow> repository \<Rightarrow> grant \<Rightarrow> string list \<Rightarrow> ('s, 'v, unit) op" where
  "TaggedCache_Flush E r g names w =
     (case TagSet_Reset E g names (fire r (CacheFlushing (Repository_GetName r) (r_tags r)) w) of
        (err, w') \<Rightarrow>
          (err, fire r (case err of
              Inl _ \<Rightarrow> CacheFlushFailed (Repository_GetName r) (r_tags r)
            | Inr _ \<Rightarrow> CacheFlushed (Repository_GetName r) (r_tags r)) w'))"

definition TaggedCache_Clear :: "('s, 'v) cache_env \<Rightarrow> repository \<Rightarrow> grant \<Rightarrow> string list \<Rightarrow> ('s, 'v, unit) op" where
  "TaggedCache_Clear = TaggedCache_Flush"

definition TaggedCache_TaggedItemKey :: "('s, 'v) cache_env \<Rightarrow> repository \<Rightarrow> grant \<Rightarrow> string \<Rightarrow> ('s, 'v, string) op" where
  "TaggedCache_TaggedItemKey = Repository_key"

section \<open>Where an operation writes\<close>

text \<open>The keys of a tenant: its entries and its tag generations.\<close>

definition tenant_keys :: "string \<Rightarrow> string \<Rightarrow> bool" where
  "tenant_keys tenant k = has_prefix k (''cache:'' @ tenant @ '':'')"

lemma on_store_simps [simp]:
  "fst (on_store f w) = fst (f (cw_store w))" "cw_store (snd (on_store f w)) = snd (f (cw_store w))"
  "cw_fired (snd (on_store f w)) = cw_fired w" "cw_draws (snd (on_store f w)) = cw_draws w"
  by (simp_all add: on_store_def split: prod.split)

lemma fire_store [simp]: "cw_store (fire r e w) = cw_store w"
  by (simp add: fire_def)

lemmas event_defs = eventRetrieving_def eventHit_def eventMissed_def eventWriting_def eventWritten_def
  eventForgetting_def eventForgotten_def

lemma event_store [simp]:
  "cw_store (eventRetrieving r key w) = cw_store w" "cw_store (eventHit r key v w) = cw_store w"
  "cw_store (eventMissed r key w) = cw_store w" "cw_store (eventWriting r key v ttl w) = cw_store w"
  "cw_store (eventWritten r key v ttl err w) = cw_store w" "cw_store (eventForgetting r key w) = cw_store w"
  "cw_store (eventForgotten r key err' w) = cw_store w"
  by (simp_all add: event_defs)

lemma newTagID_store [simp]: "cw_store (snd (newTagID E w)) = cw_store w"
  by (simp add: newTagID_def Let_def split: option.split)

context touch_contract
begin

text \<open>\<open>within now A m\<close>: the operation \<open>m\<close> keeps the store's invariant and changes no live entry
  outside \<open>A\<close>.\<close>

definition confined :: "instant \<Rightarrow> (string \<Rightarrow> bool) \<Rightarrow> ('s, 'v) cworld \<Rightarrow> ('s, 'v) cworld \<Rightarrow> bool" where
  "confined now A w w' \<longleftrightarrow> (invar (cw_store w) \<longrightarrow> invar (cw_store w') \<and>
     (\<forall>t k. now \<le> t \<longrightarrow> \<not> A k \<longrightarrow> live_at t (snap (cw_store w')) k = live_at t (snap (cw_store w)) k))"

definition within :: "instant \<Rightarrow> (string \<Rightarrow> bool) \<Rightarrow> ('s, 'v, 'a) op \<Rightarrow> bool" where
  "within now A m \<longleftrightarrow> (\<forall>w. confined now A w (snd (m w)))"

lemma confined_same: "cw_store w' = cw_store w \<Longrightarrow> confined now A w w'"
  by (simp add: confined_def)

lemma confined_trans: "confined now A w w' \<Longrightarrow> confined now A w' w'' \<Longrightarrow> confined now A w w''"
  by (simp add: confined_def)

lemma withinI: "(\<And>w. confined now A w (snd (m w))) \<Longrightarrow> within now A m"
  by (simp add: within_def)

lemma within_confined: "within now A m \<Longrightarrow> confined now A w (snd (m w))"
  by (simp add: within_def)

lemma withinD: "within now A m \<Longrightarrow> m w = (r, w') \<Longrightarrow> confined now A w w'"
  unfolding within_def by (metis snd_conv)

lemma within_give [intro, simp]: "within now A (give r)"
  by (simp add: within_def give_def confined_same)

lemma within_and_then [intro]:
  assumes "within now A m" "\<And>x. within now A (f x)"
  shows "within now A (and_then m f)"
proof (rule withinI)
  fix w
  obtain r w' where r: "m w = (r, w')" by (cases "m w")
  have "confined now A w w'" using withinD [OF assms(1) r] .
  moreover have "confined now A w' (snd (f x w'))" for x using assms(2) by (simp add: within_def)
  ultimately show "confined now A w (snd (and_then m f w))"
    by (auto simp: and_then_def r intro: confined_trans split: sum.split)
qed

lemma within_newTagID [intro]: "within now A (newTagID E)"
  by (rule withinI) (simp add: confined_same)

lemma within_get: "within now A (on_store (Store_Get St now k))"
  by (rule withinI) (simp add: confined_def get_invar get_keeps)

lemma within_forget: "A k \<Longrightarrow> within now A (on_store (Store_Forget St now k))"
  by (rule withinI) (auto simp: confined_def forget_invar forget_snap)

lemma within_flush: "(\<And>k. has_prefix k p \<Longrightarrow> A k) \<Longrightarrow> within now A (on_store (Store_Flush St now p))"
  by (rule withinI) (auto simp: confined_def flush_invar flush_snap)

lemma within_put: "A k \<Longrightarrow> within now A (on_store (Store_Put St now k v ttl))"
proof (rule withinI)
  fix w assume "A k"
  then show "confined now A w (snd (on_store (Store_Put St now k v ttl) w))"
    by (cases "0 < ttl") (auto simp: confined_def put_invar put_snap live_at_upd put_refuses)
qed

lemma within_add: "A k \<Longrightarrow> within now A (on_store (Store_Add St now k v ttl))"
proof (rule withinI)
  fix w assume "A k"
  then show "confined now A w (snd (on_store (Store_Add St now k v ttl) w))"
    by (cases "0 < ttl") (auto simp: confined_def add_invar add_snap live_at_upd add_refuses)
qed

lemma within_increment: "A k \<Longrightarrow> within now A (on_store (Store_Increment St now k d ttl))"
proof (rule withinI)
  fix w assume "A k"
  then show "confined now A w (snd (on_store (Store_Increment St now k d ttl) w))"
    by (cases "0 < ttl") (auto simp: confined_def increment_invar increment_snap live_at_upd increment_refuses split: option.split)
qed

lemma within_touch: "A k \<Longrightarrow> as_Touch St = Some touch \<Longrightarrow> 0 < ttl \<Longrightarrow> within now A (on_store (touch now k ttl))"
  by (rule withinI) (auto simp: confined_def touch_invar touch_snap live_at_upd split: option.split)

lemma within_and_then_result:
  assumes "within now A m" "\<And>w x w'. m w = (Inr x, w') \<Longrightarrow> within now A (f x)"
  shows "within now A (and_then m f)"
proof (rule withinI)
  fix w
  obtain r w' where r: "m w = (r, w')" by (cases "m w")
  have c: "confined now A w w'" using withinD [OF assms(1) r] .
  show "confined now A w (snd (and_then m f w))"
  proof (cases r)
    case (Inl err)
    with r c show ?thesis by (simp add: and_then_def)
  next
    case (Inr x)
    with assms(2) r have "within now A (f x)" by simp
    then have "confined now A w' (snd (f x w'))" by (simp add: within_def)
    with r c Inr show ?thesis by (auto simp: and_then_def intro: confined_trans)
  qed
qed

lemma within_around:
  assumes "within now A m" "\<And>w. cw_store (pre w) = cw_store w" "\<And>r w. cw_store (post r w) = cw_store w"
  shows "within now A (\<lambda>w. case m (pre w) of (r, w') \<Rightarrow> (h r, post r w'))"
proof (rule withinI)
  fix w
  obtain r w' where r: "m (pre w) = (r, w')" by (cases "m (pre w)")
  have "confined now A (pre w) w'" using withinD [OF assms(1) r] .
  then show "confined now A w (snd (case m (pre w) of (r, w') \<Rightarrow> (h r, post r w')))"
    by (simp add: r confined_def assms(2,3))
qed

text \<open>\<open>may_write g A\<close>: what the grant may write is in \<open>A\<close>; a grant that only reads writes nothing.\<close>

definition may_write :: "grant \<Rightarrow> (string \<Rightarrow> bool) \<Rightarrow> bool" where
  "may_write g A \<longleftrightarrow> (Writable g = None \<longrightarrow> ValidTenant (Tenant g) \<longrightarrow> (\<forall>k. tenant_keys (Tenant g) k \<longrightarrow> A k))"

end

lemma TagKey_tenant: "TagSet_TagKey g name = Inr key \<Longrightarrow> ValidTenant (Tenant g) \<and> tenant_keys (Tenant g) key"
  by (auto simp: TagSet_TagKey_def tenant_keys_def has_prefix_iff Let_def split: if_splits)

lemma prefix_tenant: "Repository_prefix r g = Inr p \<Longrightarrow> ValidTenant (Tenant g) \<and> tenant_keys (Tenant g) (p @ k)"
  by (auto simp: Repository_prefix_def tenant_keys_def has_prefix_iff Let_def split: if_splits)

lemma and_then_Inr: "and_then m f w = (Inr y, w'') \<longleftrightarrow> (\<exists>x w'. m w = (Inr x, w') \<and> f x w' = (Inr y, w''))"
  by (auto simp: and_then_def split: prod.split sum.split)

lemma give_Inr [simp]: "give r w = (r', w') \<longleftrightarrow> r = r' \<and> w' = w"
  by (auto simp: give_def)

lemma key_tenant:
  assumes "Repository_key E r g key w = (Inr full, w')"
  shows "ValidTenant (Tenant g) \<and> tenant_keys (Tenant g) full"
  using assms by (auto simp: Repository_key_def and_then_Inr dest: prefix_tenant split: if_splits option.splits)

lemma writeKey_tenant:
  assumes "Repository_writeKey E r g key w = (Inr full, w')"
  shows "Writable g = None" "ValidTenant (Tenant g)" "tenant_keys (Tenant g) full"
  using assms by (auto simp: Repository_writeKey_def dest: key_tenant split: option.splits)

text \<open>A repository over a store that keeps the contract.\<close>

locale repository_over = touch_contract "ce_store E" invar snap
  for E :: "('s, 'v) cache_env" and invar :: "'s \<Rightarrow> bool" and snap :: "'s \<Rightarrow> snapshot"
begin

abbreviation stays :: "(string \<Rightarrow> bool) \<Rightarrow> ('s, 'v, 'a) op \<Rightarrow> bool" where
  "stays \<equiv> within (ce_now E)"

lemma within_tag_key:
  assumes "may_write g A" "Writable g = None" "\<And>key. A key \<Longrightarrow> stays A (f key)"
  shows "stays A (and_then (give (TagSet_TagKey g name)) f)"
  by (rule within_and_then_result [OF within_give])
     (use assms in \<open>auto simp: may_write_def dest: TagKey_tenant\<close>)

lemma within_ResetTag: "may_write g A \<Longrightarrow> stays A (TagSet_ResetTag E g name)"
  unfolding TagSet_ResetTag_def
  by (cases "Writable g") (simp_all add: within_tag_key within_and_then within_newTagID within_put)

lemma within_Reset: "may_write g A \<Longrightarrow> stays A (TagSet_Reset E g names)"
  by (induction names) (auto intro: within_ResetTag)

lemma within_FlushTag: "may_write g A \<Longrightarrow> stays A (TagSet_FlushTag E g name)"
  unfolding TagSet_FlushTag_def
  by (cases "Writable g") (simp_all add: within_tag_key within_forget)

lemma within_TagSet_Flush: "may_write g A \<Longrightarrow> stays A (TagSet_Flush E g names)"
  by (induction names) (auto intro: within_FlushTag)

lemma within_TagID:
  assumes "may_write g A"
  shows "stays A (TagSet_TagID E g name)"
proof -
  have mint: "confined (ce_now E) A w (snd (if Writable g \<noteq> None then newTagID E w else TagSet_ResetTag E g name w))" for w
    using within_ResetTag [OF assms, of name] by (auto simp: within_def confined_same)
  show ?thesis unfolding TagSet_TagID_def
  proof (intro within_and_then within_give withinI, goal_cases)
    case (1 key w)
    obtain r w' where r: "on_store (Store_Get (ce_store E) (ce_now E) key) w = (r, w')" by fastforce
    have "confined (ce_now E) A w w'" by (rule withinD [OF within_get r])
    with mint [of w'] show ?case by (auto simp: r intro: confined_trans split: sum.split)
  qed
qed

lemma within_tag_ids: "may_write g A \<Longrightarrow> stays A (tag_ids E g names)"
  by (induction names) (auto intro!: within_and_then within_TagID)

lemma within_key: "may_write g A \<Longrightarrow> stays A (Repository_key E r g key)"
  by (cases "r_tags r") (auto simp: Repository_key_def taggedItemKey_def TagSet_GetNamespace_def
    intro!: within_and_then within_tag_ids)

lemma within_writeKey: "may_write g A \<Longrightarrow> stays A (Repository_writeKey E r g key)"
  by (auto simp: Repository_writeKey_def intro: within_key split: option.split)

lemma within_writing:
  assumes "may_write g A" "\<And>full. A full \<Longrightarrow> stays A (f full)"
  shows "stays A (and_then (Repository_writeKey E r g key) f)"
proof (rule within_and_then_result [OF within_writeKey [OF assms(1)]])
  fix w x w' assume "Repository_writeKey E r g key w = (Inr x, w')"
  from writeKey_tenant [OF this] assms show "stays A (f x)" by (simp add: may_write_def)
qed

lemma within_Forget: "may_write g A \<Longrightarrow> stays A (Repository_Forget E r g key)"
  unfolding Repository_Forget_def
  by (intro within_writing within_around [where h = "\<lambda>r. r"] within_forget) (simp_all add: event_defs)

lemma within_put_value: "may_write g A \<Longrightarrow> stays A (put E r g key value ttl)"
  unfolding put_def by (intro within_writing within_and_then within_give) (simp_all add: within_put)

lemma within_Put: "may_write g A \<Longrightarrow> stays A (Repository_Put E r g key value ttl)"
proof (cases "ttl \<le> 0")
  case False
  assume "may_write g A"
  then have "stays A (\<lambda>w. case put E r g key value ttl (eventWriting r key value ttl w) of
      (err, w') \<Rightarrow> (err, eventWritten r key value ttl err w'))"
    by (intro within_around [where h = "\<lambda>r. r"] within_put_value) (simp_all add: event_defs)
  with False show ?thesis by (simp add: within_def Repository_Put_def)
qed (simp add: within_def Repository_Put_def within_Forget [unfolded within_def])

lemma within_DeleteMultiple: "may_write g A \<Longrightarrow> stays A (Repository_DeleteMultiple E r g keys)"
  by (induction keys) (auto intro: within_Forget)

lemma within_put_all: "may_write g A \<Longrightarrow> stays A (put_all E r g kvs ttl)"
proof (induction kvs)
  case (Cons kv kvs)
  obtain key val where kv: "kv = (key, val)" by (cases kv)
  show ?case
  proof (rule withinI)
    fix w
    obtain res w' where r: "put E r g key val ttl w = (res, w')" by fastforce
    have "confined (ce_now E) A w w'" by (rule withinD [OF within_put_value [OF Cons.prems] r])
    moreover have "confined (ce_now E) A w' (eventWritten r key val ttl res w')"
      by (rule confined_same) (simp add: event_defs)
    moreover have "confined (ce_now E) A w'' (snd (put_all E r g kvs ttl w''))" for w''
      using Cons by (simp add: within_def)
    ultimately show "confined (ce_now E) A w (snd (put_all E r g (kv # kvs) ttl w))"
      by (cases res) (auto simp: kv r intro: confined_trans)
  qed
qed simp

lemma within_PutMany: "may_write g A \<Longrightarrow> stays A (Repository_PutMany E r g kvs ttl)"
  using within_DeleteMultiple [of g A r "map fst (sort_key fst kvs)"] within_put_all [of g A r "sort_key fst kvs" ttl]
  by (auto simp: Repository_PutMany_def within_def confined_def Let_def)

lemma within_Add: "may_write g A \<Longrightarrow> stays A (Repository_Add E r g key v ttl)"
  unfolding Repository_Add_def by (intro within_writing within_and_then within_give) (simp_all add: within_add)

lemma within_Increment: "may_write g A \<Longrightarrow> stays A (Repository_Increment E r g key d ttl)"
  unfolding Repository_Increment_def by (intro within_writing) (simp_all add: within_increment)

lemma within_Flush: "may_write g A \<Longrightarrow> stays A (Repository_Flush E r g)"
proof (cases "Writable g")
  case None
  assume A: "may_write g A"
  have "stays A (and_then (give (Repository_prefix r g)) (\<lambda>prefix w.
      case on_store (Store_Flush (ce_store E) (ce_now E) prefix) (fire r (CacheFlushing (Repository_GetName r) (r_tags r)) w) of
        (err, w') \<Rightarrow> (err, fire r (case err of
            Inl _ \<Rightarrow> CacheFlushFailed (Repository_GetName r) (r_tags r)
          | Inr _ \<Rightarrow> CacheFlushed (Repository_GetName r) (r_tags r)) w')))"
  proof (rule within_and_then_result [OF within_give], goal_cases)
    case (1 w p w')
    then have "A k" if "has_prefix k p" for k
      using A None that prefix_tenant [of r g p] by (auto simp: may_write_def has_prefix_iff)
    then show ?case by (intro within_around [where h = "\<lambda>r. r"] within_flush) simp_all
  qed
  with None show ?thesis by (simp add: Repository_Flush_def)
qed (simp add: Repository_Flush_def)

lemma within_Touch: "may_write g A \<Longrightarrow> stays A (Repository_Touch E r g key ttl)"
  unfolding Repository_Touch_def
proof (rule within_writing, assumption, goal_cases)
  case (1 full)
  let ?ttl = "if ttl \<le> 0 then foreverTTL else ttl"
  have pos: "0 < ?ttl" by (simp add: foreverTTL_def)
  show ?case
  proof (cases "as_Touch (ce_store E)")
    case (Some touch)
    from within_touch [where A = A and k = full and ttl = ?ttl, OF 1(2) Some pos] show ?thesis
      by (cases "ttl \<le> 0") (simp_all add: Some Let_def)
  next
    case None
    have "stays A (\<lambda>w. case on_store (Store_Get (ce_store E) (ce_now E) full) w of
        (Inl err, w') \<Rightarrow> if errors_is err ErrNotFound then (Inr False, w') else (Inl err, w')
      | (Inr raw, w') \<Rightarrow>
          and_then (on_store (Store_Put (ce_store E) (ce_now E) full raw ?ttl)) (\<lambda>_. give (Inr True)) w')"
    proof (rule withinI)
      fix w :: "('s, 'v) cworld"
      obtain res w' where r: "on_store (Store_Get (ce_store E) (ce_now E) full) w = (res, w')" by fastforce
      have "confined (ce_now E) A w w'" by (rule withinD [OF within_get r])
      moreover have "confined (ce_now E) A w'
          (snd (and_then (on_store (Store_Put (ce_store E) (ce_now E) full raw ?ttl)) (\<lambda>_. give (Inr True)) w'))" for raw
        by (intro within_confined within_and_then within_put within_give) (rule 1(2))
      ultimately show "confined (ce_now E) A w (snd (case on_store (Store_Get (ce_store E) (ce_now E) full) w of
          (Inl err, w') \<Rightarrow> if errors_is err ErrNotFound then (Inr False, w') else (Inl err, w')
        | (Inr raw, w') \<Rightarrow>
            and_then (on_store (Store_Put (ce_store E) (ce_now E) full raw ?ttl)) (\<lambda>_. give (Inr True)) w'))"
        by (cases res) (auto simp: r intro: confined_trans)
    qed
    with None show ?thesis by (simp add: Let_def)
  qed
qed

lemma within_get_value: "stays A (get E to_any dec r full key)"
proof (rule withinI)
  fix w :: "('s, 'v) cworld"
  obtain res w' where r: "on_store (Store_Get (ce_store E) (ce_now E) full) w = (res, w')" by fastforce
  have "confined (ce_now E) A w w'" by (rule withinD [OF within_get r])
  then show "confined (ce_now E) A w (snd (get E to_any dec r full key w))"
    by (auto simp: get_def r confined_def event_defs split: sum.split)
qed

lemma within_Get: "may_write g A \<Longrightarrow> stays A (Get E to_any dec r g key)"
  unfolding Get_def
proof (intro within_and_then within_key withinI, assumption)
  fix full and w :: "('s, 'v) cworld"
  show "confined (ce_now E) A w (snd (get E to_any dec r full key (eventRetrieving r key w)))"
    using within_get_value [of A to_any dec r full key] by (simp add: within_def confined_def event_defs)
qed

lemma within_many_read: "may_write g A \<Longrightarrow> stays A (many_read E to_any dec zero r g keys out)"
proof (induction keys arbitrary: out)
  case (Cons key keys)
  show ?case unfolding many_read.simps
  proof (intro within_and_then within_key withinI, rule Cons.prems)
    fix full and w :: "('s, 'v) cworld"
    obtain res w' where r: "get E to_any dec r full key w = (res, w')" by fastforce
    have "confined (ce_now E) A w w'" by (rule withinD [OF within_get_value r])
    moreover have "confined (ce_now E) A w' (snd (many_read E to_any dec zero r g keys out' w'))" for out'
      using Cons by (simp add: within_def)
    ultimately show "confined (ce_now E) A w (snd (case get E to_any dec r full key w of
         (Inl err, w') \<Rightarrow>
           if errors_is err ErrNotFound then many_read E to_any dec zero r g keys (out(key \<mapsto> zero)) w'
           else (Inl err, w')
       | (Inr v, w') \<Rightarrow> many_read E to_any dec zero r g keys (out(key \<mapsto> v)) w'))"
      by (cases res) (auto simp: r intro: confined_trans)
  qed
qed simp

lemma within_Many: "may_write g A \<Longrightarrow> stays A (Many E to_any dec zero r g keys)"
  using within_many_read [of g A to_any dec zero r keys Map.empty]
  by (simp add: Many_def within_def confined_def)

lemma Pull_confined:
  assumes "may_write g A"
  shows "confined (ce_now E) A w (snd (Pull E to_any dec r g key w))"
proof -
  obtain v w1 where v: "Get E to_any dec r g key w = (v, w1)" by fastforce
  obtain u w2 where u: "Repository_Forget E r g key w1 = (u, w2)" by fastforce
  have "confined (ce_now E) A w w1" "confined (ce_now E) A w1 w2"
    by (rule withinD [OF within_Get [OF assms] v], rule withinD [OF within_Forget [OF assms] u])
  then show ?thesis by (cases v; cases u) (auto simp: Pull_def v u intro: confined_trans)
qed

lemma within_Remember:
  assumes "may_write g A" "stays A compute"
  shows "stays A (Remember E to_any dec r g key ttl compute)"
proof -
  have store: "stays A (and_then compute (\<lambda>computed. and_then (give (roundTrip E to_any dec computed)) (\<lambda>settled w.
      (Inr settled, snd (Repository_Put E r g key (to_any computed) ttl w)))))"
    using within_Put [OF assms(1), unfolded within_def]
    by (intro within_and_then assms(2) within_give withinI) simp
  show ?thesis unfolding Remember_def
  proof (intro within_and_then within_key assms(1) withinI, goal_cases)
    case (1 full w)
    obtain res w' where r: "Get E to_any dec r g key w = (res, w')" by fastforce
    have "confined (ce_now E) A w w'" by (rule withinD [OF within_Get [OF assms(1)] r])
    with store [unfolded within_def, rule_format, of w'] show ?case
      by (cases res) (auto simp: r confined_same intro: confined_trans)
  qed
qed

lemma within_flexibleRefresh:
  assumes "may_write g A" "stays A compute"
  shows "stays A (flexibleRefresh E to_any dec r g key created stale compute)"
  unfolding flexibleRefresh_def
proof (intro within_and_then assms(2) within_give withinI, goal_cases)
  case (1 computed settled w)
  obtain res w' where r: "Repository_Put E r g key (to_any computed) stale w = (res, w')" by fastforce
  have "confined (ce_now E) A w w'" by (rule withinD [OF within_Put [OF assms(1)] r])
  moreover have "confined (ce_now E) A w' (snd (Repository_Put E r g created (ce_int64 E (unix_seconds (ce_now E))) stale w'))"
    using within_Put [OF assms(1)] by (simp add: within_def)
  ultimately show ?case by (cases res) (auto simp: r intro: confined_trans)
qed

lemma within_Flexible:
  assumes "may_write g A" "stays A compute"
  shows "stays A (Flexible E to_any dec dec64 r g key fresh stale compute)"
  unfolding Flexible_def
proof (intro within_and_then within_key assms(1) withinI, goal_cases)
  case (1 full w)
  let ?refresh = "and_then (flexibleRefresh E to_any dec r g key (flexibleCreatedKey key) stale compute)
      (\<lambda>v. give (Inr (v, None :: int option)))"
  obtain v w1 where v: "Get E to_any dec r g key w = (v, w1)" by fastforce
  obtain c w2 where c: "Get E (ce_int64 E) dec64 r g (flexibleCreatedKey key) w1 = (c, w2)" by fastforce
  have "confined (ce_now E) A w w1" by (rule withinD [OF within_Get [OF assms(1)] v])
  moreover have "confined (ce_now E) A w1 w2" by (rule withinD [OF within_Get [OF assms(1)] c])
  moreover have "confined (ce_now E) A w2 (snd (?refresh w2))"
    by (intro within_confined within_and_then within_flexibleRefresh assms within_give)
  ultimately show ?case
    by (cases v; cases c) (auto simp: v c Let_def confined_same intro: confined_trans)
qed

lemma within_tagged_flush: "may_write g A \<Longrightarrow> stays A (TaggedCache_Flush E r g names)"
  using within_Reset [of g A names]
  by (auto simp: TaggedCache_Flush_def within_def confined_def split: prod.split)
    (metis fire_store snd_conv)+

end

section \<open>Generations of tags\<close>

definition tag_key :: "grant \<Rightarrow> string \<Rightarrow> string" where
  "tag_key g name = ''cache:'' @ Tenant g @ '':tag:'' @ name @ '':key''"

definition tag_ok :: "string \<Rightarrow> bool" where
  "tag_ok name \<longleftrightarrow> name \<noteq> [] \<and> CHR '':'' \<notin> set name"

text \<open>The generations the draws \<open>n\<close>, \<open>n + 1\<close>, \dots mint.\<close>

definition minted :: "('s, 'v) cache_env \<Rightarrow> nat \<Rightarrow> string" where
  "minted E n = format_int36 (ce_wall E) @ hex_encode (case ce_random E n of Some b \<Rightarrow> b | None \<Rightarrow> [])"

lemma tag_key_inj [simp]: "tag_key g a = tag_key g b \<longleftrightarrow> a = b"
  by (simp add: tag_key_def)

lemma TagKey_ok: "ValidTenant (Tenant g) \<Longrightarrow> tag_ok name \<Longrightarrow> TagSet_TagKey g name = Inr (tag_key g name)"
  by (auto simp: TagSet_TagKey_def tag_ok_def tag_key_def Let_def ValidTenant_nonempty)

lemma show36_nonempty: "show36 n \<noteq> []"
  by (subst show36.simps) simp

lemma minted_nonempty: "minted E n \<noteq> []"
  by (simp add: minted_def format_int36_def show36_nonempty)

text \<open>A generation is digits and letters, so the bar between generations cuts them apart.\<close>

lemma show36_chars: "c \<in> set (show36 n) \<Longrightarrow> (of_char c :: nat) < 123"
proof (induction n rule: show36.induct)
  case (1 n)
  have "d < 36 \<Longrightarrow> (of_char (digit36 d) :: nat) < 123" for d by (simp add: digit36_def of_char_of)
  with 1 show ?case by (subst (asm) (2) show36.simps) (auto split: if_splits)
qed

lemma minted_no_bar: "CHR ''|'' \<notin> set (minted E n)"
  using show36_chars [of "CHR ''|''"] hex_encode_chars [of "CHR ''|''"]
  by (auto simp: minted_def format_int36_def)

lemma join_bar_inj:
  assumes "length xs = length ys" "\<forall>x \<in> set xs. CHR ''|'' \<notin> set x" "\<forall>y \<in> set ys. CHR ''|'' \<notin> set y"
  shows "join ''|'' xs = join ''|'' ys \<longleftrightarrow> xs = ys"
  using assms
proof (induction "''|''" xs arbitrary: ys rule: join.induct)
  case (2 x)
  then obtain y where "ys = [y]" by (cases ys) auto
  then show ?case by simp
next
  case (3 x y xs)
  then obtain x' y' zs where "ys = x' # y' # zs" by (cases ys; cases "tl ys") auto
  with 3(1) [of "y' # zs"] 3(2-) show ?case by (auto simp: segment_inj)
qed auto

context repository_over
begin

lemma ResetTag_effect:
  assumes "Writable g = None" "ValidTenant (Tenant g)" "tag_ok name" "ce_random E (cw_draws w) \<noteq> None" "invar (cw_store w)"
  obtains w' where "TagSet_ResetTag E g name w = (Inr (minted E (cw_draws w)), w')" "cw_draws w' = cw_draws w + 1"
    "invar (cw_store w')" "\<And>t. ce_now E \<le> t \<Longrightarrow> live_at t (snap (cw_store w')) =
       live_at t ((snap (cw_store w))(tag_key g name \<mapsto> (minted E (cw_draws w), ce_now E + foreverTTL)))"
proof -
  let ?put = "Store_Put (ce_store E) (ce_now E) (tag_key g name) (minted E (cw_draws w)) foreverTTL (cw_store w)"
  have f: "0 < foreverTTL" by (simp add: foreverTTL_def)
  obtain s' where s': "?put = (Inr (), s')" using put_result [OF assms(5) f] by (metis prod.collapse)
  let ?w = "w\<lparr>cw_draws := cw_draws w + 1, cw_store := s'\<rparr>"
  obtain b where b: "ce_random E (cw_draws w) = Some b" using assms(4) by blast
  then have m: "minted E (cw_draws w) = format_int36 (ce_wall E) @ hex_encode b" by (simp add: minted_def)
  have "TagSet_ResetTag E g name w = (Inr (minted E (cw_draws w)), ?w)"
    using assms(1-3) s' by (simp add: TagSet_ResetTag_def and_then_def give_def TagKey_ok newTagID_def Let_def b m on_store_def)
  moreover have "invar (cw_store ?w)"
    using put_invar [OF assms(5), of "ce_now E" "tag_key g name" "minted E (cw_draws w)" foreverTTL] s' by simp
  moreover have "live_at t (snap (cw_store ?w)) =
      live_at t ((snap (cw_store w))(tag_key g name \<mapsto> (minted E (cw_draws w), ce_now E + foreverTTL)))" if "ce_now E \<le> t" for t
    using put_snap [OF assms(5) f that, of "tag_key g name" "minted E (cw_draws w)"] s' by simp
  ultimately show ?thesis by (intro that [of ?w]) simp_all
qed

lemma Reset_effect:
  assumes "Writable g = None" "ValidTenant (Tenant g)" "\<forall>name \<in> set names. tag_ok name" "distinct names"
    and "\<forall>n. ce_random E n \<noteq> None" "invar (cw_store w)"
  shows "\<exists>w'. TagSet_Reset E g names w = (Inr (), w') \<and> invar (cw_store w') \<and>
    (\<forall>t. ce_now E \<le> t \<longrightarrow> t < ce_now E + foreverTTL \<longrightarrow> (\<forall>i < length names.
       live_at t (snap (cw_store w')) (tag_key g (names ! i)) =
       Some (minted E (cw_draws w + i), ce_now E + foreverTTL))) \<and>
    (\<forall>t k. ce_now E \<le> t \<longrightarrow> k \<notin> tag_key g ` set names \<longrightarrow>
       live_at t (snap (cw_store w')) k = live_at t (snap (cw_store w)) k)"
  using assms(3,4,6)
proof (induction names arbitrary: w)
  case Nil
  then show ?case by (simp add: give_def)
next
  case (Cons name names)
  have ok: "tag_ok name" using Cons.prems(1) by simp
  have rnd: "ce_random E (cw_draws w) \<noteq> None" using assms(5) by blast
  from ResetTag_effect [OF assms(1,2) ok rnd Cons.prems(3)] obtain w1 where
    w1: "TagSet_ResetTag E g name w = (Inr (minted E (cw_draws w)), w1)" "cw_draws w1 = cw_draws w + 1" "invar (cw_store w1)"
      "\<And>t. ce_now E \<le> t \<Longrightarrow> live_at t (snap (cw_store w1)) =
        live_at t ((snap (cw_store w))(tag_key g name \<mapsto> (minted E (cw_draws w), ce_now E + foreverTTL)))" by blast
  from Cons.IH [of w1] Cons.prems w1(3) obtain w' where
    w': "TagSet_Reset E g names w1 = (Inr (), w')" "invar (cw_store w')"
      "\<forall>t. ce_now E \<le> t \<longrightarrow> t < ce_now E + foreverTTL \<longrightarrow> (\<forall>i < length names.
         live_at t (snap (cw_store w')) (tag_key g (names ! i)) = Some (minted E (cw_draws w1 + i), ce_now E + foreverTTL))"
      "\<forall>t k. ce_now E \<le> t \<longrightarrow> k \<notin> tag_key g ` set names \<longrightarrow>
         live_at t (snap (cw_store w')) k = live_at t (snap (cw_store w1)) k"
    by auto
  have "live_at t (snap (cw_store w')) (tag_key g ((name # names) ! i)) =
      Some (minted E (cw_draws w + i), ce_now E + foreverTTL)"
    if "ce_now E \<le> t" "t < ce_now E + foreverTTL" "i < length (name # names)" for t i
  proof (cases i)
    case 0
    have "tag_key g name \<notin> tag_key g ` set names" using Cons.prems(2) by auto
    with 0 w'(4) w1(4) that show ?thesis by (simp add: live_at_upd)
  next
    case (Suc j)
    with w'(3) w1(2) that show ?thesis by simp
  qed
  moreover have "live_at t (snap (cw_store w')) k = live_at t (snap (cw_store w)) k"
    if "ce_now E \<le> t" "k \<notin> tag_key g ` set (name # names)" for t k
    using that w'(4) w1(4) by (simp add: live_at_upd)
  ultimately show ?case using w1(1) w'(1,2) by (intro exI [of _ w']) (simp add: and_then_def)
qed

lemma tag_ids_read:
  assumes "ValidTenant (Tenant g)" "\<forall>name \<in> set names. tag_ok name" "length ids = length names"
    and "\<forall>i < length names. \<exists>e. live_at (ce_now E) (snap (cw_store w)) (tag_key g (names ! i)) = Some (ids ! i, e)"
    and "\<forall>x \<in> set ids. x \<noteq> []" "invar (cw_store w)"
  shows "fst (tag_ids E g names w) = Inr ids"
  using assms(2-)
proof (induction names arbitrary: ids w)
  case Nil
  then show ?case by (simp add: give_def)
next
  case (Cons name names)
  obtain x xs where ids: "ids = x # xs" using Cons.prems(2) by (cases ids) auto
  obtain e where e: "live_at (ce_now E) (snap (cw_store w)) (tag_key g name) = Some (x, e)"
    using Cons.prems(3) ids by auto
  obtain s' where get: "Store_Get (ce_store E) (ce_now E) (tag_key g name) (cw_store w) = (Inr x, s')"
    using get_result [OF Cons.prems(5), of "ce_now E" "tag_key g name"] e
    by (cases "Store_Get (ce_store E) (ce_now E) (tag_key g name) (cw_store w)") simp
  let ?w = "w\<lparr>cw_store := s'\<rparr>"
  have x: "x \<noteq> []" using Cons.prems(4) ids by simp
  have keeps: "invar s'" "live_at (ce_now E) (snap s') = live_at (ce_now E) (snap (cw_store w))"
    using get_invar [OF Cons.prems(5), of "ce_now E" "tag_key g name"]
      get_keeps [OF Cons.prems(5) order_refl, of "ce_now E" "tag_key g name"] get by simp_all
  have first: "TagSet_TagID E g name w = (Inr x, ?w)"
    using assms(1) Cons.prems(1) get x by (simp add: TagSet_TagID_def and_then_def give_def TagKey_ok on_store_def)
  have "fst (tag_ids E g names ?w) = Inr xs"
  proof (rule Cons.IH)
    show "\<forall>i < length names. \<exists>e. live_at (ce_now E) (snap (cw_store ?w)) (tag_key g (names ! i)) = Some (xs ! i, e)"
      using Cons.prems(3) ids by (auto simp: keeps)
  qed (use Cons.prems ids keeps in auto)
  then show ?case using first
    by (cases "tag_ids E g names ?w") (simp add: and_then_def give_def ids)
qed

end

section \<open>Every call at once\<close>

text \<open>A call of the repository or of its tag set. A callback (of \<^verbatim>\<open>Remember\<close>, \<^verbatim>\<open>Flexible\<close> or
  \<^verbatim>\<open>WithoutOverlapping\<close>) is what it does to the cache itself, a list of calls, and what it answers.
  \<open>CallFlexible\<close> runs the goroutine it starts behind it; \<open>CallRefresh\<close> is such a goroutine that runs at
  another instant than the call that started it. Waiting for a lock, the call has the store to
  itself.\<close>

datatype 'v call =
    CallPut string 'v duration | CallForget string | CallPutMany "(string \<times> 'v) list" duration
  | CallDeleteMultiple "string list" | CallAdd string 'v duration | CallForever string 'v
  | CallIncrement string int duration | CallDecrement string int duration | CallFlush | CallTouch string duration
  | CallGet string | CallHas string | CallMissing string | CallMany 'v "string list" | CallPull string
  | CallString string | CallInteger string | CallBoolean string | CallArray string
  | CallItemKey string | CallFlushLocks
  | CallRemember string duration "'v call list" "'v go"
  | CallFlexible string duration duration "'v call list" "'v go" "bytes option" instant
  | CallRefresh string duration int "'v call list" "'v go" "bytes option" instant
  | CallWithoutOverlapping string "'v call list option" "unit go" duration duration
      "nat \<Rightarrow> bytes option" "nat \<Rightarrow> nat" "nat \<Rightarrow> bool" instant
  | CallTaggedFlush "string list" | CallTagID string | CallResetTag string | CallReset "string list"
  | CallFlushTag string | CallTagSetFlush "string list" | CallGetNamespace "string list"

definition callback :: "(('s, 'v) cworld \<Rightarrow> ('s, 'v) cworld) list \<Rightarrow> 'a go \<Rightarrow> ('s, 'v, 'a) op" where
  "callback fs v w = (v, fold (\<lambda>f. f) fs w)"

primrec run_call ::
  "('s, 'v) cache_env \<Rightarrow> (bytes \<Rightarrow> 'v option) \<Rightarrow> (bytes \<Rightarrow> int option) \<Rightarrow> ('v \<Rightarrow> any_view) \<Rightarrow> repository \<Rightarrow> grant \<Rightarrow>
   'v call \<Rightarrow> ('s, 'v) cworld \<Rightarrow> ('s, 'v) cworld" where
  "run_call E dec dec64 view r g (CallPut key v ttl) = (\<lambda>w. snd (Repository_Put E r g key v ttl w))"
| "run_call E dec dec64 view r g (CallForget key) = (\<lambda>w. snd (Repository_Forget E r g key w))"
| "run_call E dec dec64 view r g (CallPutMany kvs ttl) = (\<lambda>w. snd (Repository_PutMany E r g kvs ttl w))"
| "run_call E dec dec64 view r g (CallDeleteMultiple keys) = (\<lambda>w. snd (Repository_DeleteMultiple E r g keys w))"
| "run_call E dec dec64 view r g (CallAdd key v ttl) = (\<lambda>w. snd (Repository_Add E r g key v ttl w))"
| "run_call E dec dec64 view r g (CallForever key v) = (\<lambda>w. snd (Repository_Forever E r g key v w))"
| "run_call E dec dec64 view r g (CallIncrement key d ttl) = (\<lambda>w. snd (Repository_Increment E r g key d ttl w))"
| "run_call E dec dec64 view r g (CallDecrement key d ttl) = (\<lambda>w. snd (Repository_Decrement E r g key d ttl w))"
| "run_call E dec dec64 view r g CallFlush = (\<lambda>w. snd (Repository_Flush E r g w))"
| "run_call E dec dec64 view r g (CallTouch key ttl) = (\<lambda>w. snd (Repository_Touch E r g key ttl w))"
| "run_call E dec dec64 view r g (CallGet key) = (\<lambda>w. snd (Get E (\<lambda>v. v) dec r g key w))"
| "run_call E dec dec64 view r g (CallHas key) = (\<lambda>w. snd (Repository_Has E dec r g key w))"
| "run_call E dec dec64 view r g (CallMissing key) = (\<lambda>w. snd (Repository_Missing E dec r g key w))"
| "run_call E dec dec64 view r g (CallMany zero keys) = (\<lambda>w. snd (Many E (\<lambda>v. v) dec zero r g keys w))"
| "run_call E dec dec64 view r g (CallPull key) = (\<lambda>w. snd (Pull E (\<lambda>v. v) dec r g key w))"
| "run_call E dec dec64 view r g (CallString key) = (\<lambda>w. snd (Repository_String E dec view r g key w))"
| "run_call E dec dec64 view r g (CallInteger key) = (\<lambda>w. snd (Repository_Integer E dec view r g key w))"
| "run_call E dec dec64 view r g (CallBoolean key) = (\<lambda>w. snd (Repository_Boolean E dec view r g key w))"
| "run_call E dec dec64 view r g (CallArray key) = (\<lambda>w. snd (Repository_Array E dec view r g key w))"
| "run_call E dec dec64 view r g (CallItemKey key) = (\<lambda>w. snd (Repository_ItemKey E r g key w))"
| "run_call E dec dec64 view r g CallFlushLocks = (\<lambda>w. snd (Repository_FlushLocks E r w))"
| "run_call E dec dec64 view r g (CallRemember key ttl cs v) =
     (\<lambda>w. snd (Remember E (\<lambda>v. v) dec r g key ttl (callback (map (run_call E dec dec64 view r g) cs) v) w))"
| "run_call E dec dec64 view r g (CallFlexible key fresh stale cs v rnd finish) =
     (let compute = callback (map (run_call E dec dec64 view r g) cs) v in
      (\<lambda>w. case Flexible E (\<lambda>v. v) dec dec64 r g key fresh stale compute w of
         (Inr (_, Some created), w') \<Rightarrow>
           snd (flexible_background E (\<lambda>v. v) dec dec64 r g key stale created compute rnd finish w')
       | (_, w') \<Rightarrow> w'))"
| "run_call E dec dec64 view r g (CallRefresh key stale created cs v rnd finish) =
     (\<lambda>w. snd (flexible_background E (\<lambda>v. v) dec dec64 r g key stale created
        (callback (map (run_call E dec dec64 view r g) cs) v) rnd finish w))"
| "run_call E dec dec64 view r g (CallWithoutOverlapping key fn err lockFor waitFor rand late cancelled finish) =
     (\<lambda>w. snd (Repository_WithoutOverlapping E
        \<lparr>w_rand = rand, w_late = late, w_cancelled = cancelled, w_others = (\<lambda>_ w. w)\<rparr> r g key
        (map_option (\<lambda>fs. callback fs err) (map_option (map (run_call E dec dec64 view r g)) fn)) lockFor waitFor finish w))"
| "run_call E dec dec64 view r g (CallTaggedFlush names) = (\<lambda>w. snd (TaggedCache_Flush E r g names w))"
| "run_call E dec dec64 view r g (CallTagID name) = (\<lambda>w. snd (TagSet_TagID E g name w))"
| "run_call E dec dec64 view r g (CallResetTag name) = (\<lambda>w. snd (TagSet_ResetTag E g name w))"
| "run_call E dec dec64 view r g (CallReset names) = (\<lambda>w. snd (TagSet_Reset E g names w))"
| "run_call E dec dec64 view r g (CallFlushTag name) = (\<lambda>w. snd (TagSet_FlushTag E g name w))"
| "run_call E dec dec64 view r g (CallTagSetFlush names) = (\<lambda>w. snd (TagSet_Flush E g names w))"
| "run_call E dec dec64 view r g (CallGetNamespace names) = (\<lambda>w. snd (TagSet_GetNamespace E g names w))"

text \<open>A repository over a store that holds its locks apart from its entries: taking and releasing
  locks moves no entry.\<close>

locale locking_repository = repository_over E invar snap + separate_lock_store "ce_store E" invar snap L lsnap
  for E :: "('s, 'v) cache_env" and invar :: "'s \<Rightarrow> bool" and snap :: "'s \<Rightarrow> snapshot"
    and L :: "'s locking" and lsnap :: "'s \<Rightarrow> snapshot" +
  assumes flush_locks_entries: "as_CanFlushLocks (ce_store E) = Some flush \<Longrightarrow>
      snap (snd (flush now s)) = snap s \<and> (invar s \<longrightarrow> invar (snd (flush now s)))"
begin

lemma within_Has: "may_write g A \<Longrightarrow> stays A (Repository_Has E dec r g key)"
  using within_Get [of g A "\<lambda>v. v" dec r key]
  by (auto simp: Repository_Has_def within_def split: prod.split sum.split) (metis snd_conv)+

lemma within_typed:
  assumes "may_write g A"
  shows "stays A (Repository_String E dec view r g key)" "stays A (Repository_Integer E dec view r g key)"
    "stays A (Repository_Boolean E dec view r g key)" "stays A (Repository_Array E dec view r g key)"
  unfolding Repository_String_def Repository_Integer_def Repository_Boolean_def Repository_Array_def Let_def
  by (intro within_and_then within_Get assms; auto split: any_view.split option.split)+

lemma within_FlushLocks: "stays A (Repository_FlushLocks E r)"
proof (rule withinI)
  fix w :: "('s, 'v) cworld"
  show "confined (ce_now E) A w (snd (Repository_FlushLocks E r w))"
  proof (cases "as_CanFlushLocks (ce_store E)")
    case (Some flush)
    with flush_locks_entries [OF Some, of "ce_now E" "cw_store w"] show ?thesis
      by (simp add: Repository_FlushLocks_def confined_def split_beta)
  qed (simp add: Repository_FlushLocks_def confined_same)
qed

lemma acquire_confined: "confined now A w (snd (snd (Lock_Acquire (world_locking L) rnd t lk w)))"
proof -
  have "confined now A w (snd (AcquireLock (world_locking L) t key tok ttl w))" for key tok ttl
    using acquire_invar by (simp add: confined_def world_locking_def acquire_entries)
  then show ?thesis by (auto simp: Lock_Acquire_def confined_same split: sum.split prod.split) (metis snd_conv)+
qed

lemma release_confined: "confined now A w (snd (snd (Lock_Release (world_locking L) t lk w)))"
proof -
  have "confined now A w (snd (ReleaseLock (world_locking L) t key tok w))" for key tok
    using release_invar by (simp add: confined_def world_locking_def release_entries)
  then show ?thesis by (auto simp: Lock_Release_def confined_same split: prod.split) (metis snd_conv)+
qed

lemma run_then_release_confined:
  assumes "within now A fn"
  shows "confined now A w (snd (snd (run_then_release (world_locking L) fn finish lk w)))"
proof -
  obtain u w1 where u: "fn w = (u, w1)" by fastforce
  obtain x lk' w2 where x: "Lock_Release (world_locking L) finish lk w1 = (x, lk', w2)" by (metis prod.collapse)
  have "confined now A w w1" by (rule withinD [OF assms u])
  with release_confined [of now A w1 finish lk] show ?thesis
    by (auto simp: run_then_release_def u x intro: confined_trans)
qed

lemma Lock_Run_confined:
  assumes "within now A fn"
  shows "confined now A w (snd (snd (Lock_Run (world_locking L) rnd t finish fn lk w)))"
proof -
  obtain u lk' w1 where u: "Lock_Acquire (world_locking L) rnd t lk w = (u, lk', w1)" by (metis prod.collapse)
  have "confined now A w w1" using acquire_confined [of now A w rnd t lk] by (simp add: u)
  with run_then_release_confined [OF assms, of w1 finish lk'] show ?thesis
    by (cases u) (auto simp: Lock_Run_def u intro: confined_trans)
qed

lemma block_loop_confined:
  fixes sur :: "('s, 'v) cworld surroundings"
  shows "(\<And>i w. w_others sur i w = w) \<Longrightarrow>
   confined now A w (snd (snd (snd (block_loop (world_locking L) sur wait deadline i t lk w))))"
proof (induction "world_locking L :: ('s, 'v) cworld locking" sur wait deadline i t lk w rule: block_loop.induct)
  case (1 sur wait deadline i t lk w)
  obtain u lk' w1 where u: "Lock_Acquire (world_locking L) (w_rand sur i) t lk w = (u, lk', w1)" by (metis prod.collapse)
  have c: "confined now A w w1" using acquire_confined [of now A w "w_rand sur i" t lk] by (simp add: u)
  show ?case
  proof (cases u)
    case (Inl err)
    have "isLocked err \<Longrightarrow> \<not> t + block_sleep lk > deadline \<Longrightarrow> \<not> w_cancelled sur i \<Longrightarrow>
        confined now A w1 (snd (snd (snd (block_loop (world_locking L) sur wait deadline (Suc i)
          (t + block_sleep lk + int (w_late sur i)) lk (w_others sur i w1)))))"
      using 1(1) [OF u [symmetric], of err] Inl 1(2) by simp
    with Inl c show ?thesis
      by (subst block_loop.simps) (auto simp: u intro: confined_trans)
  next
    case (Inr x)
    with c show ?thesis by (subst block_loop.simps) (simp add: u)
  qed
qed

lemma Lock_Block_confined:
  fixes sur :: "('s, 'v) cworld surroundings"
  assumes "\<And>i w. w_others sur i w = w" "\<And>f. fn = Some f \<Longrightarrow> within now A f"
  shows "confined now A w (snd (snd (Lock_Block (world_locking L) sur t wait finish fn lk w)))"
proof -
  obtain u t' lk' w1 where u: "block_loop (world_locking L) sur wait (t + wait) 0 t lk w = (u, t', lk', w1)"
    by (metis prod.collapse)
  have c: "confined now A w w1" using block_loop_confined [OF assms(1), of now A w wait "t + wait" 0 t lk] by (simp add: u)
  show ?thesis
  proof (cases fn)
    case None
    with c show ?thesis by (cases u) (simp_all add: Lock_Block_def u)
  next
    case (Some f)
    with run_then_release_confined [OF assms(2) [OF Some], of w1 finish lk'] c show ?thesis
      by (cases u) (auto simp: Lock_Block_def u intro: confined_trans)
  qed
qed

lemma within_WithoutOverlapping:
  assumes "may_write g A" "\<And>i w. w_others sur i w = w" "\<And>f. fn = Some f \<Longrightarrow> stays A f"
  shows "stays A (Repository_WithoutOverlapping E sur r g key fn lockFor waitFor finish)"
proof -
  have "stays A (and_then (Repository_writeKey E r g key) (\<lambda>full w.
      let lockFor = (if lockFor \<le> 0 then foreverTTL else lockFor);
          lk = \<lparr>lk_name = full, lk_ttl = lockFor, lk_owner = [], lk_held = False, lk_sleep = 0\<rparr> in
      case Lock_Block (world_locking L) sur (ce_now E) waitFor finish fn lk w of (err, _, w') \<Rightarrow> (err, w')))"
    using Lock_Block_confined [OF assms(2,3)]
    by (intro within_and_then within_writeKey assms(1) withinI) (simp add: Let_def split_beta)
  then show ?thesis by (simp add: within_def Repository_WithoutOverlapping_def locking)
qed

lemma within_background:
  assumes "may_write g A" "stays A compute"
  shows "stays A (flexible_background E to_any dec dec64 r g key stale created compute rnd finish)"
proof -
  let ?refresh = "\<lambda>w. case Get E (ce_int64 E) dec64 r g (flexibleCreatedKey key) w of (now, w1) \<Rightarrow>
      if (case now of Inr c \<Rightarrow> c \<noteq> created | Inl _ \<Rightarrow> False) then (Inr (), w1)
      else and_then (flexibleRefresh E to_any dec r g key (flexibleCreatedKey key) stale compute) (\<lambda>_. give (Inr ())) w1"
  have refresh: "stays A ?refresh"
  proof (rule withinI)
    fix w :: "('s, 'v) cworld"
    obtain u w1 where u: "Get E (ce_int64 E) dec64 r g (flexibleCreatedKey key) w = (u, w1)" by fastforce
    have "confined (ce_now E) A w w1" by (rule withinD [OF within_Get [OF assms(1)] u])
    moreover have "confined (ce_now E) A w1 (snd (and_then (flexibleRefresh E to_any dec r g key (flexibleCreatedKey key)
        stale compute) (\<lambda>_. give (Inr ())) w1))"
      by (intro within_confined within_and_then within_flexibleRefresh assms within_give)
    ultimately show "confined (ce_now E) A w (snd (?refresh w))" by (auto simp: u intro: confined_trans)
  qed
  show ?thesis
  proof (rule withinI)
    fix w :: "('s, 'v) cworld"
    obtain u w1 where u: "Repository_key E r g (flexibleLockKey key) w = (u, w1)" by fastforce
    have "confined (ce_now E) A w w1" by (rule withinD [OF within_key [OF assms(1)] u])
    with Lock_Run_confined [OF refresh, of w1 rnd "ce_now E" finish]
    show "confined (ce_now E) A w (snd (flexible_background E to_any dec dec64 r g key stale created compute rnd finish w))"
      by (cases u) (auto simp: flexible_background_def Let_def locking u split_beta intro: confined_trans)
  qed
qed

lemma within_callback: "(\<And>f w. f \<in> set fs \<Longrightarrow> confined now A w (f w)) \<Longrightarrow> within now A (callback fs v)"
proof (rule withinI)
  fix w assume "\<And>f w. f \<in> set fs \<Longrightarrow> confined now A w (f w)"
  then show "confined now A w (snd (callback fs v w))"
  proof (induction fs arbitrary: w)
    case (Cons f fs)
    then have "confined now A w (f w)" "confined now A (f w) (snd (callback fs v (f w)))" by simp_all
    then show ?case by (auto simp: callback_def intro: confined_trans)
  qed (simp add: callback_def confined_same)
qed

lemma call_confined:
  assumes "may_write g A"
  shows "confined (ce_now E) A w (run_call E dec dec64 view r g c w)"
proof (induction c arbitrary: w)
  case (CallRemember key ttl cs v)
  have "stays A (callback (map (run_call E dec dec64 view r g) cs) v)"
    by (rule within_callback) (use CallRemember in auto)
  then show ?case by (simp add: within_confined within_Remember assms)
next
  case (CallFlexible key fresh stale cs v rnd finish)
  let ?compute = "callback (map (run_call E dec dec64 view r g) cs) v"
  have s: "stays A ?compute"
    by (rule within_callback) (use CallFlexible in auto)
  obtain u w1 where u: "Flexible E (\<lambda>v. v) dec dec64 r g key fresh stale ?compute w = (u, w1)" by fastforce
  have "confined (ce_now E) A w w1" by (rule withinD [OF within_Flexible [OF assms s] u])
  with within_confined [OF within_background [OF assms s]] show ?case
    by (auto simp: u Let_def intro: confined_trans split: sum.split prod.split option.split)
next
  case (CallRefresh key stale created cs v rnd finish)
  have "stays A (callback (map (run_call E dec dec64 view r g) cs) v)"
    by (rule within_callback) (use CallRefresh in auto)
  then show ?case by (simp add: within_confined within_background assms)
next
  case (CallWithoutOverlapping key fn err lockFor waitFor rand late cancelled finish)
  have "stays A f" if f: "map_option (\<lambda>fs. callback fs err) (map_option (map (run_call E dec dec64 view r g)) fn) = Some f" for f
  proof -
    from f obtain cs where cs: "fn = Some cs" "f = callback (map (run_call E dec dec64 view r g) cs) err" by auto
    show ?thesis unfolding cs(2) by (rule within_callback) (use CallWithoutOverlapping cs(1) in auto)
  qed
  then show ?case unfolding run_call.simps by (intro within_confined within_WithoutOverlapping assms) simp_all
qed (simp_all add: within_confined assms within_Put within_Forget within_PutMany within_DeleteMultiple within_Add
    within_Increment within_Flush within_Touch within_Get within_Has within_Many Pull_confined within_tagged_flush
    within_typed within_FlushLocks within_ResetTag within_Reset within_FlushTag within_TagSet_Flush within_TagID
    within_and_then within_tag_ids within_key
    Repository_Forever_def Repository_Decrement_def Repository_Missing_def Repository_ItemKey_def TagSet_GetNamespace_def)

end

section \<open>Properties\<close>

definition over_array :: "(array_store, 'v) cache_env \<Rightarrow> (array_store, 'v) cache_env" where
  "over_array E = E\<lparr>ce_store := array_ops\<rparr>"

lemma over_array_simps [simp]: "ce_store (over_array E) = array_ops" "ce_now (over_array E) = ce_now E"
    "ce_marshal (over_array E) = ce_marshal E" "ce_sha1 (over_array E) = ce_sha1 E" "ce_random (over_array E) = ce_random E"
    "ce_wall (over_array E) = ce_wall E" "ce_int64 (over_array E) = ce_int64 E"
  by (simp_all add: over_array_def)

interpretation array_cache: locking_repository "over_array E" "\<lambda>_. True" array_snap array_locking array_lsnap
  for E :: "(array_store, 'v) cache_env"
proof (intro locking_repository.intro locking_repository_axioms.intro)
  show "repository_over (over_array E) (\<lambda>_. True) array_snap"
    by (simp add: repository_over_def array.touch_contract_axioms)
  show "separate_lock_store (ce_store (over_array E)) (\<lambda>_. True) array_snap array_locking array_lsnap"
    by (simp add: array.separate_lock_store_axioms)
qed (auto simp: array_ops_def ArrayStore_FlushLocks_def array_snap_def)

text \<open>The keys of two tenants are disjoint.\<close>

lemma tenant_keys_disjoint:
  assumes "ValidTenant a" "ValidTenant b" "tenant_keys a k" "tenant_keys b k"
  shows "a = b"
proof -
  from assms(3,4) obtain x y where "''cache:'' @ a @ '':'' @ x = ''cache:'' @ b @ '':'' @ y"
    by (auto simp: tenant_keys_def has_prefix_iff)
  then have "a @ CHR '':'' # x = b @ CHR '':'' # y" by simp
  then show ?thesis using assms(1,2) by (simp add: segment_inj ValidTenant_no_colon)
qed

text \<open>What an untagged repository and a grant that may write make of a key.\<close>

lemma key_untagged: "r_tags r = None \<Longrightarrow> Repository_prefix r g = Inr p \<Longrightarrow> key \<noteq> [] \<Longrightarrow>
    Repository_key E r g key w = (Inr (p @ key), w)"
  by (simp add: Repository_key_def and_then_def give_def)

lemma writeKey_untagged: "r_tags r = None \<Longrightarrow> Repository_prefix r g = Inr p \<Longrightarrow> key \<noteq> [] \<Longrightarrow> Writable g = None \<Longrightarrow>
    Repository_writeKey E r g key w = (Inr (p @ key), w)"
  by (simp add: Repository_writeKey_def key_untagged)

lemma Put_untagged:
  assumes "r_tags r = None" "Repository_prefix r g = Inr p" "key \<noteq> []" "Writable g = None"
    and "ce_marshal E v = Some raw" "0 < ttl"
  shows "fst (Repository_Put E r g key v ttl w) = fst (Store_Put (ce_store E) (ce_now E) (p @ key) raw ttl (cw_store w))"
    and "cw_store (snd (Repository_Put E r g key v ttl w)) =
      snd (Store_Put (ce_store E) (ce_now E) (p @ key) raw ttl (cw_store w))"
  using assms by (simp_all add: Repository_Put_def put_def and_then_def writeKey_untagged encode_def give_def split_beta)

lemma get_fst: "fst (get E to_any dec r full key w) =
    (case fst (Store_Get (ce_store E) (ce_now E) full (cw_store w)) of Inl e \<Rightarrow> Inl e | Inr raw \<Rightarrow> decode dec raw)"
  by (simp add: get_def on_store_def split: prod.split sum.split)

lemma get_store: "cw_store (snd (get E to_any dec r full key w)) = snd (Store_Get (ce_store E) (ce_now E) full (cw_store w))"
  by (simp add: get_def on_store_def split: prod.split sum.split)

lemma Get_untagged:
  assumes "r_tags r = None" "Repository_prefix r g = Inr p" "key \<noteq> []"
  shows "fst (Get E to_any dec r g key w) =
      (case fst (Store_Get (ce_store E) (ce_now E) (p @ key) (cw_store w)) of Inl e \<Rightarrow> Inl e | Inr raw \<Rightarrow> decode dec raw)"
    and "cw_store (snd (Get E to_any dec r g key w)) = snd (Store_Get (ce_store E) (ce_now E) (p @ key) (cw_store w))"
  using assms by (simp_all add: Get_def and_then_def key_untagged get_fst get_store)

definition example_env :: "(array_store, int) cache_env" where
  "example_env = \<lparr>ce_store = array_ops, ce_now = 0, ce_wall = 0, ce_random = (\<lambda>n. Some (show_nat n)),
     ce_sha1 = (\<lambda>x. x), ce_marshal = (\<lambda>n. Some (format_int n)), ce_int64 = (\<lambda>n. n)\<rparr>"

definition example_world :: "(array_store, int) cworld" where
  "example_world = \<lparr>cw_store = NewArrayStore, cw_fired = [], cw_draws = 0\<rparr>"

definition example_grant :: grant where
  "example_grant = SystemGrant ''invoices.write'' ''acme''"

lemma example_grant_ok: "Tenant example_grant = ''acme''" "Writable example_grant = None" "ValidTenant ''acme''"
    "ValidTenant ''globex''" "ValidTenant ''cache''"
  by code_simp+

text \<open>C10. Whatever a grant asks of the cache, tagged or not, with callbacks that use the cache
  themselves, through the refresh \<^verbatim>\<open>Flexible\<close> starts in the background or while it holds a lock, no
  entry and no tag generation of another tenant changes: every key of another valid tenant reads
  after the call, at any later time, as it did before.\<close>

theorem cache_calls_stay_in_tenant:
  assumes "ValidTenant other" "other \<noteq> Tenant g" "tenant_keys other k" "ce_now E \<le> t"
  shows "live_at t (array_snap (cw_store (run_call (over_array E) dec dec64 view r g c w))) k =
    live_at t (array_snap (cw_store w)) k"
proof -
  let ?A = "\<lambda>k. ValidTenant (Tenant g) \<and> tenant_keys (Tenant g) k"
  have "array_cache.may_write g ?A" by (simp add: array_cache.may_write_def)
  from array_cache.call_confined [OF this, of E w dec dec64 view r c]
  have "\<not> ?A k \<Longrightarrow> ?thesis" using assms(4) unfolding array_cache.confined_def by simp
  moreover have "\<not> ?A k" using assms(1-3) tenant_keys_disjoint by blast
  ultimately show ?thesis .
qed

theorem cache_calls_stay_in_tenant_witness:
  "live_at 5 (array_snap (cw_store (run_call (over_array example_env) parse_int parse_int (\<lambda>_. IsOther) Repository_New example_grant
     CallFlush example_world))) ''cache:globex:cache:total'' =
   live_at 5 (array_snap (cw_store example_world)) ''cache:globex:cache:total''"
proof (rule cache_calls_stay_in_tenant [of "''globex''"])
  show "tenant_keys ''globex'' ''cache:globex:cache:total''" by code_simp
qed (simp_all add: example_grant_ok example_env_def)

text \<open>C11. A grant that only reads leaves the entries of the cache as they were: whichever call it makes,
  including the ones that compute a value, the ones over tags and the ones that reset or flush tags,
  every entry of the store reads afterwards as before.\<close>

theorem reading_grants_store_nothing:
  assumes "Writable g \<noteq> None" "ce_now E \<le> t"
  shows "live_at t (array_snap (cw_store (run_call (over_array E) dec dec64 view r g c w))) =
    live_at t (array_snap (cw_store w))"
proof -
  have "array_cache.may_write g (\<lambda>_. False)" using assms(1) by (auto simp: array_cache.may_write_def)
  from array_cache.call_confined [OF this, of E w dec dec64 view r c] assms(2) show ?thesis
    unfolding array_cache.confined_def by auto
qed

definition viewing_grant :: grant where
  "viewing_grant = \<lparr>g_subject = Subject ''ana'' ''acme'' [] [] True False zero_time zero_time
     (Some (Subject ''op'' ''acme'' [] [] True False zero_time zero_time None False False)) False False,
     g_action = ''invoices.read'', g_valid = True, g_reason = NoReason, g_reads = False\<rparr>"

theorem reading_grants_store_nothing_witness:
  "live_at 5 (array_snap (cw_store (run_call (over_array example_env) parse_int parse_int (\<lambda>_. IsOther) Repository_New viewing_grant
     (CallRemember ''total'' Minute [CallFlushTag ''invoices''] (Inr 7)) example_world))) = live_at 5 (array_snap (cw_store example_world))"
proof (rule reading_grants_store_nothing)
  show "Writable viewing_grant \<noteq> None" by (simp add: viewing_grant_def Writable_def)
qed (simp add: example_env_def)

text \<open>C12. What is put through an untagged repository is read back: until its time to live runs out a value reads as what the codec
  makes of it, and from then on as a miss.\<close>

theorem cached_value_reads_back:
  assumes "r_tags r = None" "Repository_prefix r g = Inr p" "key \<noteq> []" "Writable g = None"
    and "ce_marshal E v = Some raw" "0 < ttl" "ce_now E \<le> t"
  shows "fst (Repository_Put (over_array E) r g key v ttl w) = Inr () \<and>
    fst (Get ((over_array E)\<lparr>ce_now := t\<rparr>) to_any dec r g key (snd (Repository_Put (over_array E) r g key v ttl w))) =
    (if t < ce_now E + ttl then decode dec raw else Inl ErrNotFound)"
  using assms array.get_after_put [OF TrueI assms(6,7), of "p @ key" raw "cw_store w"]
    Put_untagged [OF assms(1-4), of "over_array E" v raw ttl w]
  by (simp add: Get_untagged array.put_result)

lemma example_prefix: "Repository_prefix Repository_New example_grant = Inr ''cache:acme:cache:''"
  by code_simp

theorem cached_value_reads_back_witness:
  "fst (Get ((over_array example_env)\<lparr>ce_now := 5\<rparr>) (\<lambda>n. n) parse_int Repository_New example_grant ''total''
     (snd (Repository_Put (over_array example_env) Repository_New example_grant ''total'' 7 Minute example_world))) = Inr 7"
proof -
  have "parse_int (format_int 7) = Some 7" by code_simp
  moreover have "r_tags Repository_New = None" by (simp add: Repository_New_def)
  ultimately show ?thesis
    using cached_value_reads_back [OF _ example_prefix _ example_grant_ok(2), of "''total''" example_env 7 "format_int 7" Minute 5
        example_world "\<lambda>n. n" parse_int]
    by (simp add: example_env_def decode_def)
qed

text \<open>C13. A value an untagged repository remembers is computed once: when the key misses, \<^verbatim>\<open>Remember\<close> answers what the codec
  makes of the computed value, and every later call within the time to live answers the same,
  whatever its own computation would do, which does not run.\<close>

theorem remember_computes_once:
  assumes "r_tags r = None" "Repository_prefix r g = Inr p" "key \<noteq> []" "Writable g = None"
    and "live_at (ce_now E) (array_snap (cw_store w)) (p @ key) = None"
    and "ce_marshal E (to_any v) = Some raw" "dec raw = Some settled" "0 < ttl" "0 < ttl'"
    and "ce_now E \<le> t" "t < ce_now E + ttl"
  shows "\<exists>w'. Remember (over_array E) to_any dec r g key ttl (give (Inr v)) w = (Inr settled, w') \<and>
    (\<exists>w''. \<forall>compute. Remember ((over_array E)\<lparr>ce_now := t\<rparr>) to_any dec r g key ttl' compute w' = (Inr settled, w''))"
proof -
  let ?E = "over_array E" and ?k = "p @ key"
  obtain w1 where w1: "Get ?E to_any dec r g key w = (Inl ErrNotFound, w1)"
      "cw_store w1 = snd (Store_Get array_ops (ce_now E) ?k (cw_store w))"
    using Get_untagged [OF assms(1-3), of ?E to_any dec w] array.get_result [where s = "cw_store w" and now = "ce_now E" and k = ?k]
      assms(5) by (cases "Get ?E to_any dec r g key w") simp
  define w2 where "w2 = snd (Repository_Put ?E r g key (to_any v) ttl w1)"
  have first: "Remember ?E to_any dec r g key ttl (give (Inr v)) w = (Inr settled, w2)"
    using assms w1 by (simp add: Remember_def and_then_def key_untagged give_def roundTrip_def encode_def decode_def
        w2_def over_array_def)
  have "ce_marshal ?E (to_any v) = Some raw" using assms(6) by (simp add: over_array_def)
  from Put_untagged(2) [OF assms(1-4) this assms(8), of w1]
  have "cw_store w2 = snd (Store_Put array_ops (ce_now E) ?k raw ttl (cw_store w1))" by (simp add: w2_def)
  then have "fst (Get (?E\<lparr>ce_now := t\<rparr>) to_any dec r g key w2) = Inr settled"
    using array.get_after_put [OF TrueI assms(8,10), of ?k raw "cw_store w1"] assms
    by (simp add: Get_untagged decode_def)
  then have "Remember (?E\<lparr>ce_now := t\<rparr>) to_any dec r g key ttl' compute w2 =
      (Inr settled, snd (Get (?E\<lparr>ce_now := t\<rparr>) to_any dec r g key w2))" for compute
    using assms by (cases "Get (?E\<lparr>ce_now := t\<rparr>) to_any dec r g key w2") (simp add: Remember_def and_then_def key_untagged)
  with first show ?thesis by blast
qed

theorem remember_computes_once_witness:
  "\<exists>w'. Remember (over_array example_env) (\<lambda>n. n) parse_int Repository_New example_grant ''total'' Minute (give (Inr 7))
       example_world = (Inr 7, w') \<and>
    (\<exists>w''. \<forall>compute. Remember ((over_array example_env)\<lparr>ce_now := 5\<rparr>) (\<lambda>n. n) parse_int Repository_New example_grant
       ''total'' Minute compute w' = (Inr 7, w''))"
proof (rule remember_computes_once [OF _ example_prefix _ example_grant_ok(2), where raw = "format_int 7"])
  show "parse_int (format_int 7) = Some 7" by code_simp
  show "live_at (ce_now example_env) (array_snap (cw_store example_world)) (''cache:acme:cache:'' @ ''total'') = None"
    by (simp add: live_at_def array_snap_def example_world_def NewArrayStore_def)
qed (simp_all add: example_env_def Repository_New_def)



lemma tagged_key_read:
  assumes "r_tags r = Some names" "Repository_prefix r g = Inr p" "key \<noteq> []"
    and "\<forall>name \<in> set names. tag_ok name" "length ids = length names" "\<forall>x \<in> set ids. x \<noteq> []"
    and "\<forall>i < length names. \<exists>e. live_at (ce_now E) (array_snap (cw_store w)) (tag_key g (names ! i)) = Some (ids ! i, e)"
  shows "fst (Repository_key (over_array E) r g key w) = Inr (p @ digest E (join ''|'' ids) @ '':'' @ key)"
proof -
  have "ValidTenant (Tenant g)" using prefix_tenant [OF assms(2)] by simp
  from array_cache.tag_ids_read [OF this assms(4,5) _ assms(6), of E w] assms(7)
  have "fst (tag_ids (over_array E) g names w) = Inr ids" by simp
  with assms(1-3) show ?thesis
    by (auto simp: Repository_key_def taggedItemKey_def TagSet_GetNamespace_def and_then_def give_def digest_def
        split: prod.split sum.split)
qed

text \<open>C15. Flushing tags moves the keys: before \<^verbatim>\<open>TaggedCache.Flush\<close> an item lives under the digest of the
  generations the store holds for the tags, afterwards under the digest of the generations just
  minted, one for each tag. Where SHA-1 tells the two texts apart, the key is the same one if and only
  if every minted generation repeats the one before it, so one fresh generation is enough for
  everything cached under the tags to be out of reach. Nothing but the generations changed in the
  store.\<close>

theorem tag_flush_moves_keys:
  assumes "r_tags r = Some names" "Repository_prefix r g = Inr p" "Writable g = None" "key \<noteq> []"
    and "\<forall>name \<in> set names. tag_ok name" "distinct names" "\<forall>n. ce_random E n \<noteq> None"
    and "ce_now E \<le> t" "t < ce_now E + foreverTTL"
    and "length olds = length names" "\<forall>old \<in> set olds. old \<noteq> [] \<and> CHR ''|'' \<notin> set old"
    and "\<forall>i < length names. \<exists>e. live_at (ce_now E) (array_snap (cw_store w)) (tag_key g (names ! i)) = Some (olds ! i, e)"
    and "news = map (minted E) [cw_draws w..<cw_draws w + length names]"
    and "inj_on (ce_sha1 E) {join ''|'' olds, join ''|'' news}"
  shows "\<exists>w' before after. TaggedCache_Flush (over_array E) r g names w = (Inr (), w') \<and>
    fst (Repository_key (over_array E) r g key w) = Inr before \<and>
    before = p @ digest E (join ''|'' olds) @ '':'' @ key \<and>
    fst (Repository_key ((over_array E)\<lparr>ce_now := t\<rparr>) r g key w') = Inr after \<and>
    after = p @ digest E (join ''|'' news) @ '':'' @ key \<and>
    (after = before \<longleftrightarrow> news = olds) \<and>
    (\<forall>k. k \<notin> tag_key g ` set names \<longrightarrow> live_at t (array_snap (cw_store w')) k = live_at t (array_snap (cw_store w)) k)"
proof -
  let ?E = "over_array E" and ?w = "fire r (CacheFlushing (Repository_GetName r) (r_tags r)) w"
  let ?E' = "E\<lparr>ce_now := t\<rparr>"
  have m: "minted ?E = minted E" by (simp add: minted_def fun_eq_iff)
  have tenant: "ValidTenant (Tenant g)" using prefix_tenant [OF assms(2)] by simp
  have draws: "cw_draws ?w = cw_draws w" by (simp add: fire_def)
  have rnd: "\<forall>n. ce_random ?E n \<noteq> None" using assms(7) by simp
  from array_cache.Reset_effect [where E = E and w = ?w, OF assms(3) tenant assms(5,6) rnd] obtain w1 where
    w1: "TagSet_Reset ?E g names ?w = (Inr (), w1)"
      "\<forall>i < length names. live_at t (array_snap (cw_store w1)) (tag_key g (names ! i)) =
        Some (minted E (cw_draws w + i), ce_now E + foreverTTL)"
      "\<forall>k. k \<notin> tag_key g ` set names \<longrightarrow> live_at t (array_snap (cw_store w1)) k = live_at t (array_snap (cw_store w)) k"
    using assms(8,9) unfolding m draws fire_store over_array_simps by blast
  define w' where "w' = fire r (CacheFlushed (Repository_GetName r) (r_tags r)) w1"
  have flush: "TaggedCache_Flush ?E r g names w = (Inr (), w')"
    by (simp add: TaggedCache_Flush_def w1(1) w'_def)
  have news: "\<forall>x \<in> set news. x \<noteq> [] \<and> CHR ''|'' \<notin> set x" "length news = length names"
    unfolding assms(13) by (auto simp: minted_nonempty minted_no_bar)
  have before: "fst (Repository_key ?E r g key w) = Inr (p @ digest E (join ''|'' olds) @ '':'' @ key)"
    using assms(11) by (intro tagged_key_read [OF assms(1,2,4,5,10) _ assms(12)]) simp
  have "fst (Repository_key (over_array ?E') r g key w') = Inr (p @ digest ?E' (join ''|'' news) @ '':'' @ key)"
    by (rule tagged_key_read [OF assms(1,2,4,5) news(2)]) (use news(1) w1(2) in \<open>auto simp: w'_def assms(13)\<close>)
  moreover have "over_array ?E' = ?E\<lparr>ce_now := t\<rparr>" "digest ?E' = digest E"
    by (simp_all add: over_array_def digest_def fun_eq_iff)
  ultimately have after: "fst (Repository_key (?E\<lparr>ce_now := t\<rparr>) r g key w') = Inr (p @ digest E (join ''|'' news) @ '':'' @ key)"
    by simp
  have "digest E (join ''|'' news) = digest E (join ''|'' olds) \<longleftrightarrow> join ''|'' news = join ''|'' olds"
    using assms(14) by (auto simp: digest_def)
  also have "\<dots> \<longleftrightarrow> news = olds"
    using news assms(10,11) by (intro join_bar_inj) auto
  finally show ?thesis using flush before after w1(3) by (simp add: w'_def)
qed

definition example_tagged :: repository where
  "example_tagged = Repository_New\<lparr>r_tags := Some [''invoices'']\<rparr>"

definition example_tagged_world :: "(array_store, int) cworld" where
  "example_tagged_world = snd (TagSet_ResetTag example_env example_grant ''invoices'' example_world)"

lemma example_generation: "array_snap (cw_store example_tagged_world) (tag_key example_grant ''invoices'') =
    Some (minted example_env 0, foreverTTL)"
  by code_simp

lemma example_minted: "ce_sha1 example_env (minted example_env 0) \<noteq> ce_sha1 example_env (minted example_env 1)"
    "minted example_env 1 \<noteq> minted example_env 0"
  by code_simp+

lemma example_draws: "cw_draws example_tagged_world = 1"
  by code_simp

theorem tag_flush_moves_keys_witness:
  "\<exists>w' before after.
     TaggedCache_Flush (over_array example_env) example_tagged example_grant [''invoices''] example_tagged_world = (Inr (), w') \<and>
     fst (Repository_key (over_array example_env) example_tagged example_grant ''total'' example_tagged_world) = Inr before \<and>
     fst (Repository_key ((over_array example_env)\<lparr>ce_now := 5\<rparr>) example_tagged example_grant ''total'' w') = Inr after \<and>
     after \<noteq> before"
proof -
  have pre: "Repository_prefix example_tagged example_grant = Inr ''cache:acme:cache:''" by code_simp
  have r: "r_tags example_tagged = Some [''invoices'']" by (simp add: example_tagged_def)
  have now: "ce_now example_env \<le> 5" "5 < ce_now example_env + foreverTTL" "ce_now example_env = 0"
    by (simp_all add: example_env_def foreverTTL_def)
  have tags: "\<forall>name \<in> set [''invoices'']. tag_ok name" "distinct [''invoices'']" "\<forall>n. ce_random example_env n \<noteq> None"
    by (simp_all add: tag_ok_def example_env_def)
  have olds: "length [minted example_env 0] = length [''invoices'']"
    "\<forall>old \<in> set [minted example_env 0]. old \<noteq> [] \<and> CHR ''|'' \<notin> set old"
    by (simp_all add: minted_nonempty minted_no_bar)
  have live: "\<forall>i < length [''invoices'']. \<exists>e. live_at (ce_now example_env) (array_snap (cw_store example_tagged_world))
      (tag_key example_grant ([''invoices''] ! i)) = Some ([minted example_env 0] ! i, e)"
    by (simp add: live_at_def example_generation now(3) foreverTTL_def)
  have news: "[minted example_env 1] =
      map (minted example_env) [cw_draws example_tagged_world..<cw_draws example_tagged_world + length [''invoices'']]"
    by (simp add: example_draws upt_rec)
  have inj: "inj_on (ce_sha1 example_env) {join ''|'' [minted example_env 0], join ''|'' [minted example_env 1]}"
    using example_minted(1) by (simp add: inj_on_def)
  have "''total'' \<noteq> []" by simp
  from tag_flush_moves_keys [OF r pre example_grant_ok(2) this tags now(1,2) olds live news inj] example_minted(2)
  show ?thesis by auto
qed

text \<open>C16. The namespace \<^verbatim>\<open>tag\<close> is where a tenant's tag generations live: an item whose key is a tag's
  name and \<^verbatim>\<open>:key\<close> in that namespace is the generation of the tag, so putting or flushing there
  changes what every tagged cache of the tenant reads.\<close>

theorem namespace_tag_holds_generations:
  assumes "ValidTenant (Tenant g)" "tag_ok name" "r_tags r = None"
  shows "fst (Repository_key E (Repository_Namespace ''tag'' r) g (name @ '':key'') w) = TagSet_TagKey g name"
proof -
  have "ValidTenant ''tag''" by code_simp
  moreover have "Tenant g \<noteq> []" using assms(1) by auto
  ultimately show ?thesis using assms
    by (simp add: TagKey_ok tag_key_def Repository_key_def Repository_prefix_def Repository_Namespace_def and_then_def
      give_def Let_def)
qed

theorem namespace_tag_holds_generations_witness:
  "fst (Repository_key example_env (Repository_Namespace ''tag'' Repository_New) example_grant (''invoices'' @ '':key'')
     example_world) = TagSet_TagKey example_grant ''invoices''"
  by (rule namespace_tag_holds_generations) (simp_all add: example_grant_ok tag_ok_def Repository_New_def)

end
