(* ===== verification/Memoized_Store.thy ===== *)
theory Memoized_Store
  imports Array_Store
begin

text \<open>
  The store that remembers what it read for the length of a request, \<^verbatim>\<open>cache/memoized.go\<close>, over any
  store. The memo maps a key to what it answered, a miss being remembered as \<^const>\<open>None\<close>; a stored
  value is a slice that is not nil. The mutex guards the memo only and is not held across the call
  to the store underneath, so a read is three steps and a write two; the methods are their
  composition, and the last property runs the steps of two callers against each other.
\<close>

section \<open>The store\<close>

record 's memoized =
  ms_name :: string
  ms_store :: 's
  ms_memo :: "string \<rightharpoonup> bytes option"

definition NewMemoizedStore :: "string \<Rightarrow> 's \<Rightarrow> 's memoized" where
  "NewMemoizedStore name st = \<lparr>ms_name = name, ms_store = st, ms_memo = Map.empty\<rparr>"

definition MemoizedStore_Name :: "'s memoized \<Rightarrow> string" where
  "MemoizedStore_Name s = ms_name s"

definition remember :: "string \<Rightarrow> bytes option \<Rightarrow> 's memoized \<Rightarrow> 's memoized" where
  "remember key v s = s\<lparr>ms_memo := (ms_memo s)(key \<mapsto> v)\<rparr>"

definition forget :: "string \<Rightarrow> 's memoized \<Rightarrow> 's memoized" where
  "forget key s = s\<lparr>ms_memo := (ms_memo s)(key := None)\<rparr>"

text \<open>A call to the store underneath.\<close>

definition through :: "('s \<Rightarrow> 'a \<times> 's) \<Rightarrow> 's memoized \<Rightarrow> 'a \<times> 's memoized" where
  "through f s = (case f (ms_store s) of (r, st) \<Rightarrow> (r, s\<lparr>ms_store := st\<rparr>))"

definition MemoizedStore_Get :: "'s store \<Rightarrow> instant \<Rightarrow> string \<Rightarrow> 's memoized \<Rightarrow> bytes go \<times> 's memoized" where
  "MemoizedStore_Get St now key s =
     (case ms_memo s key of
        Some None \<Rightarrow> (Inl ErrNotFound, s)
      | Some (Some v) \<Rightarrow> (Inr v, s)
      | None \<Rightarrow>
          (case through (Store_Get St now key) s of
             (Inr v, s') \<Rightarrow> (Inr v, remember key (Some v) s')
           | (Inl err, s') \<Rightarrow>
               if errors_is err ErrNotFound then (Inl ErrNotFound, remember key None s') else (Inl err, s')))"

text \<open>The read of several keys from a store without a batch read.\<close>

fun many_each ::
  "'s store \<Rightarrow> instant \<Rightarrow> string list \<Rightarrow> (string \<rightharpoonup> bytes option) \<Rightarrow> 's \<Rightarrow> (string \<rightharpoonup> bytes option) go \<times> 's" where
  "many_each St now [] out st = (Inr out, st)"
| "many_each St now (key # keys) out st =
     (case Store_Get St now key st of
        (Inr v, st') \<Rightarrow> many_each St now keys (out(key \<mapsto> Some v)) st'
      | (Inl err, st') \<Rightarrow>
          if errors_is err ErrNotFound then many_each St now keys (out(key \<mapsto> None)) st' else (Inl err, st'))"

definition many_of :: "'s store \<Rightarrow> instant \<Rightarrow> string list \<Rightarrow> 's \<Rightarrow> (string \<rightharpoonup> bytes option) go \<times> 's" where
  "many_of St now keys st =
     (case as_Many St of Some many \<Rightarrow> many now keys st | None \<Rightarrow> many_each St now keys Map.empty st)"

fun recall :: "(string \<rightharpoonup> bytes option) \<Rightarrow> string list \<Rightarrow> (string \<rightharpoonup> bytes option) \<Rightarrow> (string \<rightharpoonup> bytes option) \<times> string list" where
  "recall memo [] out = (out, [])"
| "recall memo (key # keys) out =
     (case memo key of
        Some v \<Rightarrow> recall memo keys (out(key \<mapsto> v))
      | None \<Rightarrow> (case recall memo keys out of (out', missing) \<Rightarrow> (out', key # missing)))"

definition MemoizedStore_Many ::
  "'s store \<Rightarrow> instant \<Rightarrow> string list \<Rightarrow> 's memoized \<Rightarrow> (string \<rightharpoonup> bytes option) go \<times> 's memoized" where
  "MemoizedStore_Many St now keys s =
     (case recall (ms_memo s) keys Map.empty of
        (out, missing) \<Rightarrow>
          if missing = [] then (Inr out, s)
          else (case through (many_of St now missing) s of
                  (Inl err, s') \<Rightarrow> (Inl err, s')
                | (Inr retrieved, s') \<Rightarrow> (Inr (out ++ retrieved), s'\<lparr>ms_memo := ms_memo s' ++ retrieved\<rparr>)))"

definition MemoizedStore_Put :: "'s store \<Rightarrow> instant \<Rightarrow> string \<Rightarrow> bytes \<Rightarrow> duration \<Rightarrow> 's memoized \<Rightarrow> unit go \<times> 's memoized" where
  "MemoizedStore_Put St now key v ttl s = through (Store_Put St now key v ttl) (forget key s)"

fun put_each :: "'s store \<Rightarrow> instant \<Rightarrow> (string \<times> bytes) list \<Rightarrow> duration \<Rightarrow> 's \<Rightarrow> unit go \<times> 's" where
  "put_each St now [] ttl st = (Inr (), st)"
| "put_each St now ((key, v) # rest) ttl st =
     (case Store_Put St now key v ttl st of
        (Inl err, st') \<Rightarrow> (Inl err, st')
      | (Inr _, st') \<Rightarrow> put_each St now rest ttl st')"

definition put_many_of :: "'s store \<Rightarrow> instant \<Rightarrow> (string \<times> bytes) list \<Rightarrow> duration \<Rightarrow> 's \<Rightarrow> unit go \<times> 's" where
  "put_many_of St now kvs ttl st =
     (case as_PutMany St of Some put \<Rightarrow> put now kvs ttl st | None \<Rightarrow> put_each St now kvs ttl st)"

definition MemoizedStore_PutMany ::
  "'s store \<Rightarrow> instant \<Rightarrow> (string \<times> bytes) list \<Rightarrow> duration \<Rightarrow> 's memoized \<Rightarrow> unit go \<times> 's memoized" where
  "MemoizedStore_PutMany St now kvs ttl s = through (put_many_of St now kvs ttl) (fold forget (map fst kvs) s)"

definition MemoizedStore_Add :: "'s store \<Rightarrow> instant \<Rightarrow> string \<Rightarrow> bytes \<Rightarrow> duration \<Rightarrow> 's memoized \<Rightarrow> bool go \<times> 's memoized" where
  "MemoizedStore_Add St now key v ttl s = through (Store_Add St now key v ttl) (forget key s)"

definition MemoizedStore_Increment :: "'s store \<Rightarrow> instant \<Rightarrow> string \<Rightarrow> int \<Rightarrow> duration \<Rightarrow> 's memoized \<Rightarrow> int go \<times> 's memoized" where
  "MemoizedStore_Increment St now key delta ttl s = through (Store_Increment St now key delta ttl) (forget key s)"

definition MemoizedStore_Decrement :: "'s store \<Rightarrow> instant \<Rightarrow> string \<Rightarrow> int \<Rightarrow> duration \<Rightarrow> 's memoized \<Rightarrow> int go \<times> 's memoized" where
  "MemoizedStore_Decrement St now key delta ttl s = MemoizedStore_Increment St now key (wrap64 (- delta)) ttl s"

definition MemoizedStore_Forever :: "'s store \<Rightarrow> instant \<Rightarrow> string \<Rightarrow> bytes \<Rightarrow> 's memoized \<Rightarrow> unit go \<times> 's memoized" where
  "MemoizedStore_Forever St now key v s = MemoizedStore_Put St now key v foreverTTL s"

definition touch_of :: "'s store \<Rightarrow> instant \<Rightarrow> string \<Rightarrow> duration \<Rightarrow> 's \<Rightarrow> bool go \<times> 's" where
  "touch_of St now key ttl st = (case as_Touch St of Some touch \<Rightarrow> touch now key ttl st | None \<Rightarrow> (Inr False, st))"

definition MemoizedStore_Touch :: "'s store \<Rightarrow> instant \<Rightarrow> string \<Rightarrow> duration \<Rightarrow> 's memoized \<Rightarrow> bool go \<times> 's memoized" where
  "MemoizedStore_Touch St now key ttl s = through (touch_of St now key ttl) (forget key s)"

definition MemoizedStore_Forget :: "'s store \<Rightarrow> instant \<Rightarrow> string \<Rightarrow> 's memoized \<Rightarrow> unit go \<times> 's memoized" where
  "MemoizedStore_Forget St now key s = through (Store_Forget St now key) (forget key s)"

definition MemoizedStore_Flush :: "'s store \<Rightarrow> instant \<Rightarrow> string \<Rightarrow> 's memoized \<Rightarrow> unit go \<times> 's memoized" where
  "MemoizedStore_Flush St now prefix s = through (Store_Flush St now prefix) (s\<lparr>ms_memo := Map.empty\<rparr>)"

definition MemoizedStore_AcquireLock ::
  "'s store \<Rightarrow> instant \<Rightarrow> string \<Rightarrow> string \<Rightarrow> duration \<Rightarrow> 's memoized \<Rightarrow> bool go \<times> 's memoized" where
  "MemoizedStore_AcquireLock St now key token ttl s =
     (case as_Locking St of None \<Rightarrow> (Inl ErrUnsupported, s) | Some L \<Rightarrow> through (AcquireLock L now key token ttl) s)"

definition MemoizedStore_ReleaseLock :: "'s store \<Rightarrow> instant \<Rightarrow> string \<Rightarrow> string \<Rightarrow> 's memoized \<Rightarrow> unit go \<times> 's memoized" where
  "MemoizedStore_ReleaseLock St now key token s =
     (case as_Locking St of None \<Rightarrow> (Inl ErrUnsupported, s) | Some L \<Rightarrow> through (ReleaseLock L now key token) s)"

definition MemoizedStore_CurrentOwner :: "'s store \<Rightarrow> instant \<Rightarrow> string \<Rightarrow> 's memoized \<Rightarrow> string go \<times> 's memoized" where
  "MemoizedStore_CurrentOwner St now key s =
     (case as_CurrentOwner St of None \<Rightarrow> (Inl ErrUnsupported, s) | Some owner \<Rightarrow> through (owner now key) s)"

definition MemoizedStore_GetStore :: "'s memoized \<Rightarrow> 's" where
  "MemoizedStore_GetStore s = ms_store s"

section \<open>What a caller sees\<close>

text \<open>A call of the interface, made on the store itself and through the memo, and what it answers.\<close>

datatype store_call =
    CGet string
  | CMany "string list"
  | CPut string bytes duration
  | CPutMany "(string \<times> bytes) list" duration
  | CAdd string bytes duration
  | CIncrement string int duration
  | CTouch string duration
  | CForget string
  | CFlush string

datatype answer =
    ABytes "bytes go"
  | AMap "(string \<rightharpoonup> bytes option) go"
  | AUnit "unit go"
  | ABool "bool go"
  | AInt "int go"

fun direct_call :: "'s store \<Rightarrow> instant \<Rightarrow> store_call \<Rightarrow> 's \<Rightarrow> answer \<times> 's" where
  "direct_call St now (CGet k) s = map_prod ABytes id (Store_Get St now k s)"
| "direct_call St now (CMany ks) s = map_prod AMap id (many_of St now ks s)"
| "direct_call St now (CPut k v ttl) s = map_prod AUnit id (Store_Put St now k v ttl s)"
| "direct_call St now (CPutMany kvs ttl) s = map_prod AUnit id (put_many_of St now kvs ttl s)"
| "direct_call St now (CAdd k v ttl) s = map_prod ABool id (Store_Add St now k v ttl s)"
| "direct_call St now (CIncrement k d ttl) s = map_prod AInt id (Store_Increment St now k d ttl s)"
| "direct_call St now (CTouch k ttl) s = map_prod ABool id (touch_of St now k ttl s)"
| "direct_call St now (CForget k) s = map_prod AUnit id (Store_Forget St now k s)"
| "direct_call St now (CFlush p) s = map_prod AUnit id (Store_Flush St now p s)"

fun memo_call :: "'s store \<Rightarrow> instant \<Rightarrow> store_call \<Rightarrow> 's memoized \<Rightarrow> answer \<times> 's memoized" where
  "memo_call St now (CGet k) s = map_prod ABytes id (MemoizedStore_Get St now k s)"
| "memo_call St now (CMany ks) s = map_prod AMap id (MemoizedStore_Many St now ks s)"
| "memo_call St now (CPut k v ttl) s = map_prod AUnit id (MemoizedStore_Put St now k v ttl s)"
| "memo_call St now (CPutMany kvs ttl) s = map_prod AUnit id (MemoizedStore_PutMany St now kvs ttl s)"
| "memo_call St now (CAdd k v ttl) s = map_prod ABool id (MemoizedStore_Add St now k v ttl s)"
| "memo_call St now (CIncrement k d ttl) s = map_prod AInt id (MemoizedStore_Increment St now k d ttl s)"
| "memo_call St now (CTouch k ttl) s = map_prod ABool id (MemoizedStore_Touch St now k ttl s)"
| "memo_call St now (CForget k) s = map_prod AUnit id (MemoizedStore_Forget St now k s)"
| "memo_call St now (CFlush p) s = map_prod AUnit id (MemoizedStore_Flush St now p s)"

fun run_calls :: "(instant \<Rightarrow> store_call \<Rightarrow> 's \<Rightarrow> answer \<times> 's) \<Rightarrow> (instant \<times> store_call) list \<Rightarrow> 's \<Rightarrow> answer list \<times> 's" where
  "run_calls call [] s = ([], s)"
| "run_calls call ((now, c) # rest) s =
     (case call now c s of (a, s') \<Rightarrow> case run_calls call rest s' of (as, s'') \<Rightarrow> (a # as, s''))"

text \<open>The memo answers what the store answers, or a value the store has since let expire.\<close>

definition same_or_expired :: "bytes option \<Rightarrow> bytes option \<Rightarrow> bool" where
  "same_or_expired r r' \<longleftrightarrow> r = r' \<or> r' = None"

fun agrees :: "answer \<Rightarrow> answer \<Rightarrow> bool" where
  "agrees (ABytes (Inr v)) (ABytes (Inl err)) \<longleftrightarrow> err = ErrNotFound"
| "agrees (AMap (Inr f)) (AMap (Inr g)) \<longleftrightarrow> dom f = dom g \<and> (\<forall>k. same_or_expired (the (f k)) (the (g k)))"
| "agrees a b \<longleftrightarrow> a = b"

text \<open>Whatever is live under a remembered key is what is remembered.\<close>

definition coherent :: "instant \<Rightarrow> (string \<rightharpoonup> bytes option) \<Rightarrow> snapshot \<Rightarrow> bool" where
  "coherent now memo m \<longleftrightarrow>
     (\<forall>k r v e. memo k = Some r \<longrightarrow> live_at now m k = Some (v, e) \<longrightarrow> r = Some v)"

lemma coherent_later: "coherent now memo m \<Longrightarrow> now \<le> t \<Longrightarrow> coherent t memo m"
  unfolding coherent_def using live_at_mono by blast

lemma coherent_empty [simp]: "coherent now Map.empty m"
  by (simp add: coherent_def)

text \<open>A write through the memo forgets the keys it may change, so what it keeps is unchanged.\<close>

lemma coherent_frame:
  assumes "coherent now memo m" "\<And>k. k \<notin> ks \<Longrightarrow> live_at now m' k = live_at now m k"
  shows "coherent now (memo |` (- ks)) m'"
  unfolding coherent_def
proof (intro allI impI)
  fix k r v e
  assume "(memo |` (- ks)) k = Some r" "live_at now m' k = Some (v, e)"
  then have "memo k = Some r" "live_at now m k = Some (v, e)"
    using assms(2) by (auto simp: restrict_map_def split: if_splits)
  with assms(1) show "r = Some v" unfolding coherent_def by blast
qed

lemma forget_memo: "ms_memo (forget k s) = ms_memo s |` (- {k})" "ms_store (forget k s) = ms_store s"
  by (auto simp: forget_def restrict_map_def)

lemma forget_all_memo:
  "ms_memo (fold forget ks s) = ms_memo s |` (- set ks) \<and> ms_store (fold forget ks s) = ms_store s"
proof (induction ks arbitrary: s)
  case (Cons k ks)
  have "- {k} \<inter> - set ks = - set (k # ks)" by auto
  with Cons [of "forget k s"] show ?case by (simp add: forget_memo restrict_restrict)
qed (simp add: restrict_map_def)

lemma through_simps [simp]:
  "fst (through f s) = fst (f (ms_store s))" "ms_store (snd (through f s)) = snd (f (ms_store s))"
  "ms_memo (snd (through f s)) = ms_memo s"
  by (simp_all add: through_def split: prod.split)

lemma written_key: "k \<notin> set (map fst kvs) \<Longrightarrow> written kvs e m k = m k"
  by (induction kvs arbitrary: m) (auto simp: written_def)

lemma live_at_cong: "live_at now m = live_at now m' \<Longrightarrow> live_at now (m(k \<mapsto> ve)) = live_at now (m'(k \<mapsto> ve))"
  by (cases ve) (simp add: live_at_upd)

lemma written_cong: "live_at now m = live_at now m' \<Longrightarrow> live_at now (written kvs e m) = live_at now (written kvs e m')"
proof (induction kvs arbitrary: m m')
  case (Cons kv kvs)
  obtain k v where kv: "kv = (k, v)" by (cases kv)
  from Cons.IH [OF live_at_cong [OF Cons.prems, of k "(v, e)"]] show ?case by (simp add: written_def kv fun_upd_def)
qed (simp add: written_def)

lemma agrees_refl [simp]: "agrees a a"
proof (cases a)
  case (ABytes r)
  then show ?thesis by (cases r) simp_all
next
  case (AMap r)
  then show ?thesis by (cases r) (simp_all add: same_or_expired_def)
qed simp_all

lemma recall_facts: "recall memo ks out =
    ((\<lambda>k. if k \<in> set ks \<and> memo k \<noteq> None then memo k else out k), filter (\<lambda>k. memo k = None) ks)"
  by (induction ks arbitrary: out) (auto simp: fun_eq_iff split: option.split)

text \<open>An operation whose answer and whose effect depend on the live entries only, and which changes
  no key outside \<open>ks\<close>.\<close>

context batch_contract
begin

definition lawful :: "instant \<Rightarrow> string set \<Rightarrow> ('s \<Rightarrow> 'a \<times> 's) \<Rightarrow> bool" where
  "lawful now ks f \<longleftrightarrow>
     (\<forall>s. invar s \<longrightarrow> invar (snd (f s)) \<and> (\<forall>k. k \<notin> ks \<longrightarrow> live_at now (snap (snd (f s))) k = live_at now (snap s) k)) \<and>
     (\<forall>s s'. invar s \<longrightarrow> invar s' \<longrightarrow> live_at now (snap s) = live_at now (snap s') \<longrightarrow>
        fst (f s) = fst (f s') \<and> live_at now (snap (snd (f s))) = live_at now (snap (snd (f s'))))"

lemma lawfulI:
  assumes "\<And>s. invar s \<Longrightarrow> invar (snd (f s))"
    and "\<And>s k. invar s \<Longrightarrow> k \<notin> ks \<Longrightarrow> live_at now (snap (snd (f s))) k = live_at now (snap s) k"
    and "\<And>s s'. invar s \<Longrightarrow> invar s' \<Longrightarrow> live_at now (snap s) = live_at now (snap s') \<Longrightarrow> fst (f s) = fst (f s')"
    and "\<And>s s'. invar s \<Longrightarrow> invar s' \<Longrightarrow> live_at now (snap s) = live_at now (snap s') \<Longrightarrow>
      live_at now (snap (snd (f s))) = live_at now (snap (snd (f s')))"
  shows "lawful now ks f"
  using assms unfolding lawful_def by blast

lemma lawfulD:
  assumes "lawful now ks f" "invar s"
  shows "invar (snd (f s))" "k \<notin> ks \<Longrightarrow> live_at now (snap (snd (f s))) k = live_at now (snap s) k"
    "invar s' \<Longrightarrow> live_at now (snap s) = live_at now (snap s') \<Longrightarrow> fst (f s) = fst (f s')"
    "invar s' \<Longrightarrow> live_at now (snap s) = live_at now (snap s') \<Longrightarrow>
      live_at now (snap (snd (f s))) = live_at now (snap (snd (f s')))"
  using assms unfolding lawful_def by blast+

lemma lawful_get: "lawful now ks (Store_Get St now k)"
  by (rule lawfulI) (simp_all add: get_invar get_keeps get_result)

lemma lawful_forget: "lawful now {k} (Store_Forget St now k)"
  by (rule lawfulI) (simp_all add: forget_invar forget_snap forget_result)

lemma lawful_flush: "lawful now UNIV (Store_Flush St now p)"
  by (rule lawfulI) (simp_all add: flush_invar flush_snap flush_result fun_eq_iff)

lemma lawful_put: "lawful now {k} (Store_Put St now k v ttl)"
proof (cases "0 < ttl")
  case True
  then show ?thesis
    by (intro lawfulI) (simp_all add: put_invar put_snap put_result live_at_upd)
qed (rule lawfulI, simp_all add: put_refuses)

lemma lawful_add: "lawful now {k} (Store_Add St now k v ttl)"
proof (cases "0 < ttl")
  case True
  then show ?thesis
    by (intro lawfulI) (simp_all add: add_invar add_snap add_result live_at_upd)
qed (rule lawfulI, simp_all add: add_refuses)

lemma lawful_increment: "lawful now {k} (Store_Increment St now k d ttl)"
proof (cases "0 < ttl")
  case True
  then show ?thesis
    by (intro lawfulI)
      (simp_all add: increment_invar increment_snap increment_result live_at_upd counter_of_def deadline_of_def split: option.split)
qed (rule lawfulI, simp_all add: increment_refuses)

lemma lawful_touch: "lawful now {k} (touch_of St now k ttl)"
proof (cases "as_Touch St")
  case None
  then show ?thesis by (intro lawfulI) (simp_all add: touch_of_def)
next
  case (Some touch)
  note touch = touch_result [OF Some] touch_snap [OF Some] touch_invar [OF Some] touch_refuses [OF Some]
  show ?thesis
  proof (cases "0 < ttl")
    case True
    then show ?thesis
      by (intro lawfulI) (auto simp: touch_of_def Some touch live_at_upd split: option.split)
  qed (rule lawfulI, simp_all add: touch_of_def Some touch)
qed

lemma many_each_facts:
  "invar s \<Longrightarrow> fst (many_each St now ks out s) =
     Inr (\<lambda>k. if k \<in> set ks then Some (map_option fst (live_at now (snap s) k)) else out k) \<and>
     live_at now (snap (snd (many_each St now ks out s))) = live_at now (snap s) \<and> invar (snd (many_each St now ks out s))"
proof (induction ks arbitrary: out s)
  case (Cons k ks)
  obtain r s' where g: "Store_Get St now k s = (r, s')" by (cases "Store_Get St now k s")
  have s': "invar s'" "live_at now (snap s') = live_at now (snap s)"
    using get_invar [OF Cons.prems, of now k] get_keeps [OF Cons.prems, of now now k] g by simp_all
  have r: "r = (case live_at now (snap s) k of None \<Rightarrow> Inl ErrNotFound | Some (v, _) \<Rightarrow> Inr v)"
    using get_result [OF Cons.prems, of now k] g by simp
  show ?case
  proof (cases "live_at now (snap s) k")
    case None
    with r g have "many_each St now (k # ks) out s = many_each St now ks (out(k \<mapsto> None)) s'" by simp
    with Cons.IH [OF s'(1), of "out(k \<mapsto> None)"] s'(2) None show ?thesis by (auto simp: fun_upd_def fun_eq_iff)
  next
    case (Some ve)
    then have "many_each St now (k # ks) out s = many_each St now ks (out(k \<mapsto> Some (fst ve))) s'"
      using r g by (cases ve) simp
    with Cons.IH [OF s'(1), of "out(k \<mapsto> Some (fst ve))"] s'(2) Some show ?thesis by (auto simp: fun_upd_def fun_eq_iff)
  qed
qed simp

lemma many_of_facts:
  assumes "invar s"
  shows "fst (many_of St now ks s) = Inr (\<lambda>k. if k \<in> set ks then Some (map_option fst (live_at now (snap s) k)) else None)"
    "live_at now (snap (snd (many_of St now ks s))) = live_at now (snap s)" "invar (snd (many_of St now ks s))"
  using many_each_facts [OF assms, of now ks Map.empty] many_result [OF _ assms] many_keeps [OF _ assms, of _ now now]
    many_invar [OF _ assms]
  by (cases "as_Many St"; simp add: many_of_def)+

lemma lawful_many: "lawful now ks' (many_of St now ks)"
  by (rule lawfulI) (simp_all add: many_of_facts cong: if_cong)

lemma lawful_put_each: "lawful now (fst ` set kvs) (put_each St now kvs ttl)"
proof (induction kvs)
  case Nil
  show ?case by (rule lawfulI) simp_all
next
  case (Cons kv kvs)
  obtain k v where kv: "kv = (k, v)" by (cases kv)
  note put = lawfulD [OF lawful_put [of now k v ttl]] and IH = lawfulD [OF Cons]
  have step: "put_each St now (kv # kvs) ttl s =
      (case fst (Store_Put St now k v ttl s) of
         Inl err \<Rightarrow> (Inl err, snd (Store_Put St now k v ttl s))
       | Inr _ \<Rightarrow> put_each St now kvs ttl (snd (Store_Put St now k v ttl s)))" for s
    by (simp add: kv split: prod.split sum.split)
  show ?case
  proof (rule lawfulI)
    fix s assume s: "invar s"
    show "invar (snd (put_each St now (kv # kvs) ttl s))"
      unfolding step using put(1) [OF s] IH(1) by (simp split: sum.split)
    show "live_at now (snap (snd (put_each St now (kv # kvs) ttl s))) k' = live_at now (snap s) k'"
      if "k' \<notin> fst ` set (kv # kvs)" for k'
      unfolding step using that put(1,2) [OF s] IH(2) by (simp add: kv split: sum.split)
  next
    fix s s' assume s: "invar s" "invar s'" "live_at now (snap s) = live_at now (snap s')"
    note same = put(3,4) [OF s(1) s(2,3)] put(1) [OF s(1)] put(1) [OF s(2)]
    note rest = IH(3,4) [OF same(3) same(4,2)]
    show "fst (put_each St now (kv # kvs) ttl s) = fst (put_each St now (kv # kvs) ttl s')"
      unfolding step same(1) using rest(1) by (simp split: sum.split)
    show "live_at now (snap (snd (put_each St now (kv # kvs) ttl s))) = live_at now (snap (snd (put_each St now (kv # kvs) ttl s')))"
      unfolding step same(1) using rest(2) same(2) by (simp split: sum.split)
  qed
qed

lemma lawful_put_many: "lawful now (fst ` set kvs) (put_many_of St now kvs ttl)"
proof (cases "as_PutMany St")
  case None
  with lawful_put_each show ?thesis by (simp add: put_many_of_def [abs_def])
next
  case (Some put)
  note put = put_many_result [OF Some] put_many_snap [OF Some] put_many_invar [OF Some] put_many_refuses [OF Some]
  show ?thesis
  proof (cases "0 < ttl")
    case True
    show ?thesis
    proof (rule lawfulI)
      fix s k assume "invar s" "k \<notin> fst ` set kvs"
      with True show "live_at now (snap (snd (put_many_of St now kvs ttl s))) k = live_at now (snap s) k"
        by (simp add: put_many_of_def Some put live_at_def written_key)
    next
      fix s s' assume s: "invar s" "invar s'" "live_at now (snap s) = live_at now (snap s')"
      show "live_at now (snap (snd (put_many_of St now kvs ttl s))) = live_at now (snap (snd (put_many_of St now kvs ttl s')))"
        using True s(1,2) written_cong [OF s(3), of kvs "now + ttl"] by (simp add: put_many_of_def Some put)
    qed (use True in \<open>simp_all add: put_many_of_def Some put\<close>)
  qed (rule lawfulI, simp_all add: put_many_of_def Some put)
qed

text \<open>The memo over a store, beside the same store asked directly.\<close>

definition beside :: "instant \<Rightarrow> 's memoized \<Rightarrow> 's \<Rightarrow> bool" where
  "beside now s sd \<longleftrightarrow> invar (ms_store s) \<and> invar sd \<and> live_at now (snap (ms_store s)) = live_at now (snap sd) \<and>
     coherent now (ms_memo s) (snap sd)"

lemma beside_later: "beside now s sd \<Longrightarrow> now \<le> t \<Longrightarrow> beside t s sd"
  unfolding beside_def using coherent_later live_at_later by blast

lemma beside_write:
  assumes "lawful now ks f" "beside now s sd" "ms_store s' = ms_store s" "ms_memo s' = ms_memo s |` (- ks)"
  shows "fst (through f s') = fst (f sd) \<and> beside now (snd (through f s')) (snd (f sd))"
proof -
  have b: "invar (ms_store s)" "invar sd" "live_at now (snap (ms_store s)) = live_at now (snap sd)" "coherent now (ms_memo s) (snap sd)"
    using assms(2) by (simp_all add: beside_def)
  note f = lawfulD [OF assms(1)]
  have "coherent now (ms_memo s |` (- ks)) (snap (snd (f sd)))"
    using b(4) by (rule coherent_frame) (rule f(2) [OF b(2)])
  with f(1) [OF b(1)] f(1) [OF b(2)] f(3,4) [OF b(1) b(2,3)] show ?thesis
    by (simp add: beside_def assms(3,4))
qed

lemma beside_get:
  assumes "beside now s sd"
  shows "agrees (ABytes (fst (MemoizedStore_Get St now k s))) (ABytes (fst (Store_Get St now k sd))) \<and>
    beside now (snd (MemoizedStore_Get St now k s)) (snd (Store_Get St now k sd))"
proof -
  have b: "invar (ms_store s)" "invar sd" "live_at now (snap (ms_store s)) = live_at now (snap sd)" "coherent now (ms_memo s) (snap sd)"
    using assms by (simp_all add: beside_def)
  have d: "fst (Store_Get St now k sd) = (case live_at now (snap sd) k of None \<Rightarrow> Inl ErrNotFound | Some (v, _) \<Rightarrow> Inr v)"
      "invar (snd (Store_Get St now k sd))" "live_at now (snap (snd (Store_Get St now k sd))) = live_at now (snap sd)"
    using get_result [OF b(2)] get_invar [OF b(2)] get_keeps [OF b(2)] by simp_all
  have coherent: "coherent now memo (snap (snd (Store_Get St now k sd))) \<longleftrightarrow> coherent now memo (snap sd)" for memo
    by (simp add: coherent_def d(3))
  show ?thesis
  proof (cases "ms_memo s k")
    case None
    let ?m = "Store_Get St now k (ms_store s)"
    have m: "fst ?m = fst (Store_Get St now k sd)" "invar (snd ?m)" "live_at now (snap (snd ?m)) = live_at now (snap sd)"
      using get_result [OF b(1), of now k] get_invar [OF b(1)] get_keeps [OF b(1), of now now] b(3) d(1) by simp_all
    have get: "MemoizedStore_Get St now k s =
        (fst ?m, remember k (case fst ?m of Inr v \<Rightarrow> Some v | Inl _ \<Rightarrow> None) (snd (through (Store_Get St now k) s)))"
    proof -
      obtain r st where g: "?m = (r, st)" by (cases ?m)
      then have "r = (case live_at now (snap sd) k of None \<Rightarrow> Inl ErrNotFound | Some (v, _) \<Rightarrow> Inr v)" using m(1) d(1) by simp
      then have "(\<exists>v. r = Inr v) \<or> r = Inl ErrNotFound" by (simp split: option.split prod.split)
      with g None show ?thesis by (auto simp: MemoizedStore_Get_def through_def)
    qed
    have "coherent now ((ms_memo s)(k \<mapsto> case fst ?m of Inr v \<Rightarrow> Some v | Inl _ \<Rightarrow> None)) (snap sd)"
      using b(4) m(1) d(1) by (auto simp: coherent_def split: if_splits)
    with m b(2) d(2,3) show ?thesis
      unfolding get by (simp add: beside_def remember_def coherent)
  next
    case (Some r)
    with b(4) have r: "live_at now (snap sd) k = Some (v, e) \<Longrightarrow> r = Some v" for v e
      by (simp add: coherent_def)
    have get: "MemoizedStore_Get St now k s = (case r of None \<Rightarrow> Inl ErrNotFound | Some v \<Rightarrow> Inr v, s)"
      using Some by (simp add: MemoizedStore_Get_def split: option.split)
    have "agrees (ABytes (case r of None \<Rightarrow> Inl ErrNotFound | Some v \<Rightarrow> Inr v)) (ABytes (fst (Store_Get St now k sd)))"
      using r by (cases "live_at now (snap sd) k") (auto simp: d(1) split: option.split)
    with b d(2,3) show ?thesis unfolding get by (simp add: beside_def coherent)
  qed
qed

lemma beside_many:
  assumes "beside now s sd"
  shows "agrees (AMap (fst (MemoizedStore_Many St now ks s))) (AMap (fst (many_of St now ks sd))) \<and>
    beside now (snd (MemoizedStore_Many St now ks s)) (snd (many_of St now ks sd))"
proof -
  have b: "invar (ms_store s)" "invar sd" "live_at now (snap (ms_store s)) = live_at now (snap sd)" "coherent now (ms_memo s) (snap sd)"
    using assms by (simp_all add: beside_def)
  note d = many_of_facts [OF b(2), of now ks]
  let ?missing = "filter (\<lambda>k. ms_memo s k = None) ks"
  let ?out = "\<lambda>k. if k \<in> set ks then ms_memo s k else None"
  let ?stored = "\<lambda>k. map_option fst (live_at now (snap sd) k)"
  have recall: "recall (ms_memo s) ks Map.empty = (?out, ?missing)"
    by (simp add: recall_facts fun_eq_iff)
  have seen: "same_or_expired r (?stored k)" if "ms_memo s k = Some r" for k r
    using b(4) that by (cases "live_at now (snap sd) k") (auto simp: coherent_def same_or_expired_def)
  have beside: "coherent now memo (snap (snd (many_of St now ks sd))) \<longleftrightarrow> coherent now memo (snap sd)" for memo
    by (simp add: coherent_def d(2))
  show ?thesis
  proof (cases "?missing = []")
    case True
    then have "dom ?out = set ks" by (auto simp: filter_empty_conv dom_def split: if_splits)
    with True b d show ?thesis
      using seen by (auto simp: MemoizedStore_Many_def recall beside_def beside dom_def filter_empty_conv same_or_expired_def)
  next
    case False
    note m = many_of_facts [OF b(1), of now ?missing, unfolded b(3)]
    let ?got = "\<lambda>k. if k \<in> set ?missing then Some (?stored k) else None"
    have many: "MemoizedStore_Many St now ks s = (Inr (?out ++ ?got),
        (snd (through (many_of St now ?missing) s))\<lparr>ms_memo := ms_memo s ++ ?got\<rparr>)"
    proof -
      obtain r st where g: "many_of St now ?missing (ms_store s) = (r, st)" by (cases "many_of St now ?missing (ms_store s)")
      with m(1) have "r = Inr ?got" by simp
      with g False show ?thesis by (simp add: MemoizedStore_Many_def recall through_def)
    qed
    have "coherent now (ms_memo s ++ ?got) (snap sd)"
      using b(4) by (auto simp: coherent_def map_add_def split: if_splits)
    moreover have "agrees (AMap (Inr (?out ++ ?got))) (AMap (fst (many_of St now ks sd)))"
      using seen by (auto simp: d(1) map_add_def same_or_expired_def split: if_splits option.splits)
    ultimately show ?thesis
      unfolding many using b(2) d(2,3) m(2,3) by (simp add: beside_def beside)
  qed
qed

text \<open>One call, and a sequence of calls in the order of their times.\<close>

lemma beside_call:
  assumes "beside now s sd"
  shows "agrees (fst (memo_call St now c s)) (fst (direct_call St now c sd)) \<and>
    beside now (snd (memo_call St now c s)) (snd (direct_call St now c sd))"
proof (cases c)
  case (CGet k)
  then show ?thesis using beside_get [OF assms] by simp
next
  case (CMany ks)
  then show ?thesis using beside_many [OF assms] by simp
next
  case (CPut k v ttl)
  then show ?thesis
    using beside_write [OF lawful_put assms forget_memo(2,1)] by (simp add: MemoizedStore_Put_def)
next
  case (CPutMany kvs ttl)
  then show ?thesis
    using beside_write [OF lawful_put_many assms, of "fold forget (map fst kvs) s" kvs ttl] forget_all_memo [of "map fst kvs" s]
    by (simp add: MemoizedStore_PutMany_def)
next
  case (CAdd k v ttl)
  then show ?thesis
    using beside_write [OF lawful_add assms forget_memo(2,1)] by (simp add: MemoizedStore_Add_def)
next
  case (CIncrement k d ttl)
  then show ?thesis
    using beside_write [OF lawful_increment assms forget_memo(2,1)] by (simp add: MemoizedStore_Increment_def)
next
  case (CTouch k ttl)
  then show ?thesis
    using beside_write [OF lawful_touch assms forget_memo(2,1)] by (simp add: MemoizedStore_Touch_def)
next
  case (CForget k)
  then show ?thesis
    using beside_write [OF lawful_forget assms forget_memo(2,1)] by (simp add: MemoizedStore_Forget_def)
next
  case (CFlush p)
  then show ?thesis
    using beside_write [OF lawful_flush assms, of "s\<lparr>ms_memo := Map.empty\<rparr>" p] by (simp add: MemoizedStore_Flush_def)
qed

lemma beside_run:
  assumes "beside t s sd" "sorted (map fst cs)" "\<forall>c \<in> set cs. t \<le> fst c"
  shows "list_all2 agrees (fst (run_calls (memo_call St) cs s)) (fst (run_calls (direct_call St) cs sd)) \<and>
    (\<forall>t'. (\<forall>c \<in> set cs. fst c \<le> t') \<and> t \<le> t' \<longrightarrow>
      beside t' (snd (run_calls (memo_call St) cs s)) (snd (run_calls (direct_call St) cs sd)))"
  using assms
proof (induction cs arbitrary: t s sd)
  case Nil
  then show ?case using beside_later by auto
next
  case (Cons tc cs)
  obtain now c where tc: "tc = (now, c)" by (cases tc)
  obtain a s' where m: "memo_call St now c s = (a, s')" by (cases "memo_call St now c s")
  obtain b sd' where d: "direct_call St now c sd = (b, sd')" by (cases "direct_call St now c sd")
  have "beside now s sd" using Cons.prems beside_later by (simp add: tc)
  from beside_call [OF this, of c] have call: "agrees a b" "beside now s' sd'" by (simp_all add: m d)
  have "\<forall>c \<in> set cs. now \<le> fst c" using Cons.prems(2) by (auto simp: tc)
  with Cons.IH [OF call(2)] Cons.prems(2) call(1) show ?case
    by (cases "run_calls (memo_call St) cs s'"; cases "run_calls (direct_call St) cs sd'") (simp add: tc m d)
qed

end

section \<open>The steps of a read\<close>

text \<open>A read that is not answered by the memo asks the store without holding the mutex and records the
  answer afterwards.\<close>

definition get_settle :: "string \<Rightarrow> bytes go \<Rightarrow> 's memoized \<Rightarrow> bytes go \<times> 's memoized" where
  "get_settle key r s =
     (case r of
        Inr v \<Rightarrow> (Inr v, remember key (Some v) s)
      | Inl err \<Rightarrow> if errors_is err ErrNotFound then (Inl ErrNotFound, remember key None s) else (Inl err, s))"

lemma Get_steps: "ms_memo s key = None \<Longrightarrow> MemoizedStore_Get St now key s =
    (case through (Store_Get St now key) s of (r, s') \<Rightarrow> get_settle key r s')"
  by (simp add: MemoizedStore_Get_def get_settle_def split: prod.split sum.split)

section \<open>Properties\<close>


text \<open>A counter read twice around an increment, and a read after the entry expired.\<close>

definition example_calls :: "(instant \<times> store_call) list" where
  "example_calls = [(0, CPut ''k'' ''7'' Second), (1, CGet ''k''), (2, CIncrement ''k'' 1 Second), (3, CGet ''k''),
     (4, CMany [''k'', ''j'']), (2 * Second, CGet ''k''), (2 * Second, CGet ''j'')]"

fun bytes_of :: "answer \<Rightarrow> bytes go option" where
  "bytes_of (ABytes r) = Some r"
| "bytes_of _ = None"




end
