(* ===== verification/Failover_Store.thy ===== *)
theory Failover_Store
  imports Array_Store
begin

text \<open>
  The ordered set of stores of \<^verbatim>\<open>cache/failover.go\<close>. The set is the list of its stores, each with its
  state; the names and the dispatcher are fixed when it is built. \<open>fo_failing\<close> is the record of the
  stores that refused the last operation, \<open>fo_fired\<close> the events dispatched so far. One operation runs
  alone: the loop reads the record under the mutex and the record is replaced when it returns.
\<close>

section \<open>The attempt\<close>

datatype failover_event = CacheFailedOver string cache_error

record 's failover =
  fo_stores :: "('s store \<times> 's) list"
  fo_names :: "string list"
  fo_events :: bool
  fo_failing :: "string list"
  fo_fired :: "failover_event list"

definition NewFailoverStore :: "bool \<Rightarrow> string list \<Rightarrow> ('s store \<times> 's) list \<Rightarrow> 's failover" where
  "NewFailoverStore d names stores =
     \<lparr>fo_stores = stores, fo_names = names, fo_events = d, fo_failing = [], fo_fired = []\<rparr>"

definition store_name :: "string list \<Rightarrow> nat \<Rightarrow> string" where
  "store_name names i = (if i < length names then names ! i else [])"

text \<open>An answer: success, or a miss.\<close>

definition answered :: "'a go \<Rightarrow> bool" where
  "answered r = (case r of Inr _ \<Rightarrow> True | Inl err \<Rightarrow> errors_is err ErrNotFound)"

fun attempt_loop ::
  "'s failover \<Rightarrow> ('s store \<Rightarrow> 's \<Rightarrow> 'a go \<times> 's) \<Rightarrow> nat \<Rightarrow> ('s store \<times> 's) list \<Rightarrow> string list \<Rightarrow> cache_error option \<Rightarrow>
   failover_event list \<Rightarrow> 'a go \<times> ('s store \<times> 's) list \<times> string list \<times> failover_event list" where
  "attempt_loop s fn i [] failed lastErr fired =
     ((case lastErr of None \<Rightarrow> Inl ErrAllStoresFailed | Some err \<Rightarrow> Inl err), [], failed, fired)"
| "attempt_loop s fn i ((St, st) # rest) failed lastErr fired =
     (case fn St st of
        (Inr v, st') \<Rightarrow> (Inr v, (St, st') # rest, failed, fired)
      | (Inl err, st') \<Rightarrow>
          if errors_is err ErrNotFound then (Inl err, (St, st') # rest, failed, fired)
          else let name = store_name (fo_names s) i;
                   alreadyFailing = name \<in> set (fo_failing s);
                   fired' = (if \<not> alreadyFailing \<and> fo_events s then fired @ [CacheFailedOver name err] else fired)
               in case attempt_loop s fn (Suc i) rest (failed @ [name]) (Some err) fired' of
                    (r, rest', failed', fired'') \<Rightarrow> (r, (St, st') # rest', failed', fired''))"

definition attemptOnAllStores :: "('s store \<Rightarrow> 's \<Rightarrow> 'a go \<times> 's) \<Rightarrow> 's failover \<Rightarrow> 'a go \<times> 's failover" where
  "attemptOnAllStores fn s =
     (case attempt_loop s fn 0 (fo_stores s) [] None [] of
        (r, stores, failed, fired) \<Rightarrow> (r, s\<lparr>fo_stores := stores, fo_failing := failed, fo_fired := fo_fired s @ fired\<rparr>))"

section \<open>The operations\<close>

definition FailoverStore_Get :: "instant \<Rightarrow> string \<Rightarrow> 's failover \<Rightarrow> bytes go \<times> 's failover" where
  "FailoverStore_Get now key = attemptOnAllStores (\<lambda>St. Store_Get St now key)"

fun failover_many_loop ::
  "'s store \<Rightarrow> instant \<Rightarrow> string list \<Rightarrow> (string \<rightharpoonup> bytes option) \<Rightarrow> 's \<Rightarrow> (string \<rightharpoonup> bytes option) go \<times> 's" where
  "failover_many_loop St now [] out st = (Inr out, st)"
| "failover_many_loop St now (key # keys) out st =
     (case Store_Get St now key st of
        (Inr v, st') \<Rightarrow> failover_many_loop St now keys (out(key \<mapsto> Some v)) st'
      | (Inl err, st') \<Rightarrow>
          if errors_is err ErrNotFound then failover_many_loop St now keys (out(key \<mapsto> None)) st' else (Inl err, st'))"

definition FailoverStore_Many :: "instant \<Rightarrow> string list \<Rightarrow> 's failover \<Rightarrow> (string \<rightharpoonup> bytes option) go \<times> 's failover" where
  "FailoverStore_Many now keys =
     attemptOnAllStores (\<lambda>St. case as_Many St of Some many \<Rightarrow> many now keys | None \<Rightarrow> failover_many_loop St now keys Map.empty)"

definition FailoverStore_Put :: "instant \<Rightarrow> string \<Rightarrow> bytes \<Rightarrow> duration \<Rightarrow> 's failover \<Rightarrow> unit go \<times> 's failover" where
  "FailoverStore_Put now key v ttl = attemptOnAllStores (\<lambda>St. Store_Put St now key v ttl)"

fun failover_put_loop :: "'s store \<Rightarrow> instant \<Rightarrow> (string \<times> bytes) list \<Rightarrow> duration \<Rightarrow> 's \<Rightarrow> unit go \<times> 's" where
  "failover_put_loop St now [] ttl st = (Inr (), st)"
| "failover_put_loop St now ((key, v) # rest) ttl st =
     (case Store_Put St now key v ttl st of
        (Inl err, st') \<Rightarrow> (Inl err, st')
      | (Inr _, st') \<Rightarrow> failover_put_loop St now rest ttl st')"

definition FailoverStore_PutMany :: "instant \<Rightarrow> (string \<times> bytes) list \<Rightarrow> duration \<Rightarrow> 's failover \<Rightarrow> unit go \<times> 's failover" where
  "FailoverStore_PutMany now kvs ttl =
     attemptOnAllStores (\<lambda>St. case as_PutMany St of Some put \<Rightarrow> put now kvs ttl | None \<Rightarrow> failover_put_loop St now kvs ttl)"

definition FailoverStore_Add :: "instant \<Rightarrow> string \<Rightarrow> bytes \<Rightarrow> duration \<Rightarrow> 's failover \<Rightarrow> bool go \<times> 's failover" where
  "FailoverStore_Add now key v ttl = attemptOnAllStores (\<lambda>St. Store_Add St now key v ttl)"

definition FailoverStore_Increment :: "instant \<Rightarrow> string \<Rightarrow> int \<Rightarrow> duration \<Rightarrow> 's failover \<Rightarrow> int go \<times> 's failover" where
  "FailoverStore_Increment now key delta ttl = attemptOnAllStores (\<lambda>St. Store_Increment St now key delta ttl)"

definition FailoverStore_Decrement :: "instant \<Rightarrow> string \<Rightarrow> int \<Rightarrow> duration \<Rightarrow> 's failover \<Rightarrow> int go \<times> 's failover" where
  "FailoverStore_Decrement now key delta ttl = FailoverStore_Increment now key (wrap64 (- delta)) ttl"

definition FailoverStore_Forever :: "instant \<Rightarrow> string \<Rightarrow> bytes \<Rightarrow> 's failover \<Rightarrow> unit go \<times> 's failover" where
  "FailoverStore_Forever now key v = FailoverStore_Put now key v foreverTTL"

definition FailoverStore_Touch :: "instant \<Rightarrow> string \<Rightarrow> duration \<Rightarrow> 's failover \<Rightarrow> bool go \<times> 's failover" where
  "FailoverStore_Touch now key ttl =
     attemptOnAllStores (\<lambda>St st. case as_Touch St of None \<Rightarrow> (Inr False, st) | Some touch \<Rightarrow> touch now key ttl st)"

definition FailoverStore_Forget :: "instant \<Rightarrow> string \<Rightarrow> 's failover \<Rightarrow> unit go \<times> 's failover" where
  "FailoverStore_Forget now key = attemptOnAllStores (\<lambda>St. Store_Forget St now key)"

definition FailoverStore_Flush :: "instant \<Rightarrow> string \<Rightarrow> 's failover \<Rightarrow> unit go \<times> 's failover" where
  "FailoverStore_Flush now prefix = attemptOnAllStores (\<lambda>St. Store_Flush St now prefix)"

text \<open>Which stores can prune tags, and which have a prefix, is an argument: neither is part of the
  interface.\<close>

fun stale_tags_loop ::
  "('s store \<Rightarrow> ('s \<Rightarrow> unit go \<times> 's) option) \<Rightarrow> ('s store \<times> 's) list \<Rightarrow> unit go \<times> ('s store \<times> 's) list" where
  "stale_tags_loop flusher [] = (Inr (), [])"
| "stale_tags_loop flusher ((St, st) # rest) =
     (case flusher St of
        None \<Rightarrow> (case stale_tags_loop flusher rest of (r, rest') \<Rightarrow> (r, (St, st) # rest'))
      | Some flush \<Rightarrow> (case flush st of (r, st') \<Rightarrow> (r, (St, st') # rest)))"

definition FailoverStore_FlushStaleTags :: "('s store \<Rightarrow> ('s \<Rightarrow> unit go \<times> 's) option) \<Rightarrow> 's failover \<Rightarrow> unit go \<times> 's failover" where
  "FailoverStore_FlushStaleTags flusher s =
     (case stale_tags_loop flusher (fo_stores s) of (r, stores) \<Rightarrow> (r, s\<lparr>fo_stores := stores\<rparr>))"

definition FailoverStore_GetPrefix :: "('s store \<Rightarrow> string option) \<Rightarrow> 's failover \<Rightarrow> string \<times> 's failover" where
  "FailoverStore_GetPrefix prefixed s =
     (case attemptOnAllStores (\<lambda>St st. (case prefixed St of None \<Rightarrow> Inr [] | Some p \<Rightarrow> Inr p, st)) s of
        (Inr p, s') \<Rightarrow> (p, s')
      | (Inl err, s') \<Rightarrow> ([], s'))"

definition FailoverStore_AcquireLock :: "instant \<Rightarrow> string \<Rightarrow> string \<Rightarrow> duration \<Rightarrow> 's failover \<Rightarrow> bool go \<times> 's failover" where
  "FailoverStore_AcquireLock now key token ttl =
     attemptOnAllStores (\<lambda>St st. case as_Locking St of
       None \<Rightarrow> (Inl (Unsupported ''holding a lock''), st) | Some L \<Rightarrow> AcquireLock L now key token ttl st)"

definition FailoverStore_ReleaseLock :: "instant \<Rightarrow> string \<Rightarrow> string \<Rightarrow> 's failover \<Rightarrow> unit go \<times> 's failover" where
  "FailoverStore_ReleaseLock now key token =
     attemptOnAllStores (\<lambda>St st. case as_Locking St of
       None \<Rightarrow> (Inl (Unsupported ''holding a lock''), st) | Some L \<Rightarrow> ReleaseLock L now key token st)"

definition FailoverStore_CurrentOwner :: "instant \<Rightarrow> string \<Rightarrow> 's failover \<Rightarrow> string go \<times> 's failover" where
  "FailoverStore_CurrentOwner now key =
     attemptOnAllStores (\<lambda>St st. case as_CurrentOwner St of
       None \<Rightarrow> (Inl (Unsupported (''reading a lock'' @ [CHR 39] @ ''s owner'')), st) | Some owner \<Rightarrow> owner now key st)"

section \<open>What an attempt does\<close>

text \<open>What each store would answer, each from its own state, and how many refuse before one answers.\<close>

definition replies :: "('s store \<Rightarrow> 's \<Rightarrow> 'a go \<times> 's) \<Rightarrow> ('s store \<times> 's) list \<Rightarrow> ('a go \<times> 's) list" where
  "replies fn stores = map (\<lambda>(St, st). fn St st) stores"

definition refusals :: "('a go \<times> 's) list \<Rightarrow> nat" where
  "refusals rs = length (takeWhile (\<lambda>r. \<not> answered (fst r)) rs)"

text \<open>The stores that were asked move to their new states.\<close>

definition asked :: "nat \<Rightarrow> ('a go \<times> 's) list \<Rightarrow> ('s store \<times> 's) list \<Rightarrow> ('s store \<times> 's) list" where
  "asked n rs stores = map2 (\<lambda>(St, st) (r, st'). (St, st')) (take n stores) (take n rs) @ drop n stores"

definition newly_failing :: "'s failover \<Rightarrow> nat \<Rightarrow> ('a go \<times> 's) list \<Rightarrow> failover_event list" where
  "newly_failing s i rs =
     (if fo_events s
      then concat (map2 (\<lambda>i r. case fst r of
          Inl err \<Rightarrow> if store_name (fo_names s) i \<in> set (fo_failing s) then [] else [CacheFailedOver (store_name (fo_names s) i) err]
        | Inr _ \<Rightarrow> []) [i..<i + length rs] rs)
      else [])"

lemma replies_simps [simp]:
  "replies fn [] = []" "replies fn ((St, st) # rest) = fn St st # replies fn rest" "length (replies fn stores) = length stores"
  by (simp_all add: replies_def)

lemma refusals_simps [simp]:
  "refusals [] = 0" "refusals (r # rs) = (if answered (fst r) then 0 else Suc (refusals rs))"
  by (simp_all add: refusals_def)

lemma asked_simps [simp]:
  "asked n [] [] = []" "asked (Suc n) (r # rs) ((St, st) # rest) = (St, snd r) # asked n rs rest" "asked 0 rs stores = stores"
  by (simp_all add: asked_def split: prod.split)

lemma newly_failing_Nil [simp]: "newly_failing s i [] = []"
  by (simp add: newly_failing_def)

lemma newly_failing_Cons: "newly_failing s i ((Inl err, st) # rs) =
    (if store_name (fo_names s) i \<notin> set (fo_failing s) \<and> fo_events s then [CacheFailedOver (store_name (fo_names s) i) err] else []) @
    newly_failing s (Suc i) rs"
proof -
  have "[i..<i + length ((Inl err, st) # rs)] = i # [Suc i..<Suc i + length rs]"
    by (simp add: upt_conv_Cons del: upt_Suc)
  then show ?thesis by (simp add: newly_failing_def del: upt_Suc length_Cons)
qed

lemma answered_simps [simp]: "answered (Inr v)" "answered (Inl err) \<longleftrightarrow> err = ErrNotFound"
  by (simp_all add: answered_def)

lemma attempt_loop_result:
  "attempt_loop s fn i stores failed lastErr fired =
     (let rs = replies fn stores; k = refusals rs in
      (if k < length rs then fst (rs ! k)
       else if rs = [] then (case lastErr of None \<Rightarrow> Inl ErrAllStoresFailed | Some err \<Rightarrow> Inl err) else fst (last rs),
       asked (Suc k) rs stores, failed @ map (store_name (fo_names s)) [i..<i + k], fired @ newly_failing s i (take k rs)))"
proof (induction stores arbitrary: i failed lastErr fired)
  case Nil
  then show ?case by (simp add: asked_def)
next
  case (Cons store rest)
  obtain St st where store: "store = (St, st)" by (cases store)
  obtain r st' where r: "fn St st = (r, st')" by (cases "fn St st")
  show ?case
  proof (cases "answered r")
    case True
    then show ?thesis by (cases r) (simp_all add: store r)
  next
    case False
    then obtain err where err: "r = Inl err" "err \<noteq> ErrNotFound" by (cases r) simp_all
    let ?rs = "replies fn rest"
    have last: "?rs = [] \<or> last ((Inl err, st') # ?rs) = last ?rs" by simp
    from False err show ?thesis
      by (cases "?rs = []")
        (auto simp: store r Cons.IH Let_def newly_failing_Cons upt_conv_Cons simp del: upt_Suc)
  qed
qed

section \<open>Properties\<close>

text \<open>C27. An operation on the set answers what the first store that answers says, a miss being an answer,
  and the last store's own error when every store refuses; the stores before that one were asked and
  those after it are untouched; the refusing stores are the record of failures afterwards, whatever it
  was before, and the events fired are one for each of them that the record did not name.\<close>

theorem failover_answers_first:
  "attemptOnAllStores fn s =
     (let rs = replies fn (fo_stores s); k = refusals rs in
      (if k < length rs then fst (rs ! k) else if rs = [] then Inl ErrAllStoresFailed else fst (last rs),
       s\<lparr>fo_stores := asked (Suc k) rs (fo_stores s),
         fo_failing := map (store_name (fo_names s)) [0..<k],
         fo_fired := fo_fired s @ newly_failing s 0 (take k rs)\<rparr>))"
  by (simp add: attemptOnAllStores_def attempt_loop_result Let_def)

text \<open>C28. A spell of failure does not produce one event: asking the set for its prefix counts as an
  operation that every store answers and empties the record, so the next read the same store refuses
  fires its event again.\<close>

theorem prefix_restarts_spell:
  assumes "fo_stores s = (St, st) # rest" "fo_events s" "Store_Get St now key st = (Inl err, st')" "err \<noteq> ErrNotFound"
  shows "fo_failing (snd (FailoverStore_GetPrefix prefixed s)) = [] \<and>
    (\<exists>more. fo_fired (snd (FailoverStore_Get now key (snd (FailoverStore_GetPrefix prefixed s)))) =
       fo_fired s @ CacheFailedOver (store_name (fo_names s) 0) err # more)"
proof -
  have p: "snd (FailoverStore_GetPrefix prefixed s) = s\<lparr>fo_failing := []\<rparr>"
    using assms(1) by (simp add: FailoverStore_GetPrefix_def attemptOnAllStores_def split: option.split)
  show ?thesis
    using assms unfolding p
    by (simp add: FailoverStore_Get_def attemptOnAllStores_def attempt_loop_result Let_def newly_failing_Cons)
qed

text \<open>A store that refuses everything, in front of an array store, with its failure already recorded.\<close>

definition down_ops :: "array_store store" where
  "down_ops = array_ops\<lparr>Store_Get := \<lambda>now key st. (Inl (Backend 0), st)\<rparr>"

definition example_failover :: "array_store failover" where
  "example_failover = (NewFailoverStore True [''redis'', ''array''] [(down_ops, NewArrayStore), (array_ops, NewArrayStore)])
     \<lparr>fo_failing := [''redis'']\<rparr>"

theorem prefix_restarts_spell_witness:
  "fo_fired (snd (FailoverStore_Get 0 ''k'' example_failover)) = [] \<and>
   (\<exists>more. fo_fired (snd (FailoverStore_Get 0 ''k'' (snd (FailoverStore_GetPrefix (\<lambda>_. None) example_failover)))) =
      CacheFailedOver ''redis'' (Backend 0) # more)"
proof
  show "fo_fired (snd (FailoverStore_Get 0 ''k'' example_failover)) = []" by code_simp
  show "\<exists>more. fo_fired (snd (FailoverStore_Get 0 ''k'' (snd (FailoverStore_GetPrefix (\<lambda>_. None) example_failover)))) =
      CacheFailedOver ''redis'' (Backend 0) # more"
    using prefix_restarts_spell [of example_failover down_ops NewArrayStore "[(array_ops, NewArrayStore)]" 0 "''k''" "Backend 0"
        NewArrayStore "\<lambda>_. None"]
    by (simp add: example_failover_def NewFailoverStore_def down_ops_def store_name_def)
qed

end
