(* ===== verification/Go_Text.thy ===== *)
theory Go_Text
  imports Go_Utf8
begin

text \<open>What the sources use of the package \<^verbatim>\<open>strings\<close>: \<^verbatim>\<open>TrimSpace\<close>, \<^verbatim>\<open>Fields\<close>, \<^verbatim>\<open>Split\<close>, \<^verbatim>\<open>Cut\<close> and
  \<^verbatim>\<open>Contains\<close>. White space is Unicode's, so the string is read one rune at a time; a byte that is
  not UTF-8 is a chunk of its own and is no white space.\<close>

text \<open>\<^verbatim>\<open>unicode.IsSpace\<close>.\<close>

definition IsSpace :: "rune \<Rightarrow> bool" where
  "IsSpace r \<longleftrightarrow> (9 \<le> r \<and> r \<le> 13) \<or> r = 32 \<or> r = 0x85 \<or> r = 0xA0 \<or> r = 0x1680 \<or> (0x2000 \<le> r \<and> r \<le> 0x200A) \<or>
     r = 0x2028 \<or> r = 0x2029 \<or> r = 0x202F \<or> r = 0x205F \<or> r = 0x3000"

text \<open>The bytes of each rune.\<close>

function chunks :: "string \<Rightarrow> string list" where
  "chunks s = (if s = [] then [] else take (snd (decode_rune s)) s # chunks (drop (snd (decode_rune s)) s))"
  by pat_completeness auto
termination
proof (relation "measure length", goal_cases)
  case (2 s)
  then show ?case using decode_rune_width by (cases s) (simp_all del: decode_rune.simps)
qed simp

declare chunks.simps [simp del]

definition space_chunk :: "string \<Rightarrow> bool" where
  "space_chunk c = IsSpace (fst (decode_rune c))"

definition TrimSpace :: "string \<Rightarrow> string" where
  "TrimSpace s = concat (rev (dropWhile space_chunk (rev (dropWhile space_chunk (chunks s)))))"

fun fields_of :: "string \<Rightarrow> string list \<Rightarrow> string list" where
  "fields_of cur [] = (if cur = [] then [] else [cur])"
| "fields_of cur (c # cs) =
     (if space_chunk c then (if cur = [] then fields_of [] cs else cur # fields_of [] cs)
      else fields_of (cur @ c) cs)"

definition Fields :: "string \<Rightarrow> string list" where
  "Fields s = fields_of [] (chunks s)"

text \<open>\<^verbatim>\<open>Split\<close> on one byte, and \<^verbatim>\<open>Cut\<close> at the first of them.\<close>

fun Split :: "char \<Rightarrow> string \<Rightarrow> string list" where
  "Split sep [] = [[]]"
| "Split sep (c # cs) =
     (if c = sep then [] # Split sep cs
      else case Split sep cs of p # ps \<Rightarrow> (c # p) # ps | [] \<Rightarrow> [[c]])"

fun Cut :: "char \<Rightarrow> string \<Rightarrow> (string \<times> string) option" where
  "Cut sep [] = None"
| "Cut sep (c # cs) =
     (if c = sep then Some ([], cs) else map_option (\<lambda>(a, b). (c # a, b)) (Cut sep cs))"

lemma Split_nonempty [simp]: "Split sep s \<noteq> []"
  by (induction s) (auto split: list.split)

lemma Split_no_sep: "p \<in> set (Split sep s) \<Longrightarrow> sep \<notin> set p"
  by (induction s arbitrary: p) (auto split: list.splits if_splits)

lemma Cut_eq: "Cut sep s = Some (a, b) \<longleftrightarrow> s = a @ sep # b \<and> sep \<notin> set a"
proof (induction s arbitrary: a)
  case Nil
  then show ?case by simp
next
  case (Cons c s)
  then show ?case by (cases a) auto
qed

lemma Cut_None: "Cut sep s = None \<longleftrightarrow> sep \<notin> set s"
  by (induction s) auto

lemma concat_chunks: "concat (chunks s) = s"
proof (induction s rule: chunks.induct)
  case (1 s)
  then show ?case by (subst chunks.simps) simp
qed

text \<open>An ASCII string is cut into its characters.\<close>

lemma chunks_ascii: "(\<forall>c \<in> set s. of_char c < (0x80 :: nat)) \<Longrightarrow> chunks s = map (\<lambda>c. [c]) s"
proof (induction s)
  case Nil
  then show ?case by (simp add: chunks.simps)
next
  case (Cons c s)
  then show ?case by (subst chunks.simps) (simp add: decode_ascii del: decode_rune.simps)
qed

text \<open>\<^verbatim>\<open>Join\<close> with one byte between the words.\<close>

fun Join :: "char \<Rightarrow> string list \<Rightarrow> string" where
  "Join sep [] = []"
| "Join sep [w] = w"
| "Join sep (w # ws) = w @ sep # Join sep ws"

lemma Split_plain: "sep \<notin> set w \<Longrightarrow> Split sep w = [w]"
  by (induction w) auto

lemma Split_sep: "sep \<notin> set w \<Longrightarrow> Split sep (w @ sep # rest) = w # Split sep rest"
  by (induction w) auto

lemma Split_Join: "ws \<noteq> [] \<Longrightarrow> \<forall>w \<in> set ws. sep \<notin> set w \<Longrightarrow> Split sep (Join sep ws) = ws"
  by (induction sep ws rule: Join.induct) (simp_all add: Split_plain Split_sep)

text \<open>A word of printable ASCII characters: no white space in it.\<close>

definition printable :: "string \<Rightarrow> bool" where
  "printable w \<longleftrightarrow> (\<forall>c \<in> set w. 32 < (of_char c :: nat) \<and> (of_char c :: nat) < 0x80)"

lemma printable_simps [simp]:
  "printable []" "printable (c # w) \<longleftrightarrow> 32 < (of_char c :: nat) \<and> (of_char c :: nat) < 0x80 \<and> printable w"
  "printable (v @ w) \<longleftrightarrow> printable v \<and> printable w"
  by (auto simp: printable_def)

lemma printable_Join: "32 < (of_char sep :: nat) \<Longrightarrow> (of_char sep :: nat) < 0x80 \<Longrightarrow> \<forall>w \<in> set ws. printable w \<Longrightarrow>
    printable (Join sep ws)"
  by (induction sep ws rule: Join.induct) simp_all

lemma chunks_printable: "printable w \<Longrightarrow> chunks w = map (\<lambda>c. [c]) w"
  by (rule chunks_ascii) (simp add: printable_def)

lemma no_space_printable: "32 < (of_char c :: nat) \<Longrightarrow> (of_char c :: nat) < 0x80 \<Longrightarrow> \<not> space_chunk [c]"
  by (simp add: space_chunk_def decode_ascii IsSpace_def del: decode_rune.simps)

lemma space_chunk_blank: "space_chunk '' ''"
  by code_simp

lemma printable_no_space: "printable w \<Longrightarrow> x \<in> set (map (\<lambda>c. [c]) w) \<Longrightarrow> \<not> space_chunk x"
  by (auto simp: printable_def no_space_printable)

lemma dropWhile_id: "\<forall>x \<in> set xs. \<not> P x \<Longrightarrow> dropWhile P xs = xs"
  by (cases xs) simp_all

lemma TrimSpace_ends:
  assumes "chunks s = map (\<lambda>c. [c]) s" "s \<noteq> []" "\<not> space_chunk [hd s]" "\<not> space_chunk [last s]"
  shows "TrimSpace s = s"
proof -
  obtain a r where a: "s = a # r" using assms(2) by (cases s) simp_all
  obtain q z where z: "s = q @ [z]" using assms(2) by (cases s rule: rev_cases) simp_all
  have 1: "dropWhile space_chunk (map (\<lambda>c. [c]) s) = map (\<lambda>c. [c]) s" using assms(3) by (simp add: a)
  have 2: "dropWhile space_chunk (rev (map (\<lambda>c. [c]) s)) = rev (map (\<lambda>c. [c]) s)" using assms(4) by (simp add: z)
  have "concat (map (\<lambda>c. [c]) s) = s" by (induction s) simp_all
  with 1 2 show ?thesis by (simp add: TrimSpace_def assms(1))
qed

lemma TrimSpace_printable: "printable w \<Longrightarrow> TrimSpace w = w"
proof (cases "w = []")
  case True
  then show ?thesis by (simp add: TrimSpace_def chunks.simps)
next
  case False
  assume w: "printable w"
  with False have "printable [hd w]" "printable [last w]" by (auto simp: printable_def)
  then show ?thesis by (intro TrimSpace_ends False chunks_printable w) (simp_all add: no_space_printable)
qed

lemma fields_of_word: "printable w \<Longrightarrow> fields_of cur (map (\<lambda>c. [c]) w @ cs) = fields_of (cur @ w) cs"
  by (induction w arbitrary: cur) (simp_all add: no_space_printable)

lemma set_Join: "set (Join sep ws) \<subseteq> insert sep (\<Union> (set ` set ws))"
  by (induction sep ws rule: Join.induct) auto

lemma chunks_Join: "\<forall>w \<in> set ws. printable w \<and> w \<noteq> [] \<Longrightarrow>
    chunks (Join CHR '' '' ws) = map (\<lambda>c. [c]) (Join CHR '' '' ws)"
proof (rule chunks_ascii)
  assume ws: "\<forall>w \<in> set ws. printable w \<and> w \<noteq> []"
  have small: "(of_char (CHR '' '') :: nat) < 0x80" by simp
  show "\<forall>c \<in> set (Join CHR '' '' ws). of_char c < (0x80 :: nat)"
    using ws small set_Join [of "CHR '' ''" ws] by (fastforce simp: printable_def list_all_iff)
qed

text \<open>Words between single blanks are the fields.\<close>

lemma Fields_Join:
  assumes "\<forall>w \<in> set ws. printable w \<and> w \<noteq> []"
  shows "Fields (Join CHR '' '' ws) = ws"
proof -
  have "fields_of [] (map (\<lambda>c. [c]) (Join CHR '' '' ws)) = ws"
    using assms
  proof (induction "CHR '' ''" ws rule: Join.induct)
    case (2 w)
    then show ?case using fields_of_word [of w "[]" "[]"] by simp
  next
    case (3 w v vs)
    then show ?case by (simp add: fields_of_word space_chunk_blank)
  qed simp
  then show ?thesis using assms by (simp add: Fields_def chunks_Join)
qed

lemma Join_ends: "ws \<noteq> [] \<Longrightarrow> \<forall>w \<in> set ws. w \<noteq> [] \<Longrightarrow>
    Join sep ws \<noteq> [] \<and> hd (Join sep ws) = hd (hd ws) \<and> last (Join sep ws) = last (last ws)"
  by (induction sep ws rule: Join.induct) (auto simp: hd_append)

lemma TrimSpace_Join:
  assumes "ws \<noteq> []" "\<forall>w \<in> set ws. printable w \<and> w \<noteq> []"
  shows "TrimSpace (Join CHR '' '' ws) = Join CHR '' '' ws"
proof -
  have "hd ws \<in> set ws" "last ws \<in> set ws" using assms(1) by simp_all
  with assms(2) have "printable [hd (hd ws)]" "printable [last (last ws)]" by (auto simp: printable_def)
  then have "\<not> space_chunk [hd (hd ws)]" "\<not> space_chunk [last (last ws)]"
    by (simp_all add: no_space_printable)
  with Join_ends [OF assms(1), of "CHR '' ''"] assms(2) show ?thesis
    by (intro TrimSpace_ends chunks_Join) auto
qed

end
