(* ===== verification/Cron.thy ===== *)
theory Cron
  imports Go_Text
begin

text \<open>
  Cron expressions: \<^verbatim>\<open>console/scheduling/cron.go\<close>. A field is the array of its sixty flags, and an
  index outside it is the run-time panic it is in the language, \<open>IndexOutOfRange\<close>. A time is an
  instant; the clock on the wall, which the location of a \<^verbatim>\<open>time.Time\<close> decides, is a function from
  instants to its fields, and \<open>utc\<close> is the one of UTC.
\<close>

section \<open>Parsing\<close>

datatype cron_error =
    NotAStep string
  | CountsBackwards string
  | NotANumber string
  | OutsideRange int int int
  | FieldCount string nat
  | InField string string cron_error
  | IndexOutOfRange int

type_synonym field_set = "bool list"

definition empty_set :: field_set where
  "empty_set = replicate 60 False"

record cron_expression =
  ce_minute :: field_set
  ce_hour :: field_set
  ce_day :: field_set
  ce_month :: field_set
  ce_weekday :: field_set
  ce_spec :: string

definition CronExpression_String :: "cron_expression \<Rightarrow> string" where
  "CronExpression_String c = ce_spec c"

definition cron_value :: "string \<Rightarrow> int \<Rightarrow> int \<Rightarrow> cron_error + int" where
  "cron_value text lo hi =
     (case parse_int (TrimSpace text) of
        None \<Rightarrow> Inl (NotANumber text)
      | Some v \<Rightarrow> if v < lo \<or> v > hi then Inl (OutsideRange v lo hi) else Inr v)"

text \<open>\<^verbatim>\<open>for i := low; i <= high; i += step\<close>, with the addition at 64 bits. The step is a positive
  64-bit integer wherever the loop is entered.\<close>

function mark :: "int \<Rightarrow> int \<Rightarrow> int \<Rightarrow> field_set \<Rightarrow> cron_error + field_set" where
  "mark i high step into =
     (if i \<le> high \<and> 1 \<le> step \<and> step \<le> MaxInt64
      then if 0 \<le> i \<and> i < 60 then mark (wrap64 (i + step)) high step (into[nat i := True])
           else Inl (IndexOutOfRange i)
      else Inr into)"
  by pat_completeness auto
termination
proof (relation "measure (\<lambda>(i, high, step, into). if i < 0 then 0 else nat (high + 1 - i))", goal_cases)
  case (2 i high step into)
  have "wrap64 (i + step) = i + step \<or> wrap64 (i + step) < 0"
  proof (cases "i + step \<le> MaxInt64")
    case True
    with 2 show ?thesis by (intro disjI1 wrap64_id) (simp add: in_int64_def)
  next
    case False
    with 2 have "wrap64 (i + step) = i + step - 18446744073709551616" by (intro wrap64_above) linarith+
    with 2 show ?thesis by linarith
  qed
  then show ?case using 2 unfolding in_measure prod.case by auto
qed simp

declare mark.simps [simp del]

definition parse_step :: "string \<Rightarrow> cron_error + (string \<times> int)" where
  "parse_step part =
     (case Cut CHR ''/'' part of
        None \<Rightarrow> Inr (part, 1)
      | Some (base, stepText) \<Rightarrow>
          (case parse_int stepText of
             None \<Rightarrow> Inl (NotAStep stepText)
           | Some parsed \<Rightarrow> if parsed < 1 then Inl (NotAStep stepText) else Inr (base, parsed)))"

definition parse_range :: "string \<Rightarrow> int \<Rightarrow> int \<Rightarrow> cron_error + (int \<times> int)" where
  "parse_range part lo hi =
     (if part = ''*'' then Inr (lo, hi)
      else case Cut CHR ''-'' part of
        Some (from, to) \<Rightarrow>
          (case cron_value from lo hi of
             Inl err \<Rightarrow> Inl err
           | Inr low \<Rightarrow>
               (case cron_value to lo hi of
                  Inl err \<Rightarrow> Inl err
                | Inr high \<Rightarrow> if low > high then Inl (CountsBackwards part) else Inr (low, high)))
      | None \<Rightarrow> (case cron_value part lo hi of Inl err \<Rightarrow> Inl err | Inr v \<Rightarrow> Inr (v, v)))"

definition parse_part :: "string \<Rightarrow> int \<Rightarrow> int \<Rightarrow> field_set \<Rightarrow> cron_error + field_set" where
  "parse_part part lo hi into =
     (case parse_step part of
        Inl err \<Rightarrow> Inl err
      | Inr (base, step) \<Rightarrow>
          (case parse_range base lo hi of
             Inl err \<Rightarrow> Inl err
           | Inr (low, high) \<Rightarrow> mark low high step into))"

fun parse_parts :: "string list \<Rightarrow> int \<Rightarrow> int \<Rightarrow> field_set \<Rightarrow> cron_error + field_set" where
  "parse_parts [] lo hi into = Inr into"
| "parse_parts (part # parts) lo hi into =
     (case parse_part part lo hi into of Inl err \<Rightarrow> Inl err | Inr into' \<Rightarrow> parse_parts parts lo hi into')"

definition parseField :: "string \<Rightarrow> int \<Rightarrow> int \<Rightarrow> field_set \<Rightarrow> cron_error + field_set" where
  "parseField text lo hi into = parse_parts (Split CHR '','' text) lo hi into"

definition shorthand :: "string \<Rightarrow> string" where
  "shorthand s =
     (if s = ''@hourly'' then ''0 * * * *''
      else if s = ''@daily'' \<or> s = ''@midnight'' then ''0 0 * * *''
      else if s = ''@weekly'' then ''0 0 * * 0''
      else if s = ''@monthly'' then ''0 0 1 * *''
      else s)"

definition in_field :: "string \<Rightarrow> string \<Rightarrow> cron_error + field_set \<Rightarrow> cron_error + field_set" where
  "in_field name spec r =
     (case r of
        Inr set' \<Rightarrow> Inr set'
      | Inl (IndexOutOfRange i) \<Rightarrow> Inl (IndexOutOfRange i)
      | Inl err \<Rightarrow> Inl (InField name spec err))"

definition ParseCronExpression :: "string \<Rightarrow> cron_error + cron_expression" where
  "ParseCronExpression spec =
     (case Fields (shorthand (TrimSpace spec)) of
        [f0, f1, f2, f3, f4] \<Rightarrow>
          (case in_field ''minute'' spec (parseField f0 0 59 empty_set) of Inl err \<Rightarrow> Inl err | Inr minute \<Rightarrow>
          (case in_field ''hour'' spec (parseField f1 0 23 empty_set) of Inl err \<Rightarrow> Inl err | Inr hour \<Rightarrow>
          (case in_field ''day of month'' spec (parseField f2 1 31 empty_set) of Inl err \<Rightarrow> Inl err | Inr day \<Rightarrow>
          (case in_field ''month'' spec (parseField f3 1 12 empty_set) of Inl err \<Rightarrow> Inl err | Inr month \<Rightarrow>
          (case in_field ''day of week'' spec (parseField f4 0 6 empty_set) of Inl err \<Rightarrow> Inl err | Inr weekday \<Rightarrow>
             Inr \<lparr>ce_minute = minute, ce_hour = hour, ce_day = day, ce_month = month, ce_weekday = weekday,
                  ce_spec = TrimSpace spec\<rparr>)))))
      | fs \<Rightarrow> Inl (FieldCount spec (length fs)))"

section \<open>Asking\<close>

record civil =
  cv_minute :: nat
  cv_hour :: nat
  cv_day :: nat
  cv_month :: nat
  cv_weekday :: nat

definition full :: "field_set \<Rightarrow> nat \<Rightarrow> nat \<Rightarrow> bool" where
  "full fs lo hi = list_all (\<lambda>i. fs ! i) [lo..<Suc hi]"

definition CronExpression_IsDue :: "cron_expression \<Rightarrow> civil \<Rightarrow> bool" where
  "CronExpression_IsDue c t =
     (if \<not> ce_minute c ! cv_minute t \<or> \<not> ce_hour c ! cv_hour t \<or> \<not> ce_month c ! cv_month t then False
      else let dayRestricted = \<not> full (ce_day c) 1 31; weekdayRestricted = \<not> full (ce_weekday c) 0 6 in
        if dayRestricted \<and> weekdayRestricted then ce_day c ! cv_day t \<or> ce_weekday c ! cv_weekday t
        else if dayRestricted then ce_day c ! cv_day t
        else if weekdayRestricted then ce_weekday c ! cv_weekday t
        else True)"

fun next_run :: "nat \<Rightarrow> (instant \<Rightarrow> civil) \<Rightarrow> cron_expression \<Rightarrow> instant \<Rightarrow> instant option" where
  "next_run 0 wall c at = None"
| "next_run (Suc n) wall c at =
     (let at' = at + Minute in if CronExpression_IsDue c (wall at') then Some at' else next_run n wall c at')"

text \<open>\<^const>\<open>None\<close> is the zero time.\<close>

definition GetNextRunDate :: "(instant \<Rightarrow> civil) \<Rightarrow> cron_expression \<Rightarrow> instant \<Rightarrow> instant option" where
  "GetNextRunDate wall c t = next_run (366 * 24 * 60) wall c (t - t mod Minute)"

section \<open>The clock of UTC\<close>

text \<open>The civil date of a day counted from the first of January 1970, in the Gregorian calendar: the
  year counts from March, in eras of 400 years.\<close>

definition civil_date :: "int \<Rightarrow> int \<times> nat \<times> nat" where
  "civil_date days =
     (let z = days + 719468; era = z div 146097; doe = z mod 146097;
          yoe = (doe - doe div 1460 + doe div 36524 - doe div 146096) div 365;
          doy = doe - (365 * yoe + yoe div 4 - yoe div 100); mp = (5 * doy + 2) div 153;
          d = doy - (153 * mp + 2) div 5 + 1; m = (if mp < 10 then mp + 3 else mp - 9)
      in (yoe + era * 400 + (if m \<le> 2 then 1 else 0), nat m, nat d))"

definition utc :: "instant \<Rightarrow> civil" where
  "utc t =
     (let days = t div (24 * Hour); rest = t mod (24 * Hour) in
      case civil_date days of (y, m, d) \<Rightarrow>
        \<lparr>cv_minute = nat (rest mod Hour div Minute), cv_hour = nat (rest div Hour), cv_day = d, cv_month = m,
         cv_weekday = nat ((days + 4) mod 7)\<rparr>)"

section \<open>What a field denotes\<close>

text \<open>One addition of the loop: either it stays in the field's range of numbers, or it wraps around
  to a negative index.\<close>

lemma mark_next:
  assumes "0 \<le> i" "i < 60" "1 \<le> step" "step \<le> MaxInt64"
  shows "wrap64 (i + step) = (if i + step \<le> MaxInt64 then i + step else i + step - 18446744073709551616)"
  using assms wrap64_above [of "i + step"] by (auto simp: in_int64_def)

lemma mark_result:
  assumes "0 \<le> i" "high < 60" "1 \<le> step" "step \<le> MaxInt64" "length into = 60"
  shows "(case mark i high step into of
      Inr fs \<Rightarrow> length fs = 60 \<and> (\<forall>k < 60. fs ! k \<longleftrightarrow> into ! k \<or> (i \<le> int k \<and> int k \<le> high \<and> step dvd int k - i))
    | Inl err \<Rightarrow> (\<exists>n. err = IndexOutOfRange n \<and> n < 0) \<and> MaxInt64 - 60 < step)"
  using assms
proof (induction i high step into rule: mark.induct)
  case (1 i high step into)
  show ?case
  proof (cases "i \<le> high")
    case False
    with "1.prems" show ?thesis by (subst mark.simps) auto
  next
    case True
    note high = True
    with "1.prems" have i: "i < 60" by simp
    show ?thesis
    proof (cases "i + step \<le> MaxInt64")
      case True
      with "1.prems" i have step: "wrap64 (i + step) = i + step" by (simp add: mark_next)
      have IH: "case mark (i + step) high step (into[nat i := True]) of
            Inr fs \<Rightarrow> length fs = 60 \<and> (\<forall>k < 60. fs ! k \<longleftrightarrow> into[nat i := True] ! k \<or>
              (i + step \<le> int k \<and> int k \<le> high \<and> step dvd int k - (i + step)))
          | Inl err \<Rightarrow> (\<exists>n. err = IndexOutOfRange n \<and> n < 0) \<and> MaxInt64 - 60 < step"
        by (rule "1.IH" [unfolded step]) (use "1.prems" high i True in simp_all)
      have eq: "mark i high step into = mark (i + step) high step (into[nat i := True])"
        using "1.prems" high i by (subst mark.simps) (simp add: step)
      have k: "into[nat i := True] ! k \<or> (i + step \<le> int k \<and> int k \<le> high \<and> step dvd int k - (i + step)) \<longleftrightarrow>
          into ! k \<or> (i \<le> int k \<and> int k \<le> high \<and> step dvd int k - i)" if "k < 60" for k
      proof (cases "int k = i")
        case True
        with "1.prems" high that show ?thesis by auto
      next
        case False
        then have "nat i \<noteq> k" using "1.prems" by auto
        moreover have "step dvd int k - (i + step) \<longleftrightarrow> step dvd int k - i"
          using dvd_add_triv_right_iff [of step "int k - (i + step)"] by simp
        moreover have "i + step \<le> int k" if "step dvd int k - i" "i \<le> int k"
          using zdvd_imp_le [OF that(1)] that(2) False by simp
        ultimately show ?thesis using "1.prems" by (auto simp: nth_list_update)
      qed
      show ?thesis
        unfolding eq using IH k by (simp split: sum.splits)
    next
      case False
      let ?n = "i + step - 18446744073709551616"
      have n: "wrap64 (i + step) = ?n" using "1.prems" i False by (simp add: mark_next)
      have "mark i high step into = mark ?n high step (into[nat i := True])"
        using "1.prems" high i by (subst mark.simps) (simp add: n)
      also have "\<dots> = Inl (IndexOutOfRange ?n)"
        using "1.prems" high i by (subst mark.simps) simp
      finally show ?thesis using "1.prems" i False by simp
    qed
  qed
qed

text \<open>A value read is a 64-bit integer in the range asked for, a step is a positive one.\<close>

lemma cron_value_range: "cron_value text lo hi = Inr v \<Longrightarrow> lo \<le> v \<and> v \<le> hi"
  by (auto simp: cron_value_def split: option.splits if_splits)

lemma parse_step_range: "parse_step part = Inr (base, step) \<Longrightarrow> 1 \<le> step \<and> step \<le> MaxInt64"
  by (auto simp: parse_step_def in_int64_def dest!: parse_int_range split: option.splits if_splits)

lemma parse_range_range: "parse_range part lo hi = Inr (low, high) \<Longrightarrow> lo \<le> hi \<Longrightarrow> lo \<le> low \<and> high \<le> hi"
  by (auto simp: parse_range_def dest: cron_value_range split: if_splits option.splits sum.splits)

text \<open>The syntax a field is written in, and what each part of it means: the values from the low to
  the high end that are a whole number of steps above the low one.\<close>

datatype cron_item = Any | One int | Span int int

type_synonym cron_part = "cron_item \<times> int option"

fun show_item :: "cron_item \<Rightarrow> string" where
  "show_item Any = ''*''"
| "show_item (One v) = format_int v"
| "show_item (Span a b) = format_int a @ CHR ''-'' # format_int b"

fun show_part :: "cron_part \<Rightarrow> string" where
  "show_part (it, None) = show_item it"
| "show_part (it, Some step) = show_item it @ CHR ''/'' # format_int step"

definition show_field :: "cron_part list \<Rightarrow> string" where
  "show_field ps = Join CHR '','' (map show_part ps)"

fun item_range :: "int \<Rightarrow> int \<Rightarrow> cron_item \<Rightarrow> int \<times> int" where
  "item_range lo hi Any = (lo, hi)"
| "item_range lo hi (One v) = (v, v)"
| "item_range lo hi (Span a b) = (a, b)"

fun item_ok :: "int \<Rightarrow> int \<Rightarrow> cron_item \<Rightarrow> bool" where
  "item_ok lo hi Any \<longleftrightarrow> True"
| "item_ok lo hi (One v) \<longleftrightarrow> lo \<le> v \<and> v \<le> hi"
| "item_ok lo hi (Span a b) \<longleftrightarrow> lo \<le> a \<and> a \<le> b \<and> b \<le> hi"

definition step_of :: "int option \<Rightarrow> int" where
  "step_of st = (case st of None \<Rightarrow> 1 | Some step \<Rightarrow> step)"

text \<open>A step small enough that no addition of it wraps around.\<close>

definition part_ok :: "int \<Rightarrow> int \<Rightarrow> cron_part \<Rightarrow> bool" where
  "part_ok lo hi p \<longleftrightarrow> item_ok lo hi (fst p) \<and> 1 \<le> step_of (snd p) \<and> step_of (snd p) \<le> MaxInt64 - 60"

definition part_denotes :: "int \<Rightarrow> int \<Rightarrow> cron_part \<Rightarrow> int \<Rightarrow> bool" where
  "part_denotes lo hi p v \<longleftrightarrow>
     (case item_range lo hi (fst p) of (low, high) \<Rightarrow> low \<le> v \<and> v \<le> high \<and> step_of (snd p) dvd v - low)"

definition field_denotes :: "int \<Rightarrow> int \<Rightarrow> cron_part list \<Rightarrow> int \<Rightarrow> bool" where
  "field_denotes lo hi ps v = list_ex (\<lambda>p. part_denotes lo hi p v) ps"

text \<open>Reading the text back.\<close>

lemma format_int_chars: "0 \<le> v \<Longrightarrow> c \<in> set (format_int v) \<Longrightarrow> is_digit c"
  by (auto simp: format_int_def intro: show_nat_digits)

lemma format_int_printable: "0 \<le> v \<Longrightarrow> printable (format_int v)"
  using format_int_chars [of v] by (force simp: printable_def is_digit_def)

lemma format_int_not: "0 \<le> v \<Longrightarrow> \<not> is_digit c \<Longrightarrow> c \<notin> set (format_int v)"
  using format_int_chars by blast

lemma format_int_nonempty [simp]: "format_int v \<noteq> []"
  by (simp add: format_int_def)

lemma cron_punctuation [simp]: "\<not> is_digit CHR ''/''" "\<not> is_digit CHR '',''" "\<not> is_digit CHR ''*''" "\<not> is_digit CHR ''@''"
  by (simp_all add: is_digit_def)

lemma cron_value_format:
  "0 \<le> lo \<Longrightarrow> hi < 60 \<Longrightarrow> lo \<le> v \<Longrightarrow> v \<le> hi \<Longrightarrow> cron_value (format_int v) lo hi = Inr v"
  by (simp add: cron_value_def TrimSpace_printable format_int_printable in_int64_def)

lemma show_item_plain:
  assumes "0 \<le> lo" "item_ok lo hi it"
  shows "CHR ''/'' \<notin> set (show_item it)" "CHR '','' \<notin> set (show_item it)" "printable (show_item it)" "show_item it \<noteq> []"
    "CHR ''@'' \<notin> set (show_item it)"
  using assms by (cases it; simp add: format_int_not format_int_printable)+

lemma show_part_plain:
  assumes "0 \<le> lo" "part_ok lo hi p"
  shows "CHR '','' \<notin> set (show_part p)" "printable (show_part p)" "show_part p \<noteq> []" "CHR ''@'' \<notin> set (show_part p)"
proof -
  obtain it st where p: "p = (it, st)" by (cases p)
  have it: "item_ok lo hi it" using assms(2) by (simp add: part_ok_def p)
  have st: "0 \<le> step" if "st = Some step" for step using assms(2) that by (simp add: part_ok_def p step_of_def)
  note facts = show_item_plain [OF assms(1) it] format_int_not format_int_printable
  show "CHR '','' \<notin> set (show_part p)" "printable (show_part p)" "show_part p \<noteq> []" "CHR ''@'' \<notin> set (show_part p)"
    using st by (cases st; simp add: p facts)+
qed

lemma parse_range_show:
  assumes "0 \<le> lo" "hi < 60" "item_ok lo hi it"
  shows "parse_range (show_item it) lo hi = Inr (item_range lo hi it)"
proof (cases it)
  case Any
  then show ?thesis by (simp add: parse_range_def)
next
  case (One v)
  then have v: "lo \<le> v" "v \<le> hi" using assms by simp_all
  have "format_int v \<noteq> ''*''" using format_int_not [of v "CHR ''*''"] v assms(1) by auto
  moreover have "Cut CHR ''-'' (format_int v) = None" using v assms(1) by (simp add: Cut_None format_int_not)
  ultimately show ?thesis using v assms One by (simp add: parse_range_def cron_value_format)
next
  case (Span a b)
  then have v: "lo \<le> a" "a \<le> b" "b \<le> hi" using assms by simp_all
  have "Cut CHR ''-'' (format_int a @ CHR ''-'' # format_int b) = Some (format_int a, format_int b)"
    using v assms(1) by (simp add: Cut_eq format_int_not)
  moreover have "format_int a @ CHR ''-'' # format_int b \<noteq> ''*''" by (simp add: append_eq_Cons_conv)
  ultimately show ?thesis using v assms Span by (simp add: parse_range_def cron_value_format)
qed

lemma parse_step_show:
  assumes "0 \<le> lo" "part_ok lo hi (it, st)"
  shows "parse_step (show_part (it, st)) = Inr (show_item it, step_of st)"
proof -
  have it: "CHR ''/'' \<notin> set (show_item it)" using assms show_item_plain [of lo hi it] by (simp add: part_ok_def)
  show ?thesis
  proof (cases st)
    case None
    with it show ?thesis by (simp add: parse_step_def Cut_None [THEN iffD2] step_of_def)
  next
    case (Some step)
    then have "1 \<le> step" "step \<le> MaxInt64 - 60" using assms by (simp_all add: part_ok_def step_of_def)
    moreover have "Cut CHR ''/'' (show_item it @ CHR ''/'' # format_int step) = Some (show_item it, format_int step)"
      using it by (simp add: Cut_eq)
    ultimately show ?thesis using Some by (simp add: parse_step_def step_of_def in_int64_def)
  qed
qed

lemma item_range_bounds: "item_ok lo hi it \<Longrightarrow> lo \<le> fst (item_range lo hi it) \<and> snd (item_range lo hi it) \<le> hi"
  by (cases it) simp_all

lemma parse_part_show:
  assumes "0 \<le> lo" "hi < 60" "part_ok lo hi p" "length into = 60"
  shows "\<exists>fs. parse_part (show_part p) lo hi into = Inr fs \<and> length fs = 60 \<and>
    (\<forall>k < 60. fs ! k \<longleftrightarrow> into ! k \<or> part_denotes lo hi p (int k))"
proof -
  obtain it st where p: "p = (it, st)" by (cases p)
  obtain low high where r: "item_range lo hi it = (low, high)" by (cases "item_range lo hi it")
  have it: "item_ok lo hi it" and st: "1 \<le> step_of st" "step_of st \<le> MaxInt64 - 60"
    using assms(3) by (simp_all add: p part_ok_def)
  have "lo \<le> low" "high \<le> hi" using item_range_bounds [OF it] by (simp_all add: r)
  then have "case mark low high (step_of st) into of
      Inr fs \<Rightarrow> length fs = 60 \<and> (\<forall>k < 60. fs ! k \<longleftrightarrow> into ! k \<or> (low \<le> int k \<and> int k \<le> high \<and> step_of st dvd int k - low))
    | Inl err \<Rightarrow> (\<exists>n. err = IndexOutOfRange n \<and> n < 0) \<and> MaxInt64 - 60 < step_of st"
    using assms st by (intro mark_result) simp_all
  moreover have "parse_part (show_part p) lo hi into = mark low high (step_of st) into"
    using assms it by (simp add: parse_part_def p parse_step_show parse_range_show r)
  ultimately show ?thesis using st by (simp add: part_denotes_def p r split: sum.splits)
qed

lemma parse_parts_show:
  assumes "0 \<le> lo" "hi < 60" "\<forall>p \<in> set ps. part_ok lo hi p" "length into = 60"
  shows "\<exists>fs. parse_parts (map show_part ps) lo hi into = Inr fs \<and> length fs = 60 \<and>
    (\<forall>k < 60. fs ! k \<longleftrightarrow> into ! k \<or> field_denotes lo hi ps (int k))"
  using assms(3,4)
proof (induction ps arbitrary: into)
  case Nil
  then show ?case by (simp add: field_denotes_def)
next
  case (Cons p ps)
  then have p: "part_ok lo hi p" and ps: "\<forall>p \<in> set ps. part_ok lo hi p" by simp_all
  from parse_part_show [OF assms(1,2) p Cons.prems(2)]
  obtain fs where fs: "parse_part (show_part p) lo hi into = Inr fs" "length fs = 60"
      "\<forall>k < 60. fs ! k \<longleftrightarrow> into ! k \<or> part_denotes lo hi p (int k)"
    by blast
  from Cons.IH [OF ps fs(2)]
  obtain gs where gs: "parse_parts (map show_part ps) lo hi fs = Inr gs" "length gs = 60"
      "\<forall>k < 60. gs ! k \<longleftrightarrow> fs ! k \<or> field_denotes lo hi ps (int k)"
    by blast
  show ?case
    by (rule exI [of _ gs]) (simp add: fs gs field_denotes_def)
qed

definition field_ok :: "int \<Rightarrow> int \<Rightarrow> cron_part list \<Rightarrow> bool" where
  "field_ok lo hi ps \<longleftrightarrow> ps \<noteq> [] \<and> list_all (part_ok lo hi) ps"

lemma parseField_show:
  assumes "0 \<le> lo" "hi < 60" "field_ok lo hi ps"
  obtains fs where "parseField (show_field ps) lo hi empty_set = Inr fs" "length fs = 60"
    "\<And>k. k < 60 \<Longrightarrow> fs ! k \<longleftrightarrow> field_denotes lo hi ps (int k)"
proof -
  have ps: "ps \<noteq> []" "\<forall>p \<in> set ps. part_ok lo hi p" using assms(3) by (simp_all add: field_ok_def list_all_iff)
  then have "Split CHR '','' (show_field ps) = map show_part ps"
    using show_part_plain [OF assms(1)] unfolding show_field_def by (intro Split_Join) auto
  then show thesis
    using parse_parts_show [OF assms(1,2) ps(2), of empty_set] that by (auto simp: parseField_def empty_set_def)
qed

lemma show_field_plain:
  assumes "0 \<le> lo" "field_ok lo hi ps"
  shows "printable (show_field ps)" "show_field ps \<noteq> []" "hd (show_field ps) \<noteq> CHR ''@''"
proof -
  have ps: "ps \<noteq> []" "\<forall>p \<in> set ps. part_ok lo hi p" using assms(2) by (simp_all add: field_ok_def list_all_iff)
  note plain = show_part_plain [OF assms(1)]
  show "printable (show_field ps)"
    unfolding show_field_def using ps plain(2) by (intro printable_Join) auto
  have ne: "\<forall>w \<in> set (map show_part ps). w \<noteq> []" using ps plain(3) by auto
  have J: "show_field ps \<noteq> [] \<and> hd (show_field ps) = hd (hd (map show_part ps))"
    unfolding show_field_def using Join_ends [OF _ ne, of "CHR '',''"] ps(1) by simp
  then show "show_field ps \<noteq> []" by simp
  have "hd ps \<in> set ps" using ps(1) by simp
  then have "show_part (hd ps) \<noteq> []" "CHR ''@'' \<notin> set (show_part (hd ps))" using ps(2) plain(3,4) by blast+
  then have "hd (show_part (hd ps)) \<noteq> CHR ''@''" by (metis hd_in_set)
  then show "hd (show_field ps) \<noteq> CHR ''@''" using J ps(1) by (simp add: hd_map)
qed

lemma shorthand_plain: "s = [] \<or> hd s \<noteq> CHR ''@'' \<Longrightarrow> shorthand s = s"
  by (cases s) (simp_all add: shorthand_def)

section \<open>What an expression says\<close>

text \<open>An expression as it is written, and the rule it states for a minute on the wall: the day of the
  month and the day of the week are alternatives when both leave a day out, and conditions otherwise.\<close>

record cron_written =
  w_minute :: "cron_part list"
  w_hour :: "cron_part list"
  w_day :: "cron_part list"
  w_month :: "cron_part list"
  w_weekday :: "cron_part list"

definition written_ok :: "cron_written \<Rightarrow> bool" where
  "written_ok w \<longleftrightarrow> field_ok 0 59 (w_minute w) \<and> field_ok 0 23 (w_hour w) \<and> field_ok 1 31 (w_day w) \<and>
     field_ok 1 12 (w_month w) \<and> field_ok 0 6 (w_weekday w)"

definition cron_text :: "cron_written \<Rightarrow> string" where
  "cron_text w = Join CHR '' ''
     [show_field (w_minute w), show_field (w_hour w), show_field (w_day w), show_field (w_month w), show_field (w_weekday w)]"

definition leaves_out :: "int \<Rightarrow> int \<Rightarrow> cron_part list \<Rightarrow> bool" where
  "leaves_out lo hi ps = list_ex (\<lambda>v. \<not> field_denotes lo hi ps v) [lo..hi]"

definition cron_says :: "cron_written \<Rightarrow> civil \<Rightarrow> bool" where
  "cron_says w t \<longleftrightarrow>
     field_denotes 0 59 (w_minute w) (int (cv_minute t)) \<and> field_denotes 0 23 (w_hour w) (int (cv_hour t)) \<and>
     field_denotes 1 12 (w_month w) (int (cv_month t)) \<and>
     (let day = field_denotes 1 31 (w_day w) (int (cv_day t)); weekday = field_denotes 0 6 (w_weekday w) (int (cv_weekday t))
      in if leaves_out 1 31 (w_day w) \<and> leaves_out 0 6 (w_weekday w) then day \<or> weekday else day \<and> weekday)"

definition civil_ok :: "civil \<Rightarrow> bool" where
  "civil_ok t \<longleftrightarrow> cv_minute t < 60 \<and> cv_hour t < 24 \<and> 1 \<le> cv_day t \<and> cv_day t \<le> 31 \<and>
     1 \<le> cv_month t \<and> cv_month t \<le> 12 \<and> cv_weekday t \<le> 6"

lemma full_iff:
  assumes "hi < 60" "\<And>k. k < 60 \<Longrightarrow> fs ! k \<longleftrightarrow> field_denotes (int lo) (int hi) ps (int k)"
  shows "full fs lo hi \<longleftrightarrow> \<not> leaves_out (int lo) (int hi) ps"
proof -
  have "leaves_out (int lo) (int hi) ps \<longleftrightarrow> (\<exists>v. int lo \<le> v \<and> v \<le> int hi \<and> \<not> field_denotes (int lo) (int hi) ps v)"
    by (auto simp: leaves_out_def list_ex_iff)
  also have "\<dots> \<longleftrightarrow> (\<exists>k. lo \<le> k \<and> k \<le> hi \<and> \<not> field_denotes (int lo) (int hi) ps (int k))"
  proof
    assume "\<exists>v. int lo \<le> v \<and> v \<le> int hi \<and> \<not> field_denotes (int lo) (int hi) ps v"
    then obtain v where "int lo \<le> v" "v \<le> int hi" "\<not> field_denotes (int lo) (int hi) ps v" by blast
    then show "\<exists>k. lo \<le> k \<and> k \<le> hi \<and> \<not> field_denotes (int lo) (int hi) ps (int k)"
      by (intro exI [of _ "nat v"]) auto
  next
    assume "\<exists>k. lo \<le> k \<and> k \<le> hi \<and> \<not> field_denotes (int lo) (int hi) ps (int k)"
    then obtain k where "lo \<le> k" "k \<le> hi" "\<not> field_denotes (int lo) (int hi) ps (int k)" by blast
    then show "\<exists>v. int lo \<le> v \<and> v \<le> int hi \<and> \<not> field_denotes (int lo) (int hi) ps v"
      by (intro exI [of _ "int k"]) simp
  qed
  also have "\<dots> \<longleftrightarrow> \<not> full fs lo hi"
    unfolding full_def list_all_iff set_upt using assms by auto
  finally show ?thesis by simp
qed

lemma cron_text_fields:
  assumes "written_ok w"
  shows "TrimSpace (cron_text w) = cron_text w" "Fields (shorthand (cron_text w)) =
    [show_field (w_minute w), show_field (w_hour w), show_field (w_day w), show_field (w_month w), show_field (w_weekday w)]"
proof -
  let ?ws = "[show_field (w_minute w), show_field (w_hour w), show_field (w_day w), show_field (w_month w), show_field (w_weekday w)]"
  have ok: "field_ok 0 59 (w_minute w)" "field_ok 0 23 (w_hour w)" "field_ok 1 31 (w_day w)"
      "field_ok 1 12 (w_month w)" "field_ok 0 6 (w_weekday w)"
    using assms by (simp_all add: written_ok_def)
  note plain = show_field_plain [OF _ ok(1)] show_field_plain [OF _ ok(2)] show_field_plain [OF _ ok(3)]
    show_field_plain [OF _ ok(4)] show_field_plain [OF _ ok(5)]
  have ws: "\<forall>v \<in> set ?ws. printable v \<and> v \<noteq> []" using plain by simp
  show "TrimSpace (cron_text w) = cron_text w" unfolding cron_text_def by (rule TrimSpace_Join [OF _ ws]) simp
  have "hd (cron_text w) \<noteq> CHR ''@''" using plain(2,3) by (simp add: cron_text_def hd_append)
  then show "Fields (shorthand (cron_text w)) = ?ws"
    using Fields_Join [OF ws] by (simp only: shorthand_plain cron_text_def simp_thms)
qed

text \<open>Every flag of a parsed field is in the field's range, and at least one is set.\<close>

definition field_within :: "nat \<Rightarrow> nat \<Rightarrow> field_set \<Rightarrow> bool" where
  "field_within lo hi fs \<longleftrightarrow> length fs = 60 \<and> list_all (\<lambda>k. fs ! k \<longrightarrow> lo \<le> k \<and> k \<le> hi) [0..<60] \<and> list_ex id fs"

definition cron_ok :: "cron_expression \<Rightarrow> bool" where
  "cron_ok c \<longleftrightarrow> field_within 0 59 (ce_minute c) \<and> field_within 0 23 (ce_hour c) \<and> field_within 1 31 (ce_day c) \<and>
     field_within 1 12 (ce_month c) \<and> field_within 0 6 (ce_weekday c)"

lemma parse_part_within:
  assumes "0 \<le> lo" "lo \<le> hi" "hi < 60" "length into = 60" "\<And>k. k < 60 \<Longrightarrow> into ! k \<Longrightarrow> lo \<le> int k \<and> int k \<le> hi"
    and "parse_part part lo hi into = Inr fs"
  shows "length fs = 60 \<and> (\<forall>k < 60. fs ! k \<longrightarrow> lo \<le> int k \<and> int k \<le> hi) \<and> (\<exists>k < 60. fs ! k)"
proof -
  obtain base step low high where p: "parse_step part = Inr (base, step)" "parse_range base lo hi = Inr (low, high)"
      "mark low high step into = Inr fs"
    using assms(6) by (auto simp: parse_part_def split: sum.splits)
  have r: "lo \<le> low" "high \<le> hi" "low \<le> high"
    using parse_range_range [OF p(2) assms(2)] p(2) assms(2)
    by (auto simp: parse_range_def split: if_splits option.splits sum.splits)
  have st: "1 \<le> step" "step \<le> MaxInt64" using parse_step_range [OF p(1)] by simp_all
  have m: "length fs = 60" "\<forall>k < 60. fs ! k \<longleftrightarrow> into ! k \<or> (low \<le> int k \<and> int k \<le> high \<and> step dvd int k - low)"
    using mark_result [of low high step into] p(3) r st assms(1,3,4) by simp_all
  have "nat low < 60" "fs ! nat low" using m(2) r assms(1,3) by simp_all
  moreover have "lo \<le> int k \<and> int k \<le> hi" if k: "k < 60" "fs ! k" for k
    using m(2) k r assms(5) [OF k(1)] by fastforce
  ultimately show ?thesis using m(1) by blast
qed

lemma parse_parts_within:
  assumes "0 \<le> lo" "lo \<le> hi" "hi < 60" "length into = 60" "\<And>k. k < 60 \<Longrightarrow> into ! k \<Longrightarrow> lo \<le> int k \<and> int k \<le> hi"
    and "parse_parts parts lo hi into = Inr fs" "parts \<noteq> [] \<or> (\<exists>k < 60. into ! k)"
  shows "length fs = 60 \<and> (\<forall>k < 60. fs ! k \<longrightarrow> lo \<le> int k \<and> int k \<le> hi) \<and> (\<exists>k < 60. fs ! k)"
  using assms(4-)
proof (induction parts arbitrary: into)
  case Nil
  then have "fs = into" "\<exists>k < 60. into ! k" by simp_all
  with Nil(1,2) show ?case by blast
next
  case (Cons part parts)
  obtain gs where gs: "parse_part part lo hi into = Inr gs" "parse_parts parts lo hi gs = Inr fs"
    using Cons.prems(3) by (simp split: sum.splits)
  have w: "length gs = 60 \<and> (\<forall>k < 60. gs ! k \<longrightarrow> lo \<le> int k \<and> int k \<le> hi) \<and> (\<exists>k < 60. gs ! k)"
    by (rule parse_part_within [OF assms(1-3) Cons.prems(1,2) gs(1)])
  show ?case
    by (rule Cons.IH [OF _ _ gs(2)]) (use w in blast)+
qed

lemma empty_set_facts: "length empty_set = 60" "k < 60 \<Longrightarrow> \<not> empty_set ! k"
  unfolding empty_set_def by (simp_all only: length_replicate nth_replicate simp_thms)

lemma parseField_within:
  assumes "in_field name spec (parseField text (int lo) (int hi) empty_set) = Inr fs" "lo \<le> hi" "hi < 60"
  shows "field_within lo hi fs"
proof -
  have "parseField text (int lo) (int hi) empty_set = Inr fs"
    using assms(1) by (auto simp: in_field_def split: sum.splits cron_error.splits)
  then have "length fs = 60 \<and> (\<forall>k < 60. fs ! k \<longrightarrow> int lo \<le> int k \<and> int k \<le> int hi) \<and> (\<exists>k < 60. fs ! k)"
    unfolding parseField_def using assms(2,3) empty_set_facts
    by (intro parse_parts_within [where parts = "Split CHR '','' text" and into = empty_set]) auto
  then have fs: "length fs = 60" "\<forall>k < 60. fs ! k \<longrightarrow> lo \<le> k \<and> k \<le> hi" "\<exists>k < 60. fs ! k" by simp_all
  obtain k where "k < 60" "fs ! k" using fs(3) by blast
  then have "True \<in> set fs" using fs(1) by (metis nth_mem)
  then have "list_ex id fs" unfolding list_ex_iff by (rule bexI [rotated]) simp
  with fs show ?thesis by (simp add: field_within_def list_all_iff)
qed


section \<open>The walk to the next run\<close>

lemma next_run_Suc:
  "next_run (Suc n) wall c at =
     (if CronExpression_IsDue c (wall (at + Minute)) then Some (at + Minute) else next_run n wall c (at + Minute))"
  by (simp add: Let_def)

lemma next_run_numeral:
  "next_run (numeral k) wall c at =
     (if CronExpression_IsDue c (wall (at + Minute)) then Some (at + Minute) else next_run (pred_numeral k) wall c (at + Minute))"
  unfolding numeral_eq_Suc next_run_Suc by (rule refl)

text \<open>The minutes before the answer are not due, and the answer is within the bound.\<close>

lemma next_run_None:
  "next_run n wall c at = None \<Longrightarrow> 1 \<le> k \<Longrightarrow> k \<le> int n \<Longrightarrow> \<not> CronExpression_IsDue c (wall (at + k * Minute))"
proof (induction n arbitrary: at k)
  case (Suc n)
  show ?case
  proof (cases "k = 1")
    case True
    with Suc.prems(1) show ?thesis by (simp add: next_run_Suc split: if_splits del: next_run.simps)
  next
    case False
    have n: "next_run n wall c (at + Minute) = None"
      using Suc.prems(1) by (simp add: next_run_Suc split: if_splits del: next_run.simps)
    have "\<not> CronExpression_IsDue c (wall (at + Minute + (k - 1) * Minute))"
      by (rule Suc.IH [OF n]) (use Suc.prems False in simp_all)
    moreover have "at + Minute + (k - 1) * Minute = at + k * Minute" by (simp add: algebra_simps)
    ultimately show ?thesis by simp
  qed
qed simp

lemma next_run_Some:
  "next_run n wall c at = Some u \<Longrightarrow>
     CronExpression_IsDue c (wall u) \<and> (\<exists>k. 1 \<le> k \<and> k \<le> int n \<and> u = at + k * Minute \<and>
       (\<forall>j. 1 \<le> j \<and> j < k \<longrightarrow> \<not> CronExpression_IsDue c (wall (at + j * Minute))))"
proof (induction n arbitrary: at)
  case (Suc n)
  show ?case
  proof (cases "CronExpression_IsDue c (wall (at + Minute))")
    case True
    with Suc.prems show ?thesis by (auto simp: next_run_Suc simp del: next_run.simps intro: exI [of _ 1])
  next
    case False
    then have n: "next_run n wall c (at + Minute) = Some u"
      using Suc.prems by (simp add: next_run_Suc del: next_run.simps)
    from Suc.IH [OF n] obtain k where k: "CronExpression_IsDue c (wall u)" "1 \<le> k" "k \<le> int n"
        "u = at + Minute + k * Minute" "\<forall>j. 1 \<le> j \<and> j < k \<longrightarrow> \<not> CronExpression_IsDue c (wall (at + Minute + j * Minute))"
      by blast
    have "\<not> CronExpression_IsDue c (wall (at + j * Minute))" if j: "1 \<le> j" "j < k + 1" for j
    proof (cases "j = 1")
      case True
      with False show ?thesis by simp
    next
      case False
      then have "\<not> CronExpression_IsDue c (wall (at + Minute + (j - 1) * Minute))"
        by (intro k(5) [rule_format]) (use j in simp)
      moreover have "at + Minute + (j - 1) * Minute = at + j * Minute" by (simp add: algebra_simps)
      ultimately show ?thesis by simp
    qed
    with k show ?thesis by (intro conjI exI [of _ "k + 1"]) (auto simp: algebra_simps)
  qed
qed simp

text \<open>The whole minutes after an instant.\<close>

lemma whole_minutes:
  fixes t v :: int
  assumes "v mod Minute = 0" "t < v"
  obtains k where "1 \<le> k" "v = t - t mod Minute + k * Minute"
proof -
  have t: "t = t div Minute * Minute + t mod Minute" "0 \<le> t mod Minute" and v: "v = v div Minute * Minute"
    using assms(1) by (simp_all add: mod_0_imp_dvd)
  have eq: "v = t - t mod Minute + (v div Minute - t div Minute) * Minute"
    using t(1) v by (simp add: algebra_simps)
  have "t div Minute * Minute < v div Minute * Minute"
    using assms(2) t v by linarith
  then have "1 \<le> v div Minute - t div Minute" by simp
  with eq show thesis by (rule that [rotated])
qed

lemma written_parses:
  assumes "written_ok w"
  obtains c where "ParseCronExpression (cron_text w) = Inr c"
    "\<And>t. civil_ok t \<Longrightarrow> CronExpression_IsDue c t \<longleftrightarrow> cron_says w t"
proof -
  have ok: "field_ok 0 59 (w_minute w)" "field_ok 0 23 (w_hour w)" "field_ok 1 31 (w_day w)"
      "field_ok 1 12 (w_month w)" "field_ok 0 6 (w_weekday w)"
    using assms by (simp_all add: written_ok_def)
  obtain m where m: "parseField (show_field (w_minute w)) 0 59 empty_set = Inr m"
      "\<And>k. k < 60 \<Longrightarrow> m ! k \<longleftrightarrow> field_denotes 0 59 (w_minute w) (int k)"
    using parseField_show [OF _ _ ok(1)] by auto
  obtain h where h: "parseField (show_field (w_hour w)) 0 23 empty_set = Inr h"
      "\<And>k. k < 60 \<Longrightarrow> h ! k \<longleftrightarrow> field_denotes 0 23 (w_hour w) (int k)"
    using parseField_show [OF _ _ ok(2)] by auto
  obtain d where d: "parseField (show_field (w_day w)) 1 31 empty_set = Inr d"
      "\<And>k. k < 60 \<Longrightarrow> d ! k \<longleftrightarrow> field_denotes 1 31 (w_day w) (int k)"
    using parseField_show [OF _ _ ok(3)] by auto
  obtain mo where mo: "parseField (show_field (w_month w)) 1 12 empty_set = Inr mo"
      "\<And>k. k < 60 \<Longrightarrow> mo ! k \<longleftrightarrow> field_denotes 1 12 (w_month w) (int k)"
    using parseField_show [OF _ _ ok(4)] by auto
  obtain wd where wd: "parseField (show_field (w_weekday w)) 0 6 empty_set = Inr wd"
      "\<And>k. k < 60 \<Longrightarrow> wd ! k \<longleftrightarrow> field_denotes 0 6 (w_weekday w) (int k)"
    using parseField_show [OF _ _ ok(5)] by auto
  let ?c = "\<lparr>ce_minute = m, ce_hour = h, ce_day = d, ce_month = mo, ce_weekday = wd, ce_spec = TrimSpace (cron_text w)\<rparr>"
  have parsed: "ParseCronExpression (cron_text w) = Inr ?c"
    by (simp add: ParseCronExpression_def cron_text_fields [OF assms] in_field_def m(1) h(1) d(1) mo(1) wd(1))
  have full: "full d 1 31 \<longleftrightarrow> \<not> leaves_out 1 31 (w_day w)" "full wd 0 6 \<longleftrightarrow> \<not> leaves_out 0 6 (w_weekday w)"
    using full_iff [of 31 d 1 "w_day w"] full_iff [of 6 wd 0 "w_weekday w"] d(2) wd(2) by simp_all
  have all: "field_denotes 1 31 (w_day w) (int (cv_day t))" if "civil_ok t" "\<not> leaves_out 1 31 (w_day w)" for t
    using that by (auto simp: leaves_out_def civil_ok_def list_ex_iff)
  have all': "field_denotes 0 6 (w_weekday w) (int (cv_weekday t))" if "civil_ok t" "\<not> leaves_out 0 6 (w_weekday w)" for t
    using that by (auto simp: leaves_out_def civil_ok_def list_ex_iff)
  have "CronExpression_IsDue ?c t \<longleftrightarrow> cron_says w t" if t: "civil_ok t" for t
    using t all [OF t] all' [OF t]
    by (auto simp: CronExpression_IsDue_def cron_says_def Let_def full m(2) h(2) d(2) mo(2) wd(2) civil_ok_def
        simp del: One_nat_def)
  with parsed show thesis by (rule that)
qed

section \<open>Properties\<close>

text \<open>C20. An expression means what is written: any five fields written in the syntax, with values in
  their ranges, are accepted, and the parsed expression is due in exactly the minutes the written
  fields name, where the day of the month and the day of the week are alternatives if both leave a day
  out and conditions otherwise.\<close>

theorem cron_due_as_written:
  assumes "written_ok w"
  shows "\<exists>c. ParseCronExpression (cron_text w) = Inr c \<and>
    (\<forall>t. civil_ok t \<longrightarrow> (CronExpression_IsDue c t \<longleftrightarrow> cron_says w t))"
  using written_parses [OF assms] by blast

text \<open>Quarter past and quarter to, in office hours, on the first of the month and on Mondays.\<close>

definition example_written :: cron_written where
  "example_written = \<lparr>w_minute = [(Span 15 45, Some 30)], w_hour = [(Span 9 17, None)], w_day = [(One 1, None)],
     w_month = [(Any, None)], w_weekday = [(One 1, None)]\<rparr>"

theorem cron_due_as_written_witness:
  "cron_text example_written = ''15-45/30 9-17 1 * 1'' \<and>
   (\<exists>c. ParseCronExpression ''15-45/30 9-17 1 * 1'' = Inr c \<and>
     CronExpression_IsDue c \<lparr>cv_minute = 45, cv_hour = 9, cv_day = 14, cv_month = 7, cv_weekday = 1\<rparr>)"
proof -
  have ok: "written_ok example_written" by code_simp
  have written: "cron_text example_written = ''15-45/30 9-17 1 * 1''" by code_simp
  have t: "civil_ok \<lparr>cv_minute = 45, cv_hour = 9, cv_day = 14, cv_month = 7, cv_weekday = 1\<rparr>" by code_simp
  have says: "cron_says example_written \<lparr>cv_minute = 45, cv_hour = 9, cv_day = 14, cv_month = 7, cv_weekday = 1\<rparr>" by code_simp
  show ?thesis using cron_due_as_written [OF ok] t says unfolding written by blast
qed

text \<open>C21. Whatever text is parsed, an accepted expression is well formed: every field is its sixty
  flags, at least one of them set and none outside the field's range, and the expression keeps the
  trimmed text.\<close>

theorem parsed_expression_well_formed:
  assumes "ParseCronExpression spec = Inr c"
  shows "cron_ok c \<and> CronExpression_String c = TrimSpace spec"
proof -
  obtain f0 f1 f2 f3 f4 where f: "Fields (shorthand (TrimSpace spec)) = [f0, f1, f2, f3, f4]"
    using assms by (auto simp: ParseCronExpression_def split: list.splits)
  have p: "in_field ''minute'' spec (parseField f0 (int 0) (int 59) empty_set) = Inr (ce_minute c)"
      "in_field ''hour'' spec (parseField f1 (int 0) (int 23) empty_set) = Inr (ce_hour c)"
      "in_field ''day of month'' spec (parseField f2 (int 1) (int 31) empty_set) = Inr (ce_day c)"
      "in_field ''month'' spec (parseField f3 (int 1) (int 12) empty_set) = Inr (ce_month c)"
      "in_field ''day of week'' spec (parseField f4 (int 0) (int 6) empty_set) = Inr (ce_weekday c)"
      "ce_spec c = TrimSpace spec"
    using assms by (auto simp: ParseCronExpression_def f split: sum.splits)
  show ?thesis
    using p(6) parseField_within [OF p(1)] parseField_within [OF p(2)] parseField_within [OF p(3)]
      parseField_within [OF p(4)] parseField_within [OF p(5)]
    by (simp add: cron_ok_def CronExpression_String_def del: One_nat_def)
qed

text \<open>Every quarter of an hour.\<close>

definition quarterly :: cron_written where
  "quarterly = \<lparr>w_minute = [(Any, Some 15)], w_hour = [(Any, None)], w_day = [(Any, None)], w_month = [(Any, None)],
     w_weekday = [(Any, None)]\<rparr>"

lemma quarterly_parses:
  obtains c where "ParseCronExpression ''*/15 * * * *'' = Inr c"
    "\<And>t. civil_ok t \<Longrightarrow> CronExpression_IsDue c t \<longleftrightarrow> cron_says quarterly t"
proof -
  have "written_ok quarterly" by code_simp
  moreover have "cron_text quarterly = ''*/15 * * * *''" by code_simp
  ultimately show thesis using written_parses [of quarterly] that by auto
qed

theorem parsed_expression_well_formed_witness:
  "\<exists>c. ParseCronExpression ''*/15 * * * *'' = Inr c \<and> cron_ok c \<and> CronExpression_String c = ''*/15 * * * *''"
proof -
  obtain c where c: "ParseCronExpression ''*/15 * * * *'' = Inr c" using quarterly_parses by blast
  have "written_ok quarterly" "cron_text quarterly = ''*/15 * * * *''" by code_simp+
  then have trimmed: "TrimSpace ''*/15 * * * *'' = ''*/15 * * * *''" using cron_text_fields(1) by metis
  show ?thesis using parsed_expression_well_formed [OF c, unfolded trimmed] c by blast
qed

text \<open>C22. The search for the next run ends and finds the first one: its answer is a whole minute after
  the instant asked for, within 366 days of it, in which the expression is due, with no due minute
  before it; and when it answers the zero time, no minute of the 366 days is due.\<close>

theorem next_run_is_first_due:
  "case GetNextRunDate wall c t of
     Some u \<Rightarrow> t < u \<and> u \<le> t + 366 * (24 * Hour) \<and> u mod Minute = 0 \<and> CronExpression_IsDue c (wall u) \<and>
       (\<forall>v. t < v \<and> v < u \<and> v mod Minute = 0 \<longrightarrow> \<not> CronExpression_IsDue c (wall v))
   | None \<Rightarrow> \<forall>v. t < v \<and> v \<le> t - t mod Minute + 366 * (24 * Hour) \<and> v mod Minute = 0 \<longrightarrow>
       \<not> CronExpression_IsDue c (wall v)"
proof (cases "GetNextRunDate wall c t")
  case None
  then have n: "next_run (366 * 24 * 60) wall c (t - t mod Minute) = None" by (simp only: GetNextRunDate_def)
  have "\<not> CronExpression_IsDue c (wall v)"
    if v: "t < v" "v \<le> t - t mod Minute + 366 * (24 * Hour)" "v mod Minute = 0" for v
  proof -
    obtain k where k: "1 \<le> k" "v = t - t mod Minute + k * Minute" using whole_minutes [OF v(3,1)] .
    then have "k \<le> int (366 * 24 * 60)" using v(2) by simp
    with next_run_None [OF n k(1)] show ?thesis unfolding k(2) .
  qed
  with None show ?thesis by simp
next
  case (Some u)
  then have n: "next_run (366 * 24 * 60) wall c (t - t mod Minute) = Some u" by (simp only: GetNextRunDate_def)
  obtain k where k: "CronExpression_IsDue c (wall u)" "1 \<le> k" "k \<le> int (366 * 24 * 60)" "u = t - t mod Minute + k * Minute"
      "\<forall>j. 1 \<le> j \<and> j < k \<longrightarrow> \<not> CronExpression_IsDue c (wall (t - t mod Minute + j * Minute))"
    using next_run_Some [OF n] by blast
  have m: "0 \<le> t mod Minute" "t mod Minute < Minute" by simp_all
  have "t < u" "u \<le> t + 366 * (24 * Hour)" using k(2,3) m unfolding k(4) by simp_all
  moreover have "u mod Minute = 0" unfolding k(4) by (simp add: minus_mod_eq_div_mult)
  moreover have "\<not> CronExpression_IsDue c (wall v)" if v: "t < v" "v < u" "v mod Minute = 0" for v
  proof -
    obtain j where j: "1 \<le> j" "v = t - t mod Minute + j * Minute" using whole_minutes [OF v(3,1)] .
    then have "j < k" using v(2) unfolding k(4) by simp
    with k(5) j show ?thesis by simp
  qed
  ultimately show ?thesis using Some k(1) by simp
qed

text \<open>Two minutes to nine on the 14th of July 2025, a Monday: the next quarter is at nine.\<close>

theorem next_run_is_first_due_witness:
  "\<exists>c. ParseCronExpression ''*/15 * * * *'' = Inr c \<and>
     GetNextRunDate utc c 1752483480000000000 = Some 1752483600000000000"
proof -
  let ?t = "1752483480000000000 :: int" and ?u = "1752483600000000000 :: int"
  obtain c where c: "ParseCronExpression ''*/15 * * * *'' = Inr c"
      "\<And>t. civil_ok t \<Longrightarrow> CronExpression_IsDue c t \<longleftrightarrow> cron_says quarterly t"
    using quarterly_parses by blast
  have "civil_ok (utc ?u)" "cron_says quarterly (utc ?u)" by code_simp+
  with c(2) have due: "CronExpression_IsDue c (utc ?u)" by simp
  have "civil_ok (utc (?t + Minute))" "\<not> cron_says quarterly (utc (?t + Minute))" by code_simp+
  with c(2) have early: "\<not> CronExpression_IsDue c (utc (?t + Minute))" by simp
  note first = next_run_is_first_due [where wall = utc and c = c and t = ?t]
  have "GetNextRunDate utc c ?t = Some ?u"
  proof (cases "GetNextRunDate utc c ?t")
    case None
    with first due show ?thesis by fastforce
  next
    case (Some v)
    with first have v: "?t < v" "v mod Minute = 0" "CronExpression_IsDue c (utc v)"
        "\<not> (?t < ?u \<and> ?u < v \<and> ?u mod Minute = 0)"
      using due by auto
    then have "v \<le> ?u" by simp
    obtain k where k: "1 \<le> k" "v = ?t + k * Minute" using whole_minutes [OF v(2,1)] by auto
    with \<open>v \<le> ?u\<close> have "k = 1 \<or> k = 2" by auto
    with k v(3) early Some show ?thesis by auto
  qed
  with c(1) show ?thesis by blast
qed

text \<open>C23. A step that overflows is not refused but panics: for a single positive value and a step with
  which the 64-bit loop counter wraps around, parsing indexes the field with a negative number.\<close>

theorem overflowing_step_panics:
  assumes "0 \<le> lo" "hi < 60" "lo \<le> v" "v \<le> hi" "step \<le> MaxInt64" "MaxInt64 < v + step"
  shows "parseField (format_int v @ CHR ''/'' # format_int step) lo hi into =
    Inl (IndexOutOfRange (v + step - 18446744073709551616))"
proof -
  let ?n = "v + step - 18446744073709551616"
  have v: "0 \<le> v" "v < 60" "1 \<le> step" "?n < 0" using assms by linarith+
  have slash: "CHR ''/'' \<notin> set (format_int v)" using v by (intro format_int_not) simp_all
  have "CHR '','' \<notin> set (format_int v @ CHR ''/'' # format_int step)"
    using format_int_not [of v "CHR '',''"] format_int_not [of step "CHR '',''"] v by simp
  then have "Split CHR '','' (format_int v @ CHR ''/'' # format_int step) = [format_int v @ CHR ''/'' # format_int step]"
    by (rule Split_plain)
  moreover have "parse_step (format_int v @ CHR ''/'' # format_int step) = Inr (format_int v, step)"
  proof -
    have "Cut CHR ''/'' (format_int v @ CHR ''/'' # format_int step) = Some (format_int v, format_int step)"
      using slash by (simp add: Cut_eq)
    with v assms(5) show ?thesis by (simp add: parse_step_def in_int64_def)
  qed
  moreover have "parse_range (format_int v) lo hi = Inr (v, v)"
    using parse_range_show [OF assms(1,2), of "One v"] assms(3,4) by simp
  moreover have "mark v v step into = Inl (IndexOutOfRange ?n)"
  proof -
    have w: "wrap64 (v + step) = ?n" using mark_next [of v step] v assms(5,6) by simp
    have "mark v v step into = mark ?n v step (into[nat v := True])"
      using v assms(5) by (subst mark.simps) (simp add: w)
    also have "\<dots> = Inl (IndexOutOfRange ?n)"
      using v assms(5) by (subst mark.simps) simp
    finally show ?thesis .
  qed
  ultimately show ?thesis by (simp add: parseField_def parse_part_def)
qed

theorem overflowing_step_panics_witness:
  "parseField ''5/9223372036854775807'' 0 59 empty_set = Inl (IndexOutOfRange (- 9223372036854775804))"
proof -
  have "format_int 5 = ''5''" "format_int 9223372036854775807 = ''9223372036854775807''"
    by (simp_all add: format_int_def show_nat.simps digit_char_def char_of_def bit_0)
  with overflowing_step_panics [of 0 59 5 9223372036854775807 empty_set] show ?thesis by simp
qed

text \<open>C24. A year without a match is not the end of an expression: the 29th of February is parsed, is due
  in 2028, and still has no next run when asked on the first of March 2025.\<close>

definition leap_day :: cron_written where
  "leap_day = \<lparr>w_minute = [(One 0, None)], w_hour = [(One 0, None)], w_day = [(One 29, None)], w_month = [(One 2, None)],
     w_weekday = [(Any, None)]\<rparr>"

definition ordinary_day :: "int \<Rightarrow> bool" where
  "ordinary_day days = (case civil_date days of (y, m, d) \<Rightarrow>
     1 \<le> m \<and> m \<le> 12 \<and> 1 \<le> d \<and> d \<le> 31 \<and> \<not> (m = 2 \<and> d = 29))"

lemma year_from_march_2025: "20148 \<le> days \<Longrightarrow> days \<le> 20514 \<Longrightarrow> ordinary_day days"
proof -
  have "list_all ordinary_day [20148..20514]" by code_simp
  then show "20148 \<le> days \<Longrightarrow> days \<le> 20514 \<Longrightarrow> ordinary_day days"
    unfolding list_all_iff set_upto by (rule bspec) simp
qed

lemma civil_ok_parts:
  "mi < 60 \<Longrightarrow> h < 24 \<Longrightarrow> w < 7 \<Longrightarrow> 1 \<le> m \<Longrightarrow> m \<le> 12 \<Longrightarrow> 1 \<le> d \<Longrightarrow> d \<le> 31 \<Longrightarrow>
     civil_ok \<lparr>cv_minute = nat mi, cv_hour = nat h, cv_day = d, cv_month = m, cv_weekday = nat w\<rparr>"
  by (auto simp: civil_ok_def)

lemma utc_ordinary:
  assumes "ordinary_day (t div (24 * Hour))"
  shows "civil_ok (utc t) \<and> \<not> (cv_month (utc t) = 2 \<and> cv_day (utc t) = 29)"
proof -
  obtain y m d where date: "civil_date (t div (24 * Hour)) = (y, m, d)" by (cases "civil_date (t div (24 * Hour))")
  have utc: "utc t = \<lparr>cv_minute = nat (t mod (24 * Hour) mod Hour div Minute), cv_hour = nat (t mod (24 * Hour) div Hour),
      cv_day = d, cv_month = m, cv_weekday = nat ((t div (24 * Hour) + 4) mod 7)\<rparr>"
    by (simp only: utc_def Let_def date prod.case)
  have "t mod (24 * Hour) div Hour \<le> (24 * Hour - 1) div Hour" by (rule zdiv_mono1) simp_all
  also have "\<dots> < 24" by simp
  finally have h: "t mod (24 * Hour) div Hour < 24" .
  have "t mod (24 * Hour) mod Hour div Minute \<le> (Hour - 1) div Minute" by (rule zdiv_mono1) simp_all
  also have "\<dots> < 60" by simp
  finally have mi: "t mod (24 * Hour) mod Hour div Minute < 60" .
  have w: "(t div (24 * Hour) + 4) mod 7 < 7" by simp
  have md: "1 \<le> m" "m \<le> 12" "1 \<le> d" "d \<le> 31" "\<not> (m = 2 \<and> d = 29)"
    using assms unfolding ordinary_day_def date by simp_all
  have "civil_ok (utc t)" unfolding utc by (intro civil_ok_parts h mi w md)
  moreover have "\<not> (cv_month (utc t) = 2 \<and> cv_day (utc t) = 29)" unfolding utc civil.select_convs by (rule md(5))
  ultimately show ?thesis by (rule conjI)
qed

lemma leap_day_says:
  assumes "civil_ok t" "cron_says leap_day t"
  shows "cv_month t = 2 \<and> cv_day t = 29"
proof -
  have "\<not> leaves_out 0 6 [(Any, None)]" by code_simp
  with assms(2) have "field_denotes 1 12 [(One 2, None)] (int (cv_month t))" "field_denotes 1 31 [(One 29, None)] (int (cv_day t))"
    by (simp_all add: cron_says_def leap_day_def)
  then show ?thesis by (simp_all add: field_denotes_def part_denotes_def)
qed

theorem leap_day_has_no_next_run:
  "\<exists>c. ParseCronExpression ''0 0 29 2 *'' = Inr c \<and> GetNextRunDate utc c 1740787200000000000 = None \<and>
     CronExpression_IsDue c (utc 1835395200000000000)"
proof -
  have leap: "written_ok leap_day" "cron_text leap_day = ''0 0 29 2 *''" by code_simp+
  obtain c where c: "ParseCronExpression ''0 0 29 2 *'' = Inr c"
      "\<And>t. civil_ok t \<Longrightarrow> CronExpression_IsDue c t \<longleftrightarrow> cron_says leap_day t"
    using written_parses [OF leap(1)] unfolding leap(2) by blast
  let ?t = "1740787200000000000 :: int"
  have "civil_ok (utc 1835395200000000000)" "cron_says leap_day (utc 1835395200000000000)" by code_simp+
  with c(2) have due: "CronExpression_IsDue c (utc 1835395200000000000)" by simp
  have no: "\<not> CronExpression_IsDue c (utc u)" if "?t < u" "u \<le> ?t + 366 * (24 * Hour)" for u
  proof -
    have "?t div (24 * Hour) \<le> u div (24 * Hour)" "u div (24 * Hour) \<le> (?t + 366 * (24 * Hour)) div (24 * Hour)"
      using that by (intro zdiv_mono1; simp)+
    then have "ordinary_day (u div (24 * Hour))" by (intro year_from_march_2025) simp_all
    with utc_ordinary leap_day_says c(2) show ?thesis by blast
  qed
  have "GetNextRunDate utc c ?t = None"
  proof (rule ccontr)
    assume "GetNextRunDate utc c ?t \<noteq> None"
    then obtain u where "next_run (366 * 24 * 60) utc c (?t - ?t mod Minute) = Some u"
      unfolding GetNextRunDate_def by blast
    from next_run_Some [OF this] obtain k where "CronExpression_IsDue c (utc u)" "1 \<le> k" "k \<le> int (366 * 24 * 60)"
        "u = ?t - ?t mod Minute + k * Minute"
      by blast
    then show False using no [of u] by simp
  qed
  with c(1) due show ?thesis by blast
qed

end
