(* ===== verification/Bus_Batch.thy ===== *)
theory Bus_Batch
  imports Auth_Policy "HOL-Library.AList" "HOL-Library.Char_ord" "HOL-Library.List_Lexorder"
begin

text \<open>
  Batches of jobs: \<^verbatim>\<open>src/bus/queue.go\<close>, \<^verbatim>\<open>repository.go\<close>, \<^verbatim>\<open>batch.go\<close>, \<^verbatim>\<open>memory.go\<close> and \<^verbatim>\<open>pending.go\<close>.
  The interface \<^verbatim>\<open>BatchRepository\<close> is a record of operations with its contract as the locale
  \<open>repository_contract\<close>, interpreted on the in-memory repository. The interface \<^verbatim>\<open>Queue\<close> is a
  function that answers a push from the pushes made before it, and the pushes made are the
  state. Reports of jobs, callbacks and dispatching are proved over the contract.
\<close>

section \<open>Steps, options and batches\<close>

text \<open>A nil \<^verbatim>\<open>json.RawMessage\<close> and an empty one are the same empty sequence: the code asks a
  payload for its length only.\<close>

record step =
  st_Queue :: string
  st_Name :: string
  st_Payload :: bytes

definition zero_step :: step where
  "zero_step = \<lparr>st_Queue = [], st_Name = [], st_Payload = []\<rparr>"

definition Step_declared :: "step \<Rightarrow> bool" where
  "Step_declared s \<longleftrightarrow> st_Name s \<noteq> []"

record batch_options =
  bo_Connection :: string
  bo_Queue :: string
  bo_AllowFailures :: bool
  bo_Before :: step
  bo_Progress :: step
  bo_Then :: step
  bo_Catch :: step
  bo_Failure :: step
  bo_Finally :: step
  bo_Extra :: "(string \<times> string) list"

definition zero_options :: batch_options where
  "zero_options = \<lparr>bo_Connection = [], bo_Queue = [], bo_AllowFailures = False, bo_Before = zero_step,
     bo_Progress = zero_step, bo_Then = zero_step, bo_Catch = zero_step, bo_Failure = zero_step,
     bo_Finally = zero_step, bo_Extra = []\<rparr>"

text \<open>The zero \<^verbatim>\<open>time.Time\<close> of \<^verbatim>\<open>CancelledAt\<close> and \<^verbatim>\<open>FinishedAt\<close> is \<^const>\<open>None\<close>.\<close>

record batch =
  b_ID :: string
  b_Name :: string
  b_TenantID :: string
  b_TotalJobs :: int
  b_PendingJobs :: int
  b_FailedJobs :: int
  b_FailedJobIDs :: "string list"
  b_Options :: batch_options
  b_CreatedAt :: instant
  b_CancelledAt :: "instant option"
  b_FinishedAt :: "instant option"

text \<open>The errors, one constructor a message, with the arguments and the wrapped error.\<close>

datatype bus_error =
    ErrNoTenant
  | BadTenant string
  | BatchNotFound string
  | ErrNoName
  | ErrEmptyBatch
  | ErrEmptyChain
  | NeedsCollaborator string string
  | NoHandler string
  | NoRandomBytes
  | Unserializable string
  | Undecodable
  | WrongFormat int
  | NotALink
  | QueueRefused string
  | PushFailed string string bus_error
  | AndCancelFailed bus_error bus_error
  | Joined "bus_error list"

type_synonym 'a bus = "bus_error + 'a"

text \<open>\<^verbatim>\<open>errors.Join\<close> drops the nil errors and is nil when nothing is left.\<close>

definition errors_Join :: "bus_error option list \<Rightarrow> bus_error option" where
  "errors_Join errs =
     (case List.map_filter (\<lambda>e. e) errs of [] \<Rightarrow> None | es \<Rightarrow> Some (Joined es))"

text \<open>\<^verbatim>\<open>encode\<close> and \<^verbatim>\<open>step\<close>, with \<^verbatim>\<open>json.Marshal\<close> of the caller's value as an argument; a nil
  value is \<^const>\<open>None\<close>.\<close>

definition bus_encode :: "('v \<Rightarrow> bytes option) \<Rightarrow> string \<Rightarrow> 'v option \<Rightarrow> bytes bus" where
  "bus_encode marshal name payload =
     (case payload of
        None \<Rightarrow> Inr []
      | Some v \<Rightarrow> (case marshal v of None \<Rightarrow> Inl (Unserializable name) | Some raw \<Rightarrow> Inr raw))"

definition bus_step :: "('v \<Rightarrow> bytes option) \<Rightarrow> string \<Rightarrow> string \<Rightarrow> 'v option \<Rightarrow> step bus" where
  "bus_step marshal queue name payload =
     (if name = [] then Inl ErrNoName
      else case bus_encode marshal name payload of
             Inl e \<Rightarrow> Inl e
           | Inr raw \<Rightarrow> Inr \<lparr>st_Queue = queue, st_Name = name, st_Payload = raw\<rparr>)"

subsection \<open>Questions of a batch\<close>

definition Batch_ProcessedJobs :: "batch \<Rightarrow> int" where
  "Batch_ProcessedJobs b = wrap64 (b_TotalJobs b - b_PendingJobs b)"

definition Batch_Finished :: "batch \<Rightarrow> bool" where
  "Batch_Finished b \<longleftrightarrow> b_FinishedAt b \<noteq> None"

definition Batch_Cancelled :: "batch \<Rightarrow> bool" where
  "Batch_Cancelled b \<longleftrightarrow> b_CancelledAt b \<noteq> None"

definition Batch_HasFailures :: "batch \<Rightarrow> bool" where
  "Batch_HasFailures b \<longleftrightarrow> 0 < b_FailedJobs b"

definition Batch_AllowsFailures :: "batch \<Rightarrow> bool" where
  "Batch_AllowsFailures b = bo_AllowFailures (b_Options b)"

definition Batch_HasBeforeCallbacks :: "batch \<Rightarrow> bool" where
  "Batch_HasBeforeCallbacks b = Step_declared (bo_Before (b_Options b))"

definition Batch_HasProgressCallbacks :: "batch \<Rightarrow> bool" where
  "Batch_HasProgressCallbacks b = Step_declared (bo_Progress (b_Options b))"

definition Batch_HasThenCallbacks :: "batch \<Rightarrow> bool" where
  "Batch_HasThenCallbacks b = Step_declared (bo_Then (b_Options b))"

definition Batch_HasCatchCallbacks :: "batch \<Rightarrow> bool" where
  "Batch_HasCatchCallbacks b = Step_declared (bo_Catch (b_Options b))"

definition Batch_HasFailureCallbacks :: "batch \<Rightarrow> bool" where
  "Batch_HasFailureCallbacks b = Step_declared (bo_Failure (b_Options b))"

definition Batch_HasFinallyCallbacks :: "batch \<Rightarrow> bool" where
  "Batch_HasFinallyCallbacks b = Step_declared (bo_Finally (b_Options b))"

definition Batch_queueFor :: "batch \<Rightarrow> step \<Rightarrow> string" where
  "Batch_queueFor b s = (if st_Queue s \<noteq> [] then st_Queue s else bo_Queue (b_Options b))"

record updated_counts =
  uc_PendingJobs :: int
  uc_FailedJobs :: int
  uc_Batch :: batch

definition AllJobsHaveRanExactlyOnce :: "updated_counts \<Rightarrow> bool" where
  "AllJobsHaveRanExactlyOnce c \<longleftrightarrow> wrap64 (uc_PendingJobs c - uc_FailedJobs c) = 0"

definition withFailure :: "string list \<Rightarrow> string \<Rightarrow> string list" where
  "withFailure ids jobID = (if jobID = [] \<or> jobID \<in> set ids then ids else sort (ids @ [jobID]))"

definition withoutFailure :: "string list \<Rightarrow> string \<Rightarrow> string list" where
  "withoutFailure ids jobID = (if jobID = [] then ids else filter (\<lambda>v. v \<noteq> jobID) ids)"

section \<open>Identifiers, tenants and events\<close>

text \<open>\<^verbatim>\<open>database.NewID\<close>: sixteen random bytes with the version and the variant set, in the five
  groups of a UUID. The blocks \<^verbatim>\<open>rand.Read\<close> will deliver are an argument; when none is left it
  fails.\<close>

unbundle bit_operations_syntax

definition mark_byte :: "nat \<Rightarrow> nat \<Rightarrow> char \<Rightarrow> char" where
  "mark_byte keep bits c = char_of ((of_char c AND keep) OR bits)"

definition uuid_text :: "bytes \<Rightarrow> string" where
  "uuid_text raw =
     (let b = raw[6 := mark_byte 15 64 (raw ! 6)];
          b = b[8 := mark_byte 63 128 (b ! 8)]
      in hex_encode (take 4 b) @ ''-'' @ hex_encode (take 2 (drop 4 b)) @ ''-'' @
         hex_encode (take 2 (drop 6 b)) @ ''-'' @ hex_encode (take 2 (drop 8 b)) @ ''-'' @
         hex_encode (take 6 (drop 10 b)))"

definition NewID :: "bytes list \<Rightarrow> string bus \<times> bytes list" where
  "NewID rand = (case rand of [] \<Rightarrow> (Inl NoRandomBytes, []) | raw # rest \<Rightarrow> (Inr (uuid_text raw), rest))"

definition tenantOf :: "grant \<Rightarrow> string bus" where
  "tenantOf g =
     (let tenant = Tenant g
      in if tenant = [] then Inl ErrNoTenant
         else if \<not> ValidTenant tenant then Inl (BadTenant tenant)
         else Inr tenant)"

definition BatchFactory_Make ::
    "string \<Rightarrow> string \<Rightarrow> string \<Rightarrow> int \<Rightarrow> int \<Rightarrow> int \<Rightarrow> string list \<Rightarrow> batch_options \<Rightarrow>
     instant \<Rightarrow> instant option \<Rightarrow> instant option \<Rightarrow> batch" where
  "BatchFactory_Make ident name tenantID totalJobs pendingJobs failedJobs failedJobIDs options
       createdAt cancelledAt finishedAt =
     \<lparr>b_ID = ident, b_Name = name, b_TenantID = tenantID, b_TotalJobs = totalJobs,
      b_PendingJobs = pendingJobs, b_FailedJobs = failedJobs, b_FailedJobIDs = failedJobIDs,
      b_Options = options, b_CreatedAt = createdAt, b_CancelledAt = cancelledAt,
      b_FinishedAt = finishedAt\<rparr>"

text \<open>The three batch events with their payload. A recorder is a number, nil is \<^const>\<open>None\<close>, and what
  was recorded is a list of the recorder and the event.\<close>

datatype batch_moment = BatchDispatched | BatchCancelled | BatchFinished

record batch_event =
  ev_Name :: batch_moment
  ev_ID :: string
  ev_Batch :: string
  ev_Tenant :: string
  ev_TotalJobs :: int
  ev_PendingJobs :: int
  ev_FailedJobs :: int

type_synonym recorded = "(nat \<times> batch_event) list"

definition record_event :: "nat option \<Rightarrow> batch_moment \<Rightarrow> batch \<Rightarrow> recorded \<Rightarrow> recorded" where
  "record_event rec name b log =
     (case rec of
        None \<Rightarrow> log
      | Some r \<Rightarrow> log @ [(r, \<lparr>ev_Name = name, ev_ID = b_ID b, ev_Batch = b_Name b, ev_Tenant = b_TenantID b,
                            ev_TotalJobs = b_TotalJobs b, ev_PendingJobs = b_PendingJobs b,
                            ev_FailedJobs = b_FailedJobs b\<rparr>)])"

section \<open>A batch being described\<close>

record pending_batch =
  pb_name :: string
  pb_jobs :: "step list"
  pb_options :: batch_options
  pb_events :: "nat option"
  pb_err :: "bus_error option"

definition NewBatch :: "string \<Rightarrow> pending_batch" where
  "NewBatch name = \<lparr>pb_name = name, pb_jobs = [], pb_options = zero_options, pb_events = None, pb_err = None\<rparr>"

definition PendingBatch_fail :: "bus_error \<Rightarrow> pending_batch \<Rightarrow> pending_batch" where
  "PendingBatch_fail e p = (if pb_err p = None then p\<lparr>pb_err := Some e\<rparr> else p)"

definition PendingBatch_Add ::
    "('v \<Rightarrow> bytes option) \<Rightarrow> string \<Rightarrow> 'v option \<Rightarrow> pending_batch \<Rightarrow> pending_batch" where
  "PendingBatch_Add marshal name payload p =
     (case bus_step marshal [] name payload of
        Inl e \<Rightarrow> PendingBatch_fail e p
      | Inr s \<Rightarrow> p\<lparr>pb_jobs := pb_jobs p @ [s]\<rparr>)"

fun PendingBatch_AddStep :: "step list \<Rightarrow> pending_batch \<Rightarrow> pending_batch" where
  "PendingBatch_AddStep [] p = p"
| "PendingBatch_AddStep (s # jobs) p =
     (if \<not> Step_declared s then PendingBatch_fail ErrNoName p
      else PendingBatch_AddStep jobs (p\<lparr>pb_jobs := pb_jobs p @ [s]\<rparr>))"

text \<open>\<^verbatim>\<open>callback\<close> fills the slot a pointer names; the slot is the function that writes it.\<close>

definition PendingBatch_callback ::
    "(step \<Rightarrow> batch_options \<Rightarrow> batch_options) \<Rightarrow> ('v \<Rightarrow> bytes option) \<Rightarrow> string \<Rightarrow> 'v option \<Rightarrow>
     pending_batch \<Rightarrow> pending_batch" where
  "PendingBatch_callback slot marshal name payload p =
     (case bus_step marshal [] name payload of
        Inl e \<Rightarrow> PendingBatch_fail e p
      | Inr s \<Rightarrow> p\<lparr>pb_options := slot s (pb_options p)\<rparr>)"

definition PendingBatch_Before where
  "PendingBatch_Before = PendingBatch_callback (\<lambda>s opts. opts\<lparr>bo_Before := s\<rparr>)"

definition PendingBatch_Progress where
  "PendingBatch_Progress = PendingBatch_callback (\<lambda>s opts. opts\<lparr>bo_Progress := s\<rparr>)"

definition PendingBatch_Then where
  "PendingBatch_Then = PendingBatch_callback (\<lambda>s opts. opts\<lparr>bo_Then := s\<rparr>)"

definition PendingBatch_Catch where
  "PendingBatch_Catch = PendingBatch_callback (\<lambda>s opts. opts\<lparr>bo_Catch := s\<rparr>)"

definition PendingBatch_Failure where
  "PendingBatch_Failure = PendingBatch_callback (\<lambda>s opts. opts\<lparr>bo_Failure := s\<rparr>)"

definition PendingBatch_Finally where
  "PendingBatch_Finally = PendingBatch_callback (\<lambda>s opts. opts\<lparr>bo_Finally := s\<rparr>)"

definition PendingBatch_AllowFailures :: "pending_batch \<Rightarrow> pending_batch" where
  "PendingBatch_AllowFailures p = p\<lparr>pb_options := (pb_options p)\<lparr>bo_AllowFailures := True\<rparr>\<rparr>"

definition PendingBatch_OnQueue :: "string \<Rightarrow> pending_batch \<Rightarrow> pending_batch" where
  "PendingBatch_OnQueue queue p = p\<lparr>pb_options := (pb_options p)\<lparr>bo_Queue := queue\<rparr>\<rparr>"

definition PendingBatch_OnConnection :: "string \<Rightarrow> pending_batch \<Rightarrow> pending_batch" where
  "PendingBatch_OnConnection connection p = p\<lparr>pb_options := (pb_options p)\<lparr>bo_Connection := connection\<rparr>\<rparr>"

definition PendingBatch_WithOption :: "string \<Rightarrow> string \<Rightarrow> pending_batch \<Rightarrow> pending_batch" where
  "PendingBatch_WithOption k v p =
     p\<lparr>pb_options := (pb_options p)\<lparr>bo_Extra := AList.update k v (bo_Extra (pb_options p))\<rparr>\<rparr>"

definition PendingBatch_Name :: "string \<Rightarrow> pending_batch \<Rightarrow> pending_batch" where
  "PendingBatch_Name name p = p\<lparr>pb_name := name\<rparr>"

definition declaredSteps :: "step \<Rightarrow> step list" where
  "declaredSteps s = (if \<not> Step_declared s then [] else [s])"

definition PendingBatch_WithEvents :: "nat option \<Rightarrow> pending_batch \<Rightarrow> pending_batch" where
  "PendingBatch_WithEvents r p = p\<lparr>pb_events := r\<rparr>"

section \<open>The in-memory repository\<close>

text \<open>The mutex makes every operation atomic, so an operation is one function on the state. The
  instant the operation reads from the clock is an argument, and so are the random blocks.\<close>

record memory =
  mem_batches :: "(string \<times> batch) list"
  mem_events :: "nat option"
  mem_recorded :: recorded

definition NewMemory :: memory where
  "NewMemory = \<lparr>mem_batches = [], mem_events = None, mem_recorded = []\<rparr>"

definition batch_key :: "string \<Rightarrow> string \<Rightarrow> string" where
  "batch_key tenant ident = tenant @ [CHR 0x00] @ ident"

definition newer :: "batch \<Rightarrow> batch \<Rightarrow> bool" where
  "newer a b =
     (if b_CreatedAt a = b_CreatedAt b then b_ID b < b_ID a else b_CreatedAt b < b_CreatedAt a)"

text \<open>\<^verbatim>\<open>slices.SortFunc\<close> with the comparison of \<^verbatim>\<open>Get\<close>: a batch goes after every batch it is newer
  than.\<close>

fun insert_batch :: "batch \<Rightarrow> batch list \<Rightarrow> batch list" where
  "insert_batch a [] = [a]"
| "insert_batch a (b # bs) = (if newer a b then b # insert_batch a bs else a # b # bs)"

definition sort_batches :: "batch list \<Rightarrow> batch list" where
  "sort_batches bs = foldr insert_batch bs []"

definition Memory_Get :: "grant \<Rightarrow> int \<Rightarrow> string \<Rightarrow> memory \<Rightarrow> batch list bus" where
  "Memory_Get g limit before m =
     (case tenantOf g of
        Inl e \<Rightarrow> Inl e
      | Inr tenant \<Rightarrow>
          let limit = (if limit \<le> 0 then 50 else limit);
              cursor = map_of (mem_batches m) (batch_key tenant before)
          in if before \<noteq> [] \<and> cursor = None then Inr []
             else let out = filter (\<lambda>b. b_TenantID b = tenant \<and>
                              (case cursor of None \<Rightarrow> True | Some c \<Rightarrow> newer c b))
                              (map snd (mem_batches m))
                  in Inr (take (nat limit) (sort_batches out)))"

definition Memory_Find :: "grant \<Rightarrow> string \<Rightarrow> memory \<Rightarrow> batch bus" where
  "Memory_Find g batchID m =
     (case tenantOf g of
        Inl e \<Rightarrow> Inl e
      | Inr tenant \<Rightarrow>
          (case map_of (mem_batches m) (batch_key tenant batchID) of
             None \<Rightarrow> Inl (BatchNotFound batchID)
           | Some b \<Rightarrow> Inr b))"

definition put_batch :: "string \<Rightarrow> batch \<Rightarrow> memory \<Rightarrow> memory" where
  "put_batch k b m = m\<lparr>mem_batches := AList.update k b (mem_batches m)\<rparr>"

definition Memory_Store ::
    "instant \<Rightarrow> grant \<Rightarrow> pending_batch \<Rightarrow> bytes list \<Rightarrow> memory \<Rightarrow> batch bus \<times> bytes list \<times> memory" where
  "Memory_Store now g p rand m =
     (case tenantOf g of
        Inl e \<Rightarrow> (Inl e, rand, m)
      | Inr tenant \<Rightarrow>
          (case NewID rand of
             (Inl e, rand') \<Rightarrow> (Inl e, rand', m)
           | (Inr ident, rand') \<Rightarrow>
               let n = int (length (pb_jobs p));
                   b = BatchFactory_Make ident (pb_name p) tenant n n 0 [] (pb_options p) now None None;
                   m = put_batch (batch_key tenant (b_ID b)) b m;
                   rec = (if pb_events p \<noteq> None then pb_events p else mem_events m)
               in (Inr b, rand', m\<lparr>mem_recorded := record_event rec BatchDispatched b (mem_recorded m)\<rparr>)))"

definition Memory_IncrementTotalJobs ::
    "grant \<Rightarrow> string \<Rightarrow> int \<Rightarrow> memory \<Rightarrow> bus_error option \<times> memory" where
  "Memory_IncrementTotalJobs g batchID amount m =
     (case tenantOf g of
        Inl e \<Rightarrow> (Some e, m)
      | Inr tenant \<Rightarrow>
          if amount \<le> 0 then (None, m)
          else case map_of (mem_batches m) (batch_key tenant batchID) of
                 None \<Rightarrow> (Some (BatchNotFound batchID), m)
               | Some b \<Rightarrow>
                   (None, put_batch (batch_key tenant batchID)
                      (b\<lparr>b_TotalJobs := wrap64 (b_TotalJobs b + amount),
                         b_PendingJobs := wrap64 (b_PendingJobs b + amount), b_FinishedAt := None\<rparr>) m))"

definition Memory_update ::
    "grant \<Rightarrow> string \<Rightarrow> (batch \<Rightarrow> batch) \<Rightarrow> memory \<Rightarrow> updated_counts bus \<times> memory" where
  "Memory_update g batchID f m =
     (case tenantOf g of
        Inl e \<Rightarrow> (Inl e, m)
      | Inr tenant \<Rightarrow>
          (case map_of (mem_batches m) (batch_key tenant batchID) of
             None \<Rightarrow> (Inl (BatchNotFound batchID), m)
           | Some b \<Rightarrow>
               let b = f b
               in (Inr \<lparr>uc_PendingJobs = b_PendingJobs b, uc_FailedJobs = b_FailedJobs b, uc_Batch = b\<rparr>,
                   put_batch (batch_key tenant batchID) b m)))"

text \<open>What a report makes of the counters: the two functions handed to \<^verbatim>\<open>update\<close>.\<close>

definition count_success :: "string \<Rightarrow> batch \<Rightarrow> batch" where
  "count_success jobID b =
     (let ids = withoutFailure (b_FailedJobIDs b) jobID
      in b\<lparr>b_PendingJobs := wrap64 (b_PendingJobs b - 1), b_FailedJobIDs := ids,
           b_FailedJobs := int (length ids)\<rparr>)"

definition count_failure :: "string \<Rightarrow> batch \<Rightarrow> batch" where
  "count_failure jobID b =
     (if jobID = [] then b\<lparr>b_FailedJobs := wrap64 (b_FailedJobs b + 1)\<rparr>
      else let ids = withFailure (b_FailedJobIDs b) jobID
           in b\<lparr>b_FailedJobIDs := ids, b_FailedJobs := int (length ids)\<rparr>)"

definition Memory_DecrementPendingJobs ::
    "grant \<Rightarrow> string \<Rightarrow> string \<Rightarrow> memory \<Rightarrow> updated_counts bus \<times> memory" where
  "Memory_DecrementPendingJobs g batchID jobID m = Memory_update g batchID (count_success jobID) m"

definition Memory_IncrementFailedJobs ::
    "grant \<Rightarrow> string \<Rightarrow> string \<Rightarrow> memory \<Rightarrow> updated_counts bus \<times> memory" where
  "Memory_IncrementFailedJobs g batchID jobID m = Memory_update g batchID (count_failure jobID) m"

definition Memory_MarkAsFinished ::
    "instant \<Rightarrow> grant \<Rightarrow> string \<Rightarrow> memory \<Rightarrow> bus_error option \<times> memory" where
  "Memory_MarkAsFinished now g batchID m =
     (case tenantOf g of
        Inl e \<Rightarrow> (Some e, m)
      | Inr tenant \<Rightarrow>
          (case map_of (mem_batches m) (batch_key tenant batchID) of
             None \<Rightarrow> (Some (BatchNotFound batchID), m)
           | Some b \<Rightarrow>
               if Batch_Finished b then (None, m)
               else let b = b\<lparr>b_FinishedAt := Some now\<rparr>;
                        m = put_batch (batch_key tenant batchID) b m
                    in (None, m\<lparr>mem_recorded := record_event (mem_events m) BatchFinished b (mem_recorded m)\<rparr>)))"

definition Memory_Cancel ::
    "instant \<Rightarrow> grant \<Rightarrow> string \<Rightarrow> memory \<Rightarrow> bus_error option \<times> memory" where
  "Memory_Cancel now g batchID m =
     (case tenantOf g of
        Inl e \<Rightarrow> (Some e, m)
      | Inr tenant \<Rightarrow>
          (case map_of (mem_batches m) (batch_key tenant batchID) of
             None \<Rightarrow> (Some (BatchNotFound batchID), m)
           | Some b \<Rightarrow>
               if Batch_Cancelled b then (None, m)
               else let b = b\<lparr>b_CancelledAt := Some now, b_FinishedAt := Some now\<rparr>;
                        m = put_batch (batch_key tenant batchID) b m
                    in (None, m\<lparr>mem_recorded := record_event (mem_events m) BatchCancelled b (mem_recorded m)\<rparr>)))"

definition Memory_Delete :: "grant \<Rightarrow> string \<Rightarrow> memory \<Rightarrow> bus_error option \<times> memory" where
  "Memory_Delete g batchID m =
     (case tenantOf g of
        Inl e \<Rightarrow> (Some e, m)
      | Inr tenant \<Rightarrow> (None, m\<lparr>mem_batches := AList.delete (batch_key tenant batchID) (mem_batches m)\<rparr>))"

definition Memory_prune ::
    "grant \<Rightarrow> instant \<Rightarrow> (batch \<Rightarrow> bool) \<Rightarrow> memory \<Rightarrow> int bus \<times> memory" where
  "Memory_prune g before takes m =
     (case tenantOf g of
        Inl e \<Rightarrow> (Inl e, m)
      | Inr tenant \<Rightarrow>
          let goes = (\<lambda>(k, b). b_TenantID b = tenant \<and> takes b \<and> b_CreatedAt b < before)
          in (Inr (int (length (filter goes (mem_batches m)))),
              m\<lparr>mem_batches := filter (\<lambda>e. \<not> goes e) (mem_batches m)\<rparr>))"

definition Memory_Prune :: "grant \<Rightarrow> instant \<Rightarrow> memory \<Rightarrow> int bus \<times> memory" where
  "Memory_Prune g before m = Memory_prune g before Batch_Finished m"

definition Memory_PruneUnfinished :: "grant \<Rightarrow> instant \<Rightarrow> memory \<Rightarrow> int bus \<times> memory" where
  "Memory_PruneUnfinished g before m = Memory_prune g before (\<lambda>b. \<not> Batch_Finished b) m"

definition Memory_PruneCancelled :: "grant \<Rightarrow> instant \<Rightarrow> memory \<Rightarrow> int bus \<times> memory" where
  "Memory_PruneCancelled g before m = Memory_prune g before Batch_Cancelled m"

section \<open>The interfaces\<close>

text \<open>\<^verbatim>\<open>BatchRepository\<close> without \<^verbatim>\<open>Transaction\<close> and \<^verbatim>\<open>RollBack\<close>, which the package never calls.\<close>

record 'r batch_repository =
  repo_Get :: "grant \<Rightarrow> int \<Rightarrow> string \<Rightarrow> 'r \<Rightarrow> batch list bus"
  repo_Find :: "grant \<Rightarrow> string \<Rightarrow> 'r \<Rightarrow> batch bus"
  repo_Store :: "instant \<Rightarrow> grant \<Rightarrow> pending_batch \<Rightarrow> bytes list \<Rightarrow> 'r \<Rightarrow> batch bus \<times> bytes list \<times> 'r"
  repo_IncrementTotalJobs :: "grant \<Rightarrow> string \<Rightarrow> int \<Rightarrow> 'r \<Rightarrow> bus_error option \<times> 'r"
  repo_DecrementPendingJobs :: "grant \<Rightarrow> string \<Rightarrow> string \<Rightarrow> 'r \<Rightarrow> updated_counts bus \<times> 'r"
  repo_IncrementFailedJobs :: "grant \<Rightarrow> string \<Rightarrow> string \<Rightarrow> 'r \<Rightarrow> updated_counts bus \<times> 'r"
  repo_MarkAsFinished :: "instant \<Rightarrow> grant \<Rightarrow> string \<Rightarrow> 'r \<Rightarrow> bus_error option \<times> 'r"
  repo_Cancel :: "instant \<Rightarrow> grant \<Rightarrow> string \<Rightarrow> 'r \<Rightarrow> bus_error option \<times> 'r"
  repo_Delete :: "grant \<Rightarrow> string \<Rightarrow> 'r \<Rightarrow> bus_error option \<times> 'r"

definition Memory_repository :: "memory batch_repository" where
  "Memory_repository =
     \<lparr>repo_Get = Memory_Get, repo_Find = Memory_Find, repo_Store = Memory_Store,
      repo_IncrementTotalJobs = Memory_IncrementTotalJobs,
      repo_DecrementPendingJobs = Memory_DecrementPendingJobs,
      repo_IncrementFailedJobs = Memory_IncrementFailedJobs,
      repo_MarkAsFinished = Memory_MarkAsFinished, repo_Cancel = Memory_Cancel,
      repo_Delete = Memory_Delete\<rparr>"

text \<open>One call of \<^verbatim>\<open>Queue.Push\<close>. A queue answers a call from the calls made before it.\<close>

datatype push_call = PushCall
  (pc_grant: grant) (pc_queue: string) (pc_name: string) (pc_payload: bytes)

type_synonym bus_queue = "push_call list \<Rightarrow> push_call \<Rightarrow> bus_error option"

text \<open>What the dispatcher holds until the response has gone out: the two closures the package
  builds, by what they capture.\<close>

datatype held = HeldJob grant step | HeldBatch grant batch "step list"

record 'r bus_world =
  w_repo :: 'r
  w_calls :: "push_call list"
  w_rand :: "bytes list"
  w_now :: instant
  w_held :: "held list"

definition queue_Push ::
    "bus_queue \<Rightarrow> grant \<Rightarrow> string \<Rightarrow> string \<Rightarrow> bytes \<Rightarrow> 'r bus_world \<Rightarrow> bus_error option \<times> 'r bus_world" where
  "queue_Push q g queue name payload w =
     (let c = PushCall g queue name payload
      in (q (w_calls w) c, w\<lparr>w_calls := w_calls w @ [c]\<rparr>))"

text \<open>\<^verbatim>\<open>push\<close> of a callback.\<close>

definition push_callback ::
    "grant \<Rightarrow> bus_queue option \<Rightarrow> batch \<Rightarrow> step \<Rightarrow> 'r bus_world \<Rightarrow> bus_error option \<times> 'r bus_world" where
  "push_callback g q b s w =
     (case q of
        None \<Rightarrow> (Some (NeedsCollaborator ''pushing the callback'' (st_Name s)), w)
      | Some q \<Rightarrow>
          (case queue_Push q g (Batch_queueFor b s) (st_Name s) (st_Payload s) w of
             (Some e, w) \<Rightarrow> (Some (PushFailed (st_Name s) (b_ID b) e), w)
           | (None, w) \<Rightarrow> (None, w)))"

section \<open>Operations of a batch\<close>

text \<open>An operation of the repository on the world, and an operation under a condition.\<close>

definition on_repo :: "('r \<Rightarrow> 'a \<times> 'r) \<Rightarrow> 'r bus_world \<Rightarrow> 'a \<times> 'r bus_world" where
  "on_repo f w = (case f (w_repo w) of (a, r) \<Rightarrow> (a, w\<lparr>w_repo := r\<rparr>))"

definition only_if ::
    "bool \<Rightarrow> ('w \<Rightarrow> bus_error option \<times> 'w) \<Rightarrow> 'w \<Rightarrow> bus_error option \<times> 'w" where
  "only_if c f w = (if c then f w else (None, w))"

definition Batch_Fresh :: "batch \<Rightarrow> grant \<Rightarrow> 'r batch_repository option \<Rightarrow> 'r bus_world \<Rightarrow> batch bus" where
  "Batch_Fresh b g r w =
     (case r of
        None \<Rightarrow> Inl (NeedsCollaborator ''reading the batch again'' (b_ID b))
      | Some r \<Rightarrow> repo_Find r g (b_ID b) (w_repo w))"

definition Batch_Cancel ::
    "batch \<Rightarrow> grant \<Rightarrow> 'r batch_repository option \<Rightarrow> 'r bus_world \<Rightarrow> bus_error option \<times> 'r bus_world" where
  "Batch_Cancel b g r w =
     (case r of
        None \<Rightarrow> (Some (NeedsCollaborator ''cancelling the batch'' (b_ID b)), w)
      | Some r \<Rightarrow> on_repo (repo_Cancel r (w_now w) g (b_ID b)) w)"

definition Batch_Delete ::
    "batch \<Rightarrow> grant \<Rightarrow> 'r batch_repository option \<Rightarrow> 'r bus_world \<Rightarrow> bus_error option \<times> 'r bus_world" where
  "Batch_Delete b g r w =
     (case r of
        None \<Rightarrow> (Some (NeedsCollaborator ''deleting the batch'' (b_ID b)), w)
      | Some r \<Rightarrow> on_repo (repo_Delete r g (b_ID b)) w)"

definition Batch_DecrementPendingJobs ::
    "batch \<Rightarrow> grant \<Rightarrow> 'r batch_repository option \<Rightarrow> string \<Rightarrow> 'r bus_world \<Rightarrow>
     updated_counts bus \<times> 'r bus_world" where
  "Batch_DecrementPendingJobs b g r jobID w =
     (case r of
        None \<Rightarrow> (Inl (NeedsCollaborator ''reporting a job of the batch'' (b_ID b)), w)
      | Some r \<Rightarrow> on_repo (repo_DecrementPendingJobs r g (b_ID b) jobID) w)"

definition Batch_IncrementFailedJobs ::
    "batch \<Rightarrow> grant \<Rightarrow> 'r batch_repository option \<Rightarrow> string \<Rightarrow> 'r bus_world \<Rightarrow>
     updated_counts bus \<times> 'r bus_world" where
  "Batch_IncrementFailedJobs b g r jobID w =
     (case r of
        None \<Rightarrow> (Inl (NeedsCollaborator ''reporting a job of the batch'' (b_ID b)), w)
      | Some r \<Rightarrow> on_repo (repo_IncrementFailedJobs r g (b_ID b) jobID) w)"

text \<open>Once the counters have moved the repository is not nil, so the calls that follow are made on
  it directly.\<close>

definition Batch_RecordSuccessfulJob ::
    "batch \<Rightarrow> grant \<Rightarrow> 'r batch_repository option \<Rightarrow> bus_queue option \<Rightarrow> string \<Rightarrow> 'r bus_world \<Rightarrow>
     bus_error option \<times> 'r bus_world" where
  "Batch_RecordSuccessfulJob b g r q jobID w =
     (case Batch_DecrementPendingJobs b g r jobID w of
        (Inl e, w) \<Rightarrow> (Some e, w)
      | (Inr counts, w) \<Rightarrow>
          let after = uc_Batch counts;
              (e1, w) = only_if (Batch_HasProgressCallbacks after)
                          (push_callback g q after (bo_Progress (b_Options after))) w;
              (e2, w) = only_if (uc_PendingJobs counts = 0)
                          (\<lambda>w. on_repo (repo_MarkAsFinished (the r) (w_now w) g (b_ID b)) w) w;
              (e3, w) = only_if (uc_PendingJobs counts = 0 \<and> Batch_HasThenCallbacks after)
                          (push_callback g q after (bo_Then (b_Options after))) w;
              (e4, w) = only_if (AllJobsHaveRanExactlyOnce counts \<and> Batch_HasFinallyCallbacks after)
                          (push_callback g q after (bo_Finally (b_Options after))) w
          in (errors_Join [e1, e2, e3, e4], w))"

definition Batch_RecordFailedJob ::
    "batch \<Rightarrow> grant \<Rightarrow> 'r batch_repository option \<Rightarrow> bus_queue option \<Rightarrow> string \<Rightarrow> 'r bus_world \<Rightarrow>
     bus_error option \<times> 'r bus_world" where
  "Batch_RecordFailedJob b g r q jobID w =
     (case Batch_IncrementFailedJobs b g r jobID w of
        (Inl e, w) \<Rightarrow> (Some e, w)
      | (Inr counts, w) \<Rightarrow>
          let after = uc_Batch counts;
              (e1, w) = only_if (uc_FailedJobs counts = 1 \<and> \<not> Batch_AllowsFailures after)
                          (\<lambda>w. on_repo (repo_Cancel (the r) (w_now w) g (b_ID b)) w) w;
              (e2, w) = only_if (Batch_AllowsFailures after \<and> Batch_HasProgressCallbacks after)
                          (push_callback g q after (bo_Progress (b_Options after))) w;
              (e3, w) = only_if (Batch_AllowsFailures after \<and> Batch_HasFailureCallbacks after)
                          (push_callback g q after (bo_Failure (b_Options after))) w;
              (e4, w) = only_if (uc_FailedJobs counts = 1 \<and> Batch_HasCatchCallbacks after)
                          (push_callback g q after (bo_Catch (b_Options after))) w;
              (e5, w) = only_if (AllJobsHaveRanExactlyOnce counts \<and> Batch_HasFinallyCallbacks after)
                          (push_callback g q after (bo_Finally (b_Options after))) w
          in (errors_Join [e1, e2, e3, e4, e5], w))"

section \<open>Envelopes and dispatching\<close>

text \<open>The envelope around a job's arguments. Its JSON encoding is an argument.\<close>

record envelope =
  env_Bus :: int
  env_Batch :: string
  env_Job :: string
  env_Chain :: "step list"
  env_Catch :: step
  env_Body :: bytes

definition formatVersion :: int where "formatVersion = 1"

definition wrap_envelope :: "(envelope \<Rightarrow> bytes option) \<Rightarrow> envelope \<Rightarrow> bytes bus" where
  "wrap_envelope marshal e =
     (case marshal e of None \<Rightarrow> Inl (Unserializable ''envelope'') | Some raw \<Rightarrow> Inr raw)"

definition member_envelope :: "string \<Rightarrow> string \<Rightarrow> bytes \<Rightarrow> envelope" where
  "member_envelope batchID jobID body =
     \<lparr>env_Bus = formatVersion, env_Batch = batchID, env_Job = jobID, env_Chain = [],
      env_Catch = zero_step, env_Body = body\<rparr>"

text \<open>The loop over the jobs, in \<^verbatim>\<open>PendingBatch.Dispatch\<close> and in \<^verbatim>\<open>Batch.Add\<close>: an id, an envelope and
  a push for each, up to the first error.\<close>

fun push_jobs ::
    "(envelope \<Rightarrow> bytes option) \<Rightarrow> batch \<Rightarrow> grant \<Rightarrow> bus_queue \<Rightarrow> step list \<Rightarrow> 'r bus_world \<Rightarrow>
     bus_error option \<times> 'r bus_world" where
  "push_jobs marshal b g q [] w = (None, w)"
| "push_jobs marshal b g q (j # jobs) w =
     (case NewID (w_rand w) of
        (Inl e, rand) \<Rightarrow> (Some e, w\<lparr>w_rand := rand\<rparr>)
      | (Inr jobID, rand) \<Rightarrow>
          let w = w\<lparr>w_rand := rand\<rparr>
          in case wrap_envelope marshal (member_envelope (b_ID b) jobID (st_Payload j)) of
               Inl e \<Rightarrow> (Some e, w)
             | Inr payload \<Rightarrow>
                 (case queue_Push q g (Batch_queueFor b j) (st_Name j) payload w of
                    (Some e, w) \<Rightarrow> (Some (PushFailed (st_Name j) (b_ID b) e), w)
                  | (None, w) \<Rightarrow> push_jobs marshal b g q jobs w))"

definition Batch_Add ::
    "(envelope \<Rightarrow> bytes option) \<Rightarrow> batch \<Rightarrow> grant \<Rightarrow> 'r batch_repository option \<Rightarrow> bus_queue option \<Rightarrow>
     step list \<Rightarrow> 'r bus_world \<Rightarrow> batch bus \<times> 'r bus_world" where
  "Batch_Add marshal b g r q jobs w =
     (if jobs = [] then (Inr b, w)
      else case (r, q) of
        (Some r, Some q) \<Rightarrow>
          if \<not> list_all Step_declared jobs then (Inl ErrNoName, w)
          else (case on_repo (repo_IncrementTotalJobs r g (b_ID b) (int (length jobs))) w of
                  (Some e, w) \<Rightarrow> (Inl e, w)
                | (None, w) \<Rightarrow>
                    (case push_jobs marshal b g q jobs w of
                       (Some e, w) \<Rightarrow> (Inl e, w)
                     | (None, w) \<Rightarrow> (Batch_Fresh b g (Some r) w, w)))
      | _ \<Rightarrow> (Inl (NeedsCollaborator ''adding jobs to the batch'' (b_ID b)), w))"

definition PendingBatch_abandon ::
    "grant \<Rightarrow> 'r batch_repository \<Rightarrow> string \<Rightarrow> bus_error \<Rightarrow> 'r bus_world \<Rightarrow> bus_error \<times> 'r bus_world" where
  "PendingBatch_abandon g r batchID cause w =
     (case on_repo (repo_Cancel r (w_now w) g batchID) w of
        (Some e, w) \<Rightarrow> (AndCancelFailed cause e, w)
      | (None, w) \<Rightarrow> (cause, w))"

definition on_repo_rand ::
    "(bytes list \<Rightarrow> 'r \<Rightarrow> 'a \<times> bytes list \<times> 'r) \<Rightarrow> 'r bus_world \<Rightarrow> 'a \<times> 'r bus_world" where
  "on_repo_rand f w =
     (case f (w_rand w) (w_repo w) of (a, rand, r) \<Rightarrow> (a, w\<lparr>w_rand := rand, w_repo := r\<rparr>))"

definition PendingBatch_Dispatch ::
    "(envelope \<Rightarrow> bytes option) \<Rightarrow> pending_batch \<Rightarrow> grant \<Rightarrow> 'r batch_repository option \<Rightarrow>
     bus_queue option \<Rightarrow> 'r bus_world \<Rightarrow> batch bus \<times> 'r bus_world" where
  "PendingBatch_Dispatch marshal p g r q w =
     (case pb_err p of
        Some e \<Rightarrow> (Inl e, w)
      | None \<Rightarrow>
          if pb_jobs p = [] then (Inl ErrEmptyBatch, w)
          else case (r, q) of
            (Some r, Some q) \<Rightarrow>
              (case tenantOf g of
                 Inl e \<Rightarrow> (Inl e, w)
               | Inr _ \<Rightarrow>
                   (case on_repo_rand (repo_Store r (w_now w) g p) w of
                      (Inl e, w) \<Rightarrow> (Inl e, w)
                    | (Inr b, w) \<Rightarrow>
                        (case only_if (Batch_HasBeforeCallbacks b)
                                (push_callback g (Some q) b (bo_Before (b_Options b))) w of
                           (Some e, w) \<Rightarrow> (case PendingBatch_abandon g r (b_ID b) e w of (e, w) \<Rightarrow> (Inl e, w))
                         | (None, w) \<Rightarrow>
                             (case push_jobs marshal b g q (pb_jobs p) w of
                                (Some e, w) \<Rightarrow>
                                  (case PendingBatch_abandon g r (b_ID b) e w of (e, w) \<Rightarrow> (Inl e, w))
                              | (None, w) \<Rightarrow> (Inr b, w)))))
          | _ \<Rightarrow> (Inl (NeedsCollaborator ''dispatching the batch'' (pb_name p)), w))"

section \<open>The contract of a repository\<close>

text \<open>What the operations promise of the rows a tenant sees, as functions of the row.\<close>

definition put_row ::
    "string \<Rightarrow> string \<Rightarrow> batch \<Rightarrow> (string \<Rightarrow> string \<Rightarrow> batch option) \<Rightarrow> string \<Rightarrow> string \<Rightarrow> batch option" where
  "put_row t i b rs = (\<lambda>t' i'. if t' = t \<and> i' = i then Some b else rs t' i')"

definition new_row :: "instant \<Rightarrow> string \<Rightarrow> string \<Rightarrow> pending_batch \<Rightarrow> batch" where
  "new_row now t i p =
     BatchFactory_Make i (pb_name p) t (int (length (pb_jobs p))) (int (length (pb_jobs p))) 0 []
       (pb_options p) now None None"

definition raise_row :: "int \<Rightarrow> batch \<Rightarrow> batch" where
  "raise_row n b = b\<lparr>b_TotalJobs := wrap64 (b_TotalJobs b + n),
                     b_PendingJobs := wrap64 (b_PendingJobs b + n), b_FinishedAt := None\<rparr>"

definition finish_row :: "instant \<Rightarrow> batch \<Rightarrow> batch" where
  "finish_row now b = (if Batch_Finished b then b else b\<lparr>b_FinishedAt := Some now\<rparr>)"

definition cancel_row :: "instant \<Rightarrow> batch \<Rightarrow> batch" where
  "cancel_row now b = (if Batch_Cancelled b then b else b\<lparr>b_CancelledAt := Some now, b_FinishedAt := Some now\<rparr>)"

definition counts_of :: "batch \<Rightarrow> updated_counts" where
  "counts_of b = \<lparr>uc_PendingJobs = b_PendingJobs b, uc_FailedJobs = b_FailedJobs b, uc_Batch = b\<rparr>"

lemma put_row_same [simp]: "put_row t i b rs t i = Some b"
  by (simp add: put_row_def)

lemma put_row_put_row [simp]: "put_row t i b (put_row t i c rs) = put_row t i b rs"
  by (auto simp: put_row_def fun_eq_iff)

lemma put_row_id [simp]: "rs t i = Some b \<Longrightarrow> put_row t i b rs = rs"
  by (auto simp: put_row_def fun_eq_iff)

locale repository_contract =
  fixes repo :: "'r batch_repository"
    and rows :: "'r \<Rightarrow> string \<Rightarrow> string \<Rightarrow> batch option"
  assumes find_row: "tenantOf g = Inr t \<Longrightarrow>
      repo_Find repo g i s = (case rows s t i of None \<Rightarrow> Inl (BatchNotFound i) | Some b \<Rightarrow> Inr b)"
    and store_row: "tenantOf g = Inr t \<Longrightarrow> repo_Store repo now g p (raw # rand) s = (res, rand', s') \<Longrightarrow>
      res = Inr (new_row now t (uuid_text raw) p) \<and> rand' = rand \<and>
      rows s' = put_row t (uuid_text raw) (new_row now t (uuid_text raw) p) (rows s)"
    and store_starved: "tenantOf g = Inr t \<Longrightarrow> repo_Store repo now g p [] s = (Inl NoRandomBytes, [], s)"
    and raise_known: "tenantOf g = Inr t \<Longrightarrow> rows s t i = Some b \<Longrightarrow> 0 < n \<Longrightarrow>
      repo_IncrementTotalJobs repo g i n s = (e, s') \<Longrightarrow>
      e = None \<and> rows s' = put_row t i (raise_row n b) (rows s)"
    and success_known: "tenantOf g = Inr t \<Longrightarrow> rows s t i = Some b \<Longrightarrow>
      repo_DecrementPendingJobs repo g i job s = (cnt, s') \<Longrightarrow>
      cnt = Inr (counts_of (count_success job b)) \<and> rows s' = put_row t i (count_success job b) (rows s)"
    and failure_known: "tenantOf g = Inr t \<Longrightarrow> rows s t i = Some b \<Longrightarrow>
      repo_IncrementFailedJobs repo g i job s = (cnt, s') \<Longrightarrow>
      cnt = Inr (counts_of (count_failure job b)) \<and> rows s' = put_row t i (count_failure job b) (rows s)"
    and finish_known: "tenantOf g = Inr t \<Longrightarrow> rows s t i = Some b \<Longrightarrow>
      repo_MarkAsFinished repo now g i s = (e, s') \<Longrightarrow>
      e = None \<and> rows s' = put_row t i (finish_row now b) (rows s)"
    and cancel_known: "tenantOf g = Inr t \<Longrightarrow> rows s t i = Some b \<Longrightarrow>
      repo_Cancel repo now g i s = (e, s') \<Longrightarrow>
      e = None \<and> rows s' = put_row t i (cancel_row now b) (rows s)"

subsection \<open>The in-memory repository keeps the contract\<close>

definition mem_rows :: "memory \<Rightarrow> string \<Rightarrow> string \<Rightarrow> batch option" where
  "mem_rows m t i = (if ValidTenant t then map_of (mem_batches m) (batch_key t i) else None)"

lemma tenantOf_Inr: "tenantOf g = Inr t \<longleftrightarrow> t = Tenant g \<and> ValidTenant t"
  by (auto simp: tenantOf_def Let_def)

lemma batch_key_inj:
  assumes "ValidTenant t" "ValidTenant t'"
  shows "batch_key t i = batch_key t' i' \<longleftrightarrow> t = t' \<and> i = i'"
proof -
  have no_nul: "CHR 0x00 \<notin> set u" if "ValidTenant u" for u
    using that ValidTenant_chars tenant_rest_chars by blast
  have part: "takeWhile (\<lambda>c. c \<noteq> CHR 0x00) (batch_key u j) = u"
    "dropWhile (\<lambda>c. c \<noteq> CHR 0x00) (batch_key u j) = CHR 0x00 # j" if "ValidTenant u" for u j
    using no_nul [OF that] by (auto simp: batch_key_def takeWhile_append dropWhile_append)
  show ?thesis
    using part [OF assms(1), of i] part [OF assms(2), of i'] by auto
qed

lemma mem_rows_put:
  assumes "ValidTenant t"
  shows "mem_rows (put_batch (batch_key t i) b m) = put_row t i b (mem_rows m)"
  by (auto simp: mem_rows_def put_row_def put_batch_def fun_eq_iff update_conv' batch_key_inj assms)

lemma mem_rows_recorded [simp]: "mem_rows (m\<lparr>mem_recorded := l\<rparr>) = mem_rows m"
  by (simp add: mem_rows_def fun_eq_iff)


lemmas memory_ops =
  Memory_repository_def Memory_Find_def Memory_Store_def Memory_IncrementTotalJobs_def
  Memory_DecrementPendingJobs_def Memory_IncrementFailedJobs_def Memory_update_def
  Memory_MarkAsFinished_def Memory_Cancel_def

lemma tenantOf_valid: "tenantOf g = Inr t \<Longrightarrow> ValidTenant t"
  by (auto simp: tenantOf_Inr)

lemmas row_defs = raise_row_def counts_of_def finish_row_def cancel_row_def

interpretation memory: repository_contract Memory_repository mem_rows
proof
  fix g t now p raw rand s res rand' s'
  assume g: "tenantOf g = Inr t" and "repo_Store Memory_repository now g p (raw # rand) s = (res, rand', s')"
  then show "res = Inr (new_row now t (uuid_text raw) p) \<and> rand' = rand \<and>
      mem_rows s' = put_row t (uuid_text raw) (new_row now t (uuid_text raw) p) (mem_rows s)"
    using tenantOf_valid [OF g]
    by (auto simp: memory_ops NewID_def Let_def new_row_def BatchFactory_Make_def mem_rows_put)
next
  fix g t s i b job cnt s'
  assume g: "tenantOf g = Inr t" and b: "mem_rows s t i = Some b"
  note t = tenantOf_valid [OF g]
  have row: "map_of (mem_batches s) (batch_key t i) = Some b"
    using b t by (simp add: mem_rows_def)
  note sel = g row t mem_rows_put row_defs b
  show "0 < n \<Longrightarrow> repo_IncrementTotalJobs Memory_repository g i n s = (e, s') \<Longrightarrow>
      e = None \<and> mem_rows s' = put_row t i (raise_row n b) (mem_rows s)" for n e
    by (auto simp: memory_ops sel)
  show "repo_DecrementPendingJobs Memory_repository g i job s = (cnt, s') \<Longrightarrow>
      cnt = Inr (counts_of (count_success job b)) \<and> mem_rows s' = put_row t i (count_success job b) (mem_rows s)"
    by (auto simp: memory_ops sel Let_def)
  show "repo_IncrementFailedJobs Memory_repository g i job s = (cnt, s') \<Longrightarrow>
      cnt = Inr (counts_of (count_failure job b)) \<and> mem_rows s' = put_row t i (count_failure job b) (mem_rows s)"
    by (auto simp: memory_ops sel Let_def)
  show "repo_MarkAsFinished Memory_repository now g i s = (e, s') \<Longrightarrow>
      e = None \<and> mem_rows s' = put_row t i (finish_row now b) (mem_rows s)" for now e
    by (auto simp: memory_ops sel Let_def split: if_splits)
  show "repo_Cancel Memory_repository now g i s = (e, s') \<Longrightarrow>
      e = None \<and> mem_rows s' = put_row t i (cancel_row now b) (mem_rows s)" for now e
    by (auto simp: memory_ops sel Let_def split: if_splits)
qed (auto simp: memory_ops NewID_def mem_rows_def dest: tenantOf_valid)

section \<open>What a report does\<close>

text \<open>The specification of a report: the row it leaves and the moments it reaches, each a callback
  the batch may name.\<close>

datatype moment = Progressed | Succeeded | Caught | Failed | Ended

fun moment_step :: "batch_options \<Rightarrow> moment \<Rightarrow> step" where
  "moment_step opts Progressed = bo_Progress opts"
| "moment_step opts Succeeded = bo_Then opts"
| "moment_step opts Caught = bo_Catch opts"
| "moment_step opts Failed = bo_Failure opts"
| "moment_step opts Ended = bo_Finally opts"

definition callback_call :: "grant \<Rightarrow> batch \<Rightarrow> step \<Rightarrow> push_call" where
  "callback_call g b s = PushCall g (Batch_queueFor b s) (st_Name s) (st_Payload s)"

definition moment_calls :: "grant \<Rightarrow> batch \<Rightarrow> moment list \<Rightarrow> push_call list" where
  "moment_calls g b ms = map (callback_call g b) (filter Step_declared (map (moment_step (b_Options b)) ms))"

definition all_reported :: "batch \<Rightarrow> bool" where
  "all_reported b \<longleftrightarrow> wrap64 (b_PendingJobs b - b_FailedJobs b) = 0"

type_synonym report = "instant \<times> string \<times> bool"

fun counted :: "report \<Rightarrow> batch \<Rightarrow> batch" where
  "counted (now, job, ok) b = (if ok then count_success job b else count_failure job b)"

fun report_row :: "report \<Rightarrow> batch \<Rightarrow> batch" where
  "report_row (now, job, ok) b =
     (let a = counted (now, job, ok) b
      in if ok then (if b_PendingJobs a = 0 then finish_row now a else a)
         else if b_FailedJobs a = 1 \<and> \<not> Batch_AllowsFailures a then cancel_row now a else a)"

fun report_moments :: "report \<Rightarrow> batch \<Rightarrow> moment list" where
  "report_moments (now, job, ok) b =
     (let a = counted (now, job, ok) b
      in (if ok then [Progressed] @ (if b_PendingJobs a = 0 then [Succeeded] else [])
          else (if Batch_AllowsFailures a then [Progressed, Failed] else []) @
               (if b_FailedJobs a = 1 then [Caught] else [])) @
         (if all_reported a then [Ended] else []))"

lemma moment_calls_simps [simp]:
  "moment_calls g b [] = []"
  "moment_calls g b (m # ms) =
     (if Step_declared (moment_step (b_Options b) m)
      then [callback_call g b (moment_step (b_Options b) m)] else []) @ moment_calls g b ms"
  "moment_calls g b (ms @ ms') = moment_calls g b ms @ moment_calls g b ms'"
  by (simp_all add: moment_calls_def)

lemma count_options [simp]:
  "b_Options (count_success job b) = b_Options b" "b_Options (count_failure job b) = b_Options b"
  by (simp_all add: count_success_def count_failure_def Let_def)

lemma callback_call_cong: "b_Options a = b_Options b \<Longrightarrow> callback_call g a s = callback_call g b s"
  by (simp add: callback_call_def Batch_queueFor_def)

lemma only_if_push:
  assumes "only_if c (push_callback g (Some q) b s) w = (e, w')"
  shows "w' = w\<lparr>w_calls := w_calls w @ (if c then [callback_call g b s] else [])\<rparr>"
  using assms
  by (auto simp: only_if_def push_callback_def queue_Push_def callback_call_def Let_def split: option.splits if_splits)

lemma only_if_repo:
  assumes "only_if c (\<lambda>w. on_repo (f (w_now w)) w) w = (e, w')"
  shows "w' = w\<lparr>w_repo := if c then snd (f (w_now w) (w_repo w)) else w_repo w\<rparr>"
  using assms by (auto simp: only_if_def on_repo_def split: prod.splits if_splits)

lemmas has_callbacks =
  Batch_HasBeforeCallbacks_def Batch_HasProgressCallbacks_def Batch_HasThenCallbacks_def
  Batch_HasCatchCallbacks_def Batch_HasFailureCallbacks_def Batch_HasFinallyCallbacks_def

context repository_contract
begin

lemma record_success_known:
  assumes g: "tenantOf g = Inr t" and row: "rows (w_repo w) t (b_ID b) = Some r"
    and run: "Batch_RecordSuccessfulJob b g (Some repo) (Some q) job w = (e, w')"
  shows "w' = w\<lparr>w_repo := w_repo w',
                 w_calls := w_calls w @ moment_calls g r (report_moments (w_now w, job, True) r)\<rparr> \<and>
         rows (w_repo w') = put_row t (b_ID b) (report_row (w_now w, job, True) r) (rows (w_repo w))"
proof -
  let ?a = "count_success job r"
  obtain cnt s1 where dec: "repo_DecrementPendingJobs repo g (b_ID b) job (w_repo w) = (cnt, s1)"
    by fastforce
  note s1 = success_known [OF g row dec]
  have r1: "rows s1 t (b_ID b) = Some ?a" using s1 by simp
  obtain e2 s2 where mark: "repo_MarkAsFinished repo (w_now w) g (b_ID b) s1 = (e2, s2)" by fastforce
  note s2 = finish_known [OF g r1 mark]
  let ?c = "counts_of ?a" and ?w0 = "w\<lparr>w_repo := s1\<rparr>"
  obtain e1 w1 where p1: "only_if (Batch_HasProgressCallbacks ?a)
      (push_callback g (Some q) ?a (bo_Progress (b_Options ?a))) ?w0 = (e1, w1)" by fastforce
  obtain e2 w2 where p2: "only_if (uc_PendingJobs ?c = 0)
      (\<lambda>w. on_repo (repo_MarkAsFinished repo (w_now w) g (b_ID b)) w) w1 = (e2, w2)" by fastforce
  obtain e3 w3 where p3: "only_if (uc_PendingJobs ?c = 0 \<and> Batch_HasThenCallbacks ?a)
      (push_callback g (Some q) ?a (bo_Then (b_Options ?a))) w2 = (e3, w3)" by fastforce
  obtain e4 w4 where p4: "only_if (AllJobsHaveRanExactlyOnce ?c \<and> Batch_HasFinallyCallbacks ?a)
      (push_callback g (Some q) ?a (bo_Finally (b_Options ?a))) w3 = (e4, w4)" by fastforce
  have "w' = w4"
    using run s1 p1 p2 p3 p4
    by (simp add: Batch_RecordSuccessfulJob_def Batch_DecrementPendingJobs_def on_repo_def [of _ w] dec
        counts_of_def)
  then show ?thesis
    using s1 s2 only_if_push [OF p1] only_if_repo [OF p2] only_if_push [OF p3] only_if_push [OF p4]
    by (simp add: counts_of_def AllJobsHaveRanExactlyOnce_def all_reported_def has_callbacks mark
        callback_call_cong [of ?a r] Let_def)
qed

lemma record_failure_known:
  assumes g: "tenantOf g = Inr t" and row: "rows (w_repo w) t (b_ID b) = Some r"
    and run: "Batch_RecordFailedJob b g (Some repo) (Some q) job w = (e, w')"
  shows "w' = w\<lparr>w_repo := w_repo w',
                 w_calls := w_calls w @ moment_calls g r (report_moments (w_now w, job, False) r)\<rparr> \<and>
         rows (w_repo w') = put_row t (b_ID b) (report_row (w_now w, job, False) r) (rows (w_repo w))"
proof -
  let ?a = "count_failure job r"
  obtain cnt s1 where inc: "repo_IncrementFailedJobs repo g (b_ID b) job (w_repo w) = (cnt, s1)"
    by fastforce
  note s1 = failure_known [OF g row inc]
  have r1: "rows s1 t (b_ID b) = Some ?a" using s1 by simp
  obtain e2 s2 where stop: "repo_Cancel repo (w_now w) g (b_ID b) s1 = (e2, s2)" by fastforce
  note s2 = cancel_known [OF g r1 stop]
  let ?c = "counts_of ?a" and ?w0 = "w\<lparr>w_repo := s1\<rparr>"
  obtain e1 w1 where p1: "only_if (uc_FailedJobs ?c = 1 \<and> \<not> Batch_AllowsFailures ?a)
      (\<lambda>w. on_repo (repo_Cancel repo (w_now w) g (b_ID b)) w) ?w0 = (e1, w1)" by fastforce
  obtain e2 w2 where p2: "only_if (Batch_AllowsFailures ?a \<and> Batch_HasProgressCallbacks ?a)
      (push_callback g (Some q) ?a (bo_Progress (b_Options ?a))) w1 = (e2, w2)" by fastforce
  obtain e3 w3 where p3: "only_if (Batch_AllowsFailures ?a \<and> Batch_HasFailureCallbacks ?a)
      (push_callback g (Some q) ?a (bo_Failure (b_Options ?a))) w2 = (e3, w3)" by fastforce
  obtain e4 w4 where p4: "only_if (uc_FailedJobs ?c = 1 \<and> Batch_HasCatchCallbacks ?a)
      (push_callback g (Some q) ?a (bo_Catch (b_Options ?a))) w3 = (e4, w4)" by fastforce
  obtain e5 w5 where p5: "only_if (AllJobsHaveRanExactlyOnce ?c \<and> Batch_HasFinallyCallbacks ?a)
      (push_callback g (Some q) ?a (bo_Finally (b_Options ?a))) w4 = (e5, w5)" by fastforce
  have "w' = w5"
    using run s1 p1 p2 p3 p4 p5
    by (simp add: Batch_RecordFailedJob_def Batch_IncrementFailedJobs_def on_repo_def [of _ w] inc
        counts_of_def)
  then show ?thesis
    using s1 s2 only_if_repo [OF p1] only_if_push [OF p2] only_if_push [OF p3] only_if_push [OF p4]
      only_if_push [OF p5]
    by (simp add: counts_of_def AllJobsHaveRanExactlyOnce_def all_reported_def has_callbacks stop
        callback_call_cong [of ?a r] Let_def)
qed

end

section \<open>Dispatching over the contract\<close>

definition job_call :: "grant \<Rightarrow> batch \<Rightarrow> (envelope \<Rightarrow> bytes option) \<Rightarrow> step \<Rightarrow> bytes \<Rightarrow> push_call" where
  "job_call g b marshal j raw =
     PushCall g (Batch_queueFor b j) (st_Name j)
       (the (marshal (member_envelope (b_ID b) (uuid_text raw) (st_Payload j))))"

lemma push_jobs_keeps:
  assumes "push_jobs marshal b g q jobs w = (e, w')"
  shows "w_repo w' = w_repo w \<and> w_now w' = w_now w \<and> w_held w' = w_held w"
  using assms
proof (induction jobs arbitrary: w)
  case (Cons j jobs)
  show ?case
    using Cons.prems Cons.IH
    by (fastforce simp: NewID_def queue_Push_def Let_def split: list.splits sum.splits option.splits)
qed simp

lemma push_jobs_calls:
  assumes "push_jobs marshal b g q jobs w = (None, w')"
  shows "w_calls w' = w_calls w @ map2 (job_call g b marshal) jobs (w_rand w) \<and>
         length jobs \<le> length (w_rand w) \<and> w_rand w' = drop (length jobs) (w_rand w)"
  using assms
proof (induction jobs arbitrary: w)
  case (Cons j jobs)
  obtain raw rand where rand: "w_rand w = raw # rand"
    using Cons.prems by (cases "w_rand w") (simp_all add: NewID_def)
  obtain payload where p: "marshal (member_envelope (b_ID b) (uuid_text raw) (st_Payload j)) = Some payload"
    using Cons.prems
    by (cases "marshal (member_envelope (b_ID b) (uuid_text raw) (st_Payload j))")
       (simp_all add: NewID_def rand wrap_envelope_def)
  show ?case
    using Cons.prems Cons.IH
    by (fastforce simp: NewID_def rand wrap_envelope_def p queue_Push_def job_call_def Let_def split: option.splits)
qed simp

lemma Dispatch_cases:
  assumes "PendingBatch_Dispatch marshal p g (Some r) (Some q) w = (Inr b, w')"
  obtains t w1 e2 w2 where "tenantOf g = Inr t" "pb_err p = None" "pb_jobs p \<noteq> []"
    "on_repo_rand (repo_Store r (w_now w) g p) w = (Inr b, w1)"
    "only_if (Batch_HasBeforeCallbacks b) (push_callback g (Some q) b (bo_Before (b_Options b))) w1 = (e2, w2)"
    "push_jobs marshal b g q (pb_jobs p) w2 = (None, w')"
  using assms unfolding PendingBatch_Dispatch_def
  by (fastforce split: option.splits if_splits sum.splits prod.splits)

text \<open>A queue that accepts every push and a codec that encodes every envelope.\<close>

definition accepts :: "bus_queue \<Rightarrow> (envelope \<Rightarrow> bytes option) \<Rightarrow> bool" where
  "accepts q marshal \<longleftrightarrow> (\<forall>cs c. q cs c = None) \<and> (\<forall>e. marshal e \<noteq> None)"

lemma push_jobs_accepted:
  assumes "accepts q marshal" "length jobs \<le> length (w_rand w)"
  shows "\<exists>w'. push_jobs marshal b g q jobs w = (None, w')"
  using assms(2)
proof (induction jobs arbitrary: w)
  case (Cons j jobs)
  obtain raw rand where rand: "w_rand w = raw # rand" using Cons.prems by (cases "w_rand w") simp_all
  obtain payload where "marshal (member_envelope (b_ID b) (uuid_text raw) (st_Payload j)) = Some payload"
    using assms(1) by (metis accepts_def not_None_eq)
  then show ?case
    using Cons.IH [of "w\<lparr>w_rand := rand, w_calls := w_calls w @ [PushCall g (Batch_queueFor b j) (st_Name j) payload]\<rparr>"]
      Cons.prems assms(1)
    by (simp add: NewID_def rand wrap_envelope_def queue_Push_def accepts_def)
qed simp

context repository_contract
begin

lemma store_accepted:
  assumes g: "tenantOf g = Inr t" and "w_rand w \<noteq> []"
  shows "\<exists>b w'. on_repo_rand (repo_Store repo (w_now w) g p) w = (Inr b, w') \<and> w_rand w' = tl (w_rand w)"
proof -
  obtain raw rand where rand: "w_rand w = raw # rand" using assms(2) by (cases "w_rand w") simp_all
  obtain res rand' s where st: "repo_Store repo (w_now w) g p (raw # rand) (w_repo w) = (res, rand', s)"
    by (cases "repo_Store repo (w_now w) g p (raw # rand) (w_repo w)")
  show ?thesis using store_row [OF g st] by (simp add: on_repo_rand_def rand st)
qed

lemma dispatch_accepted:
  assumes g: "tenantOf g = Inr t" and p: "pb_err p = None" "pb_jobs p \<noteq> []"
    and "accepts q marshal" "length (pb_jobs p) < length (w_rand w)"
  shows "\<exists>b w'. PendingBatch_Dispatch marshal p g (Some repo) (Some q) w = (Inr b, w')"
proof -
  obtain b w1 where st: "on_repo_rand (repo_Store repo (w_now w) g p) w = (Inr b, w1)"
    "w_rand w1 = tl (w_rand w)"
    using store_accepted [OF g, of w p] assms(5) by fastforce
  obtain e2 w2 where before: "only_if (Batch_HasBeforeCallbacks b)
      (push_callback g (Some q) b (bo_Before (b_Options b))) w1 = (e2, w2)" by fastforce
  have "e2 = None" "w_rand w2 = w_rand w1"
    using before assms(4) by (auto simp: only_if_def push_callback_def queue_Push_def accepts_def Let_def split: if_splits)
  moreover obtain w3 where "push_jobs marshal b g q (pb_jobs p) w2 = (None, w3)"
    using push_jobs_accepted [OF assms(4), of "pb_jobs p" w2 b g] assms(5) st(2) calculation(2) by fastforce
  ultimately show ?thesis
    using g p st before by (simp add: PendingBatch_Dispatch_def)
qed

lemma dispatch_known:
  assumes run: "PendingBatch_Dispatch marshal p g (Some repo) (Some q) w = (Inr b, w')"
  shows "\<exists>t raw. tenantOf g = Inr t \<and> b = new_row (w_now w) t (uuid_text raw) p \<and>
           rows (w_repo w') = put_row t (b_ID b) b (rows (w_repo w)) \<and> w_now w' = w_now w \<and>
           w_held w' = w_held w"
  using run
proof (cases rule: Dispatch_cases)
  case (1 t w1 e2 w2)
  obtain raw rand where rand: "w_rand w = raw # rand"
    using 1(1,4) store_starved by (cases "w_rand w") (simp_all add: on_repo_rand_def)
  obtain rand' s1 where st: "repo_Store repo (w_now w) g p (raw # rand) (w_repo w) = (Inr b, rand', s1)"
    and w1: "w1 = w\<lparr>w_rand := rand', w_repo := s1\<rparr>"
    using 1(4) by (auto simp: on_repo_rand_def rand split: prod.splits)
  have "b = new_row (w_now w) t (uuid_text raw) p"
    "rows (w_repo w1) = put_row t (uuid_text raw) b (rows (w_repo w))"
    "w_now w1 = w_now w" "w_held w1 = w_held w"
    using store_row [OF 1(1) st] by (simp_all add: w1)
  then show ?thesis
    using 1(1) only_if_push [OF 1(5)] push_jobs_keeps [OF 1(6)]
    by (auto simp: new_row_def BatchFactory_Make_def)
qed

end

end
