(* ===== verification/Bus_Dispatch.thy ===== *)
theory Bus_Dispatch
  imports Bus_Batch
begin

text \<open>
  What a worker and an application do with batches and chains: \<^verbatim>\<open>src/bus/batchable.go\<close> (the
  envelope read back, the report of an outcome), \<^verbatim>\<open>chain.go\<close>, \<^verbatim>\<open>chainedbatch.go\<close> and
  \<^verbatim>\<open>dispatcher.go\<close>. The properties follow a batch from its dispatch through any sequence of reports,
  and a chain through the worker that runs it.
\<close>

section \<open>Dispatch settings\<close>

record queueable =
  qu_Connection :: string
  qu_Queue :: string
  qu_ChainConnection :: string
  qu_ChainQueue :: string
  qu_MessageGroup :: string
  qu_Deduplicator :: string
  qu_DelaySeconds :: int
  qu_DispatchAfterCommit :: "bool option"
  qu_Middleware :: "string list"
  qu_Chained :: "step list"
  qu_ChainCatch :: step

definition zero_queueable :: queueable where
  "zero_queueable = \<lparr>qu_Connection = [], qu_Queue = [], qu_ChainConnection = [], qu_ChainQueue = [],
     qu_MessageGroup = [], qu_Deduplicator = [], qu_DelaySeconds = 0, qu_DispatchAfterCommit = None,
     qu_Middleware = [], qu_Chained = [], qu_ChainCatch = zero_step\<rparr>"

definition Queueable_OnConnection :: "string \<Rightarrow> queueable \<Rightarrow> queueable" where
  "Queueable_OnConnection connection q = q\<lparr>qu_Connection := connection\<rparr>"

definition Queueable_OnQueue :: "string \<Rightarrow> queueable \<Rightarrow> queueable" where
  "Queueable_OnQueue queue q = q\<lparr>qu_Queue := queue\<rparr>"

definition Queueable_OnGroup :: "string \<Rightarrow> queueable \<Rightarrow> queueable" where
  "Queueable_OnGroup messageGroup q = q\<lparr>qu_MessageGroup := messageGroup\<rparr>"

definition Queueable_WithDeduplicator :: "string \<Rightarrow> queueable \<Rightarrow> queueable" where
  "Queueable_WithDeduplicator ident q = q\<lparr>qu_Deduplicator := ident\<rparr>"

definition Queueable_AllOnConnection :: "string \<Rightarrow> queueable \<Rightarrow> queueable" where
  "Queueable_AllOnConnection connection q = q\<lparr>qu_ChainConnection := connection, qu_Connection := connection\<rparr>"

definition Queueable_AllOnQueue :: "string \<Rightarrow> queueable \<Rightarrow> queueable" where
  "Queueable_AllOnQueue queue q = q\<lparr>qu_ChainQueue := queue, qu_Queue := queue\<rparr>"

definition Queueable_Delay :: "int \<Rightarrow> queueable \<Rightarrow> queueable" where
  "Queueable_Delay seconds q = q\<lparr>qu_DelaySeconds := seconds\<rparr>"

definition Queueable_WithoutDelay :: "queueable \<Rightarrow> queueable" where
  "Queueable_WithoutDelay q = q\<lparr>qu_DelaySeconds := 0\<rparr>"

definition Queueable_AfterCommit :: "queueable \<Rightarrow> queueable" where
  "Queueable_AfterCommit q = q\<lparr>qu_DispatchAfterCommit := Some True\<rparr>"

definition Queueable_BeforeCommit :: "queueable \<Rightarrow> queueable" where
  "Queueable_BeforeCommit q = q\<lparr>qu_DispatchAfterCommit := Some False\<rparr>"

definition Queueable_Through :: "string list \<Rightarrow> queueable \<Rightarrow> queueable" where
  "Queueable_Through middleware q = q\<lparr>qu_Middleware := middleware\<rparr>"

definition Queueable_Chain :: "step list \<Rightarrow> queueable \<Rightarrow> queueable" where
  "Queueable_Chain jobs q = q\<lparr>qu_Chained := jobs\<rparr>"

definition Queueable_PrependToChain :: "step list \<Rightarrow> queueable \<Rightarrow> queueable" where
  "Queueable_PrependToChain jobs q = q\<lparr>qu_Chained := jobs @ qu_Chained q\<rparr>"

definition Queueable_AppendToChain :: "step list \<Rightarrow> queueable \<Rightarrow> queueable" where
  "Queueable_AppendToChain jobs q = q\<lparr>qu_Chained := qu_Chained q @ jobs\<rparr>"

definition queueForChain :: "('z) queueable_scheme \<Rightarrow> step \<Rightarrow> string" where
  "queueForChain q s = (if st_Queue s \<noteq> [] then st_Queue s else qu_ChainQueue q)"

section \<open>What a job belongs to\<close>

record batchable = queueable +
  ba_BatchID :: string
  ba_JobID :: string
  ba_fake :: "batch option"

definition zero_batchable :: batchable where
  "zero_batchable = queueable.extend zero_queueable \<lparr>ba_BatchID = [], ba_JobID = [], ba_fake = None\<rparr>"

text \<open>\<^verbatim>\<open>decodeInto\<close> with \<^verbatim>\<open>json.Unmarshal\<close> into the caller's variable as an argument; no variable is
  \<^const>\<open>None\<close>. It answers the decoded value when it wrote one.\<close>

definition decodeInto :: "(bytes \<Rightarrow> 'v option) option \<Rightarrow> bytes \<Rightarrow> 'v option bus" where
  "decodeInto dest raw =
     (case dest of
        None \<Rightarrow> Inr None
      | Some unmarshal \<Rightarrow>
          if raw = [] then Inr None
          else case unmarshal raw of None \<Rightarrow> Inl Undecodable | Some v \<Rightarrow> Inr (Some v))"

definition Batched ::
    "(bytes \<Rightarrow> envelope option) \<Rightarrow> (bytes \<Rightarrow> 'v option) option \<Rightarrow> bytes \<Rightarrow> batchable \<times> 'v option bus" where
  "Batched unmarshal dest payload =
     (case unmarshal payload of
        None \<Rightarrow> (zero_batchable, decodeInto dest payload)
      | Some e \<Rightarrow>
          if env_Bus e = 0 then (zero_batchable, decodeInto dest payload)
          else if env_Bus e \<noteq> formatVersion then (zero_batchable, Inl (WrongFormat (env_Bus e)))
          else (zero_batchable\<lparr>ba_BatchID := env_Batch e, ba_JobID := env_Job e,
                              qu_Chained := env_Chain e, qu_ChainCatch := env_Catch e\<rparr>,
                decodeInto dest (env_Body e)))"

definition Batchable_WithBatchId :: "string \<Rightarrow> batchable \<Rightarrow> batchable" where
  "Batchable_WithBatchId batchID m = m\<lparr>ba_BatchID := batchID\<rparr>"

definition Batchable_WithFakeBatch :: "batch \<Rightarrow> batchable \<Rightarrow> batchable \<times> batch" where
  "Batchable_WithFakeBatch b m =
     (let b = (if b_ID b = [] then b\<lparr>b_ID := ''fake-batch''\<rparr> else b)
      in (m\<lparr>ba_BatchID := b_ID b, ba_fake := Some b\<rparr>, b))"

definition Batchable_Batch :: "batchable \<Rightarrow> grant \<Rightarrow> 'r batch_repository option \<Rightarrow> 'r bus_world \<Rightarrow> batch bus" where
  "Batchable_Batch m g r w =
     (case ba_fake m of
        Some b \<Rightarrow> Inr b
      | None \<Rightarrow>
          if ba_BatchID m = [] then Inl (BatchNotFound [])
          else case r of
                 None \<Rightarrow> Inl (NeedsCollaborator ''reading the batch'' (ba_BatchID m))
               | Some r \<Rightarrow> repo_Find r g (ba_BatchID m) (w_repo w))"

definition Batchable_Batching :: "batchable \<Rightarrow> grant \<Rightarrow> 'r batch_repository option \<Rightarrow> 'r bus_world \<Rightarrow> bool bus" where
  "Batchable_Batching m g r w =
     (if ba_BatchID m = [] then Inr True
      else case Batchable_Batch m g r w of Inl e \<Rightarrow> Inl e | Inr b \<Rightarrow> Inr (\<not> Batch_Cancelled b))"

definition link_envelope :: "step list \<Rightarrow> step \<Rightarrow> bytes \<Rightarrow> envelope" where
  "link_envelope rest catch body =
     \<lparr>env_Bus = formatVersion, env_Batch = [], env_Job = [], env_Chain = rest, env_Catch = catch,
      env_Body = body\<rparr>"

definition DispatchNextJobInChain ::
    "(envelope \<Rightarrow> bytes option) \<Rightarrow> batchable \<Rightarrow> grant \<Rightarrow> bus_queue option \<Rightarrow> 'r bus_world \<Rightarrow>
     bus_error option \<times> 'r bus_world" where
  "DispatchNextJobInChain marshal m g q w =
     (case qu_Chained m of
        [] \<Rightarrow> (None, w)
      | next # rest \<Rightarrow>
          (case q of
             None \<Rightarrow> (Some (NeedsCollaborator ''pushing the next link of a chain'' []), w)
           | Some q \<Rightarrow>
               (case wrap_envelope marshal (link_envelope rest (qu_ChainCatch m) (st_Payload next)) of
                  Inl e \<Rightarrow> (Some e, w)
                | Inr payload \<Rightarrow>
                    (case queue_Push q g (queueForChain m next) (st_Name next) payload w of
                       (Some e, w) \<Rightarrow> (Some (PushFailed (st_Name next) [] e), w)
                     | (None, w) \<Rightarrow> (None, w)))))"

definition InvokeChainCatchCallbacks ::
    "batchable \<Rightarrow> grant \<Rightarrow> bus_queue option \<Rightarrow> 'r bus_world \<Rightarrow> bus_error option \<times> 'r bus_world" where
  "InvokeChainCatchCallbacks m g q w =
     (if \<not> Step_declared (qu_ChainCatch m) then (None, w)
      else case q of
             None \<Rightarrow> (Some (NeedsCollaborator ''reporting a chain that stopped'' []), w)
           | Some q \<Rightarrow> queue_Push q g (queueForChain m (qu_ChainCatch m)) (st_Name (qu_ChainCatch m))
                         (st_Payload (qu_ChainCatch m)) w)"

text \<open>\<^verbatim>\<open>Handled\<close> asks of the cause only whether there is one.\<close>

definition Handled ::
    "(envelope \<Rightarrow> bytes option) \<Rightarrow> grant \<Rightarrow> 'r batch_repository option \<Rightarrow> bus_queue option \<Rightarrow> batchable \<Rightarrow>
     bool \<Rightarrow> 'r bus_world \<Rightarrow> bus_error option \<times> 'r bus_world" where
  "Handled marshal g r q m succeeded w =
     (if ba_BatchID m = [] \<and> qu_Chained m = [] \<and> \<not> Step_declared (qu_ChainCatch m) then (None, w)
      else if Option.is_none q then (Some (NeedsCollaborator ''reporting a job'' []), w)
      else let (e1, w) =
                 (if ba_BatchID m = [] then (None, w)
                  else case r of
                    None \<Rightarrow> (Some (NeedsCollaborator ''reporting a job of the batch'' (ba_BatchID m)), w)
                  | Some repo \<Rightarrow>
                      (case repo_Find repo g (ba_BatchID m) (w_repo w) of
                         Inl e \<Rightarrow> (Some e, w)
                       | Inr b \<Rightarrow>
                           if succeeded then Batch_RecordSuccessfulJob b g r q (ba_JobID m) w
                           else Batch_RecordFailedJob b g r q (ba_JobID m) w));
               (e2, w) =
                 (if succeeded then DispatchNextJobInChain marshal m g q w
                  else InvokeChainCatchCallbacks m g q w)
           in (errors_Join [e1, e2], w))"

section \<open>Chains\<close>

record chain =
  ch_queue :: string
  ch_jobs :: "step list"
  ch_catch :: step
  ch_err :: "bus_error option"

definition NewChain :: chain where
  "NewChain = \<lparr>ch_queue = [], ch_jobs = [], ch_catch = zero_step, ch_err = None\<rparr>"

definition Chain_fail :: "bus_error \<Rightarrow> chain \<Rightarrow> chain" where
  "Chain_fail e c = (if ch_err c = None then c\<lparr>ch_err := Some e\<rparr> else c)"

definition Chain_Add :: "('v \<Rightarrow> bytes option) \<Rightarrow> string \<Rightarrow> 'v option \<Rightarrow> chain \<Rightarrow> chain" where
  "Chain_Add marshal name payload c =
     (case bus_step marshal [] name payload of
        Inl e \<Rightarrow> Chain_fail e c
      | Inr s \<Rightarrow> c\<lparr>ch_jobs := ch_jobs c @ [s]\<rparr>)"

fun Chain_AddStep :: "step list \<Rightarrow> chain \<Rightarrow> chain" where
  "Chain_AddStep [] c = c"
| "Chain_AddStep (s # jobs) c =
     (if \<not> Step_declared s then Chain_fail ErrNoName c
      else Chain_AddStep jobs (c\<lparr>ch_jobs := ch_jobs c @ [s]\<rparr>))"

definition Chain_Catch :: "('v \<Rightarrow> bytes option) \<Rightarrow> string \<Rightarrow> 'v option \<Rightarrow> chain \<Rightarrow> chain" where
  "Chain_Catch marshal name payload c =
     (case bus_step marshal [] name payload of
        Inl e \<Rightarrow> Chain_fail e c
      | Inr s \<Rightarrow> c\<lparr>ch_catch := s\<rparr>)"

definition Chain_OnQueue :: "string \<Rightarrow> chain \<Rightarrow> chain" where
  "Chain_OnQueue queue c = c\<lparr>ch_queue := queue\<rparr>"

definition Chain_queueFor :: "chain \<Rightarrow> step \<Rightarrow> step" where
  "Chain_queueFor c s = (if st_Queue s = [] then s\<lparr>st_Queue := ch_queue c\<rparr> else s)"

definition Chain_Dispatch ::
    "(envelope \<Rightarrow> bytes option) \<Rightarrow> chain \<Rightarrow> grant \<Rightarrow> bus_queue option \<Rightarrow> 'r bus_world \<Rightarrow>
     bus_error option \<times> 'r bus_world" where
  "Chain_Dispatch marshal c g q w =
     (case ch_err c of
        Some e \<Rightarrow> (Some e, w)
      | None \<Rightarrow>
          (case map (Chain_queueFor c) (ch_jobs c) of
             [] \<Rightarrow> (Some ErrEmptyChain, w)
           | first # rest \<Rightarrow>
               (case q of
                  None \<Rightarrow> (Some (NeedsCollaborator ''dispatching a chain'' []), w)
                | Some q \<Rightarrow>
                    (case tenantOf g of
                       Inl e \<Rightarrow> (Some e, w)
                     | Inr _ \<Rightarrow>
                         (case wrap_envelope marshal
                                 (link_envelope rest (Chain_queueFor c (ch_catch c)) (st_Payload first)) of
                            Inl e \<Rightarrow> (Some e, w)
                          | Inr payload \<Rightarrow>
                              (case queue_Push q g (st_Queue first) (st_Name first) payload w of
                                 (Some e, w) \<Rightarrow> (Some (PushFailed (st_Name first) [] e), w)
                               | (None, w) \<Rightarrow> (None, w)))))))"

section \<open>A batch as a link of a chain\<close>

definition ChainedBatchJob :: string where "ChainedBatchJob = ''bus.chained-batch''"

record chained_batch = queueable +
  cb_Name :: string
  cb_Jobs :: "step list"
  cb_Options :: batch_options

definition NewChainedBatch :: "pending_batch \<Rightarrow> chained_batch" where
  "NewChainedBatch p =
     (queueable.extend zero_queueable
        \<lparr>cb_Name = pb_name p, cb_Jobs = pb_jobs p, cb_Options = pb_options p\<rparr>)
     \<lparr>qu_Queue := bo_Queue (pb_options p), qu_Connection := bo_Connection (pb_options p)\<rparr>"

definition ChainedBatch_Step :: "(chained_batch \<Rightarrow> bytes option) \<Rightarrow> chained_batch \<Rightarrow> step bus" where
  "ChainedBatch_Step marshal c = bus_step marshal (qu_Queue c) ChainedBatchJob (Some c)"

definition ToPendingBatch :: "chained_batch \<Rightarrow> pending_batch" where
  "ToPendingBatch c =
     (let p = PendingBatch_AddStep (cb_Jobs c)
                \<lparr>pb_name = cb_Name c, pb_jobs = [], pb_options = cb_Options c, pb_events = None, pb_err = None\<rparr>;
          p = (if qu_Queue c \<noteq> [] then PendingBatch_OnQueue (qu_Queue c) p else p);
          p = (if qu_Connection c \<noteq> [] then PendingBatch_OnConnection (qu_Connection c) p else p)
      in if Step_declared (qu_ChainCatch c) \<and> \<not> Step_declared (bo_Catch (pb_options p))
         then p\<lparr>pb_options := (pb_options p)\<lparr>bo_Catch := qu_ChainCatch c\<rparr>\<rparr> else p)"

definition attachRemainderOfChainToEndOfBatch ::
    "(envelope \<Rightarrow> bytes option) \<Rightarrow> chained_batch \<Rightarrow> pending_batch \<Rightarrow> pending_batch bus" where
  "attachRemainderOfChainToEndOfBatch marshal c p =
     (case qu_Chained c of
        [] \<Rightarrow> Inr p
      | next # rest \<Rightarrow>
          (case wrap_envelope marshal (link_envelope rest (qu_ChainCatch c) (st_Payload next)) of
             Inl e \<Rightarrow> Inl e
           | Inr payload \<Rightarrow>
               Inr (p\<lparr>pb_options := (pb_options p)\<lparr>bo_Finally :=
                      \<lparr>st_Queue = queueForChain c next, st_Name = st_Name next, st_Payload = payload\<rparr>\<rparr>\<rparr>)))"

definition ChainedBatch_Handle ::
    "(envelope \<Rightarrow> bytes option) \<Rightarrow> chained_batch \<Rightarrow> grant \<Rightarrow> 'r batch_repository option \<Rightarrow>
     bus_queue option \<Rightarrow> 'r bus_world \<Rightarrow> batch bus \<times> 'r bus_world" where
  "ChainedBatch_Handle marshal c g r q w =
     (case attachRemainderOfChainToEndOfBatch marshal c (ToPendingBatch c) of
        Inl e \<Rightarrow> (Inl e, w)
      | Inr p \<Rightarrow> PendingBatch_Dispatch marshal p g r q w)"

datatype link = NilLink | StepLink step | PendingLink pending_batch | ChainedLink chained_batch | OtherLink

fun PrepareNestedBatches :: "(chained_batch \<Rightarrow> bytes option) \<Rightarrow> link list \<Rightarrow> step list bus" where
  "PrepareNestedBatches marshal [] = Inr []"
| "PrepareNestedBatches marshal (l # links) =
     (let found = (case l of
                     NilLink \<Rightarrow> Inr []
                   | StepLink s \<Rightarrow> if \<not> Step_declared s then Inl ErrNoName else Inr [s]
                   | PendingLink p \<Rightarrow>
                       (case ChainedBatch_Step marshal (NewChainedBatch p) of Inl e \<Rightarrow> Inl e | Inr s \<Rightarrow> Inr [s])
                   | ChainedLink c \<Rightarrow> (case ChainedBatch_Step marshal c of Inl e \<Rightarrow> Inl e | Inr s \<Rightarrow> Inr [s])
                   | OtherLink \<Rightarrow> Inl NotALink)
      in case found of
           Inl e \<Rightarrow> Inl e
         | Inr out \<Rightarrow> (case PrepareNestedBatches marshal links of Inl e \<Rightarrow> Inl e | Inr rest \<Rightarrow> Inr (out @ rest)))"

definition zero_chained_batch :: chained_batch where
  "zero_chained_batch =
     queueable.extend zero_queueable \<lparr>cb_Name = [], cb_Jobs = [], cb_Options = zero_options\<rparr>"

definition DecodeChainedBatch ::
    "(bytes \<Rightarrow> envelope option) \<Rightarrow> (bytes \<Rightarrow> chained_batch option) \<Rightarrow> bytes \<Rightarrow> chained_batch bus" where
  "DecodeChainedBatch unmarshal read payload =
     (case Batched unmarshal (Some read) payload of
        (m, Inl e) \<Rightarrow> Inl e
      | (m, Inr v) \<Rightarrow>
          let c = (case v of None \<Rightarrow> zero_chained_batch | Some c \<Rightarrow> c)
          in if cb_Name c = [] \<and> cb_Jobs c = [] then Inl NotALink
             else let c = c\<lparr>qu_Chained := qu_Chained m, qu_ChainCatch := qu_ChainCatch m\<rparr>
                  in Inr (if qu_ChainQueue c = [] then c\<lparr>qu_ChainQueue := qu_ChainQueue m\<rparr> else c))"

section \<open>The dispatcher\<close>

type_synonym 'r handler = "grant \<Rightarrow> bytes \<Rightarrow> 'r bus_world \<Rightarrow> bus_error option \<times> 'r bus_world"

record 'r dispatcher =
  d_repository :: "'r batch_repository option"
  d_queue :: "bus_queue option"
  d_handlers :: "(string \<times> 'r handler) list"
  d_pipes :: "('r handler \<Rightarrow> 'r handler) option list"
  d_allowsDispatchingAfterResponses :: bool

definition NewDispatcher :: "bus_queue option \<Rightarrow> 'r batch_repository option \<Rightarrow> 'r dispatcher" where
  "NewDispatcher q r = \<lparr>d_repository = r, d_queue = q, d_handlers = [], d_pipes = [],
     d_allowsDispatchingAfterResponses = True\<rparr>"

definition Dispatcher_Map :: "(string \<times> 'r handler) list \<Rightarrow> 'r dispatcher \<Rightarrow> 'r dispatcher" where
  "Dispatcher_Map m d = d\<lparr>d_handlers := AList.updates (map fst m) (map snd m) (d_handlers d)\<rparr>"

definition GetCommandHandler :: "string \<Rightarrow> 'r dispatcher \<Rightarrow> 'r handler option" where
  "GetCommandHandler name d = map_of (d_handlers d) name"

definition HasCommandHandler :: "string \<Rightarrow> 'r dispatcher \<Rightarrow> bool" where
  "HasCommandHandler name d \<longleftrightarrow> \<not> Option.is_none (map_of (d_handlers d) name)"

definition PipeThrough :: "('r handler \<Rightarrow> 'r handler) option list \<Rightarrow> 'r dispatcher \<Rightarrow> 'r dispatcher" where
  "PipeThrough pipes d = d\<lparr>d_pipes := pipes\<rparr>"

definition DispatchNow ::
    "'r dispatcher \<Rightarrow> grant \<Rightarrow> step \<Rightarrow> 'r bus_world \<Rightarrow> bus_error option \<times> 'r bus_world" where
  "DispatchNow d g job w =
     (if \<not> Step_declared job then (Some ErrNoName, w)
      else case GetCommandHandler (st_Name job) d of
             None \<Rightarrow> (Some (NoHandler (st_Name job)), w)
           | Some handler \<Rightarrow>
               foldr (\<lambda>pipe h. case pipe of None \<Rightarrow> h | Some p \<Rightarrow> p h) (d_pipes d) handler g (st_Payload job) w)"

definition DispatchSync ::
    "'r dispatcher \<Rightarrow> grant \<Rightarrow> step \<Rightarrow> 'r bus_world \<Rightarrow> bus_error option \<times> 'r bus_world" where
  "DispatchSync d g job w = DispatchNow d g job w"

definition DispatchToQueue ::
    "'r dispatcher \<Rightarrow> grant \<Rightarrow> step \<Rightarrow> 'r bus_world \<Rightarrow> bus_error option \<times> 'r bus_world" where
  "DispatchToQueue d g job w =
     (if \<not> Step_declared job then (Some ErrNoName, w)
      else case d_queue d of
             None \<Rightarrow> (Some (NeedsCollaborator ''this dispatcher'' []), w)
           | Some q \<Rightarrow> queue_Push q g (st_Queue job) (st_Name job) (st_Payload job) w)"

definition Dispatcher_Dispatch ::
    "'r dispatcher \<Rightarrow> grant \<Rightarrow> step \<Rightarrow> 'r bus_world \<Rightarrow> bus_error option \<times> 'r bus_world" where
  "Dispatcher_Dispatch d g job w =
     (if Option.is_none (d_queue d) then DispatchNow d g job w else DispatchToQueue d g job w)"

definition afterResponse :: "held \<Rightarrow> 'r bus_world \<Rightarrow> 'r bus_world" where
  "afterResponse h w = w\<lparr>w_held := w_held w @ [h]\<rparr>"

definition Dispatcher_DispatchAfterResponse ::
    "'r dispatcher \<Rightarrow> grant \<Rightarrow> step \<Rightarrow> 'r bus_world \<Rightarrow> bus_error option \<times> 'r bus_world" where
  "Dispatcher_DispatchAfterResponse d g job w =
     (if \<not> d_allowsDispatchingAfterResponses d then DispatchSync d g job w
      else (None, afterResponse (HeldJob g job) w))"

text \<open>The two closures, run by \<^verbatim>\<open>Terminating\<close>.\<close>

fun run_held ::
    "(envelope \<Rightarrow> bytes option) \<Rightarrow> 'r dispatcher \<Rightarrow> held \<Rightarrow> 'r bus_world \<Rightarrow> bus_error option \<times> 'r bus_world" where
  "run_held marshal d (HeldJob g job) w = DispatchSync d g job w"
| "run_held marshal d (HeldBatch g b jobs) w =
     (case Batch_Add marshal b g (d_repository d) (d_queue d) jobs w of
        (Inl e, w) \<Rightarrow> Batch_Delete b g (d_repository d) w
      | (Inr _, w) \<Rightarrow> (None, w))"

fun run_all_held ::
    "(envelope \<Rightarrow> bytes option) \<Rightarrow> 'r dispatcher \<Rightarrow> held list \<Rightarrow> 'r bus_world \<Rightarrow>
     bus_error option list \<times> 'r bus_world" where
  "run_all_held marshal d [] w = ([], w)"
| "run_all_held marshal d (h # hs) w =
     (let (e, w) = run_held marshal d h w; (es, w) = run_all_held marshal d hs w in (e # es, w))"

definition Terminating ::
    "(envelope \<Rightarrow> bytes option) \<Rightarrow> 'r dispatcher \<Rightarrow> 'r bus_world \<Rightarrow> bus_error option \<times> 'r bus_world" where
  "Terminating marshal d w =
     (let (errs, w) = run_all_held marshal d (w_held w) (w\<lparr>w_held := []\<rparr>) in (errors_Join errs, w))"

definition FindBatch :: "'r dispatcher \<Rightarrow> grant \<Rightarrow> string \<Rightarrow> 'r bus_world \<Rightarrow> batch bus" where
  "FindBatch d g batchID w =
     (case d_repository d of
        None \<Rightarrow> Inl (NeedsCollaborator ''this dispatcher'' [])
      | Some r \<Rightarrow> repo_Find r g batchID (w_repo w))"

definition DispatchChain ::
    "(envelope \<Rightarrow> bytes option) \<Rightarrow> 'r dispatcher \<Rightarrow> grant \<Rightarrow> step list \<Rightarrow> 'r bus_world \<Rightarrow>
     bus_error option \<times> 'r bus_world" where
  "DispatchChain marshal d g jobs w = Chain_Dispatch marshal (Chain_AddStep jobs NewChain) g (d_queue d) w"

definition PendingBatch_DispatchAfterResponse ::
    "pending_batch \<Rightarrow> grant \<Rightarrow> 'r dispatcher option \<Rightarrow> 'r bus_world \<Rightarrow> batch bus \<times> 'r bus_world" where
  "PendingBatch_DispatchAfterResponse p g d w =
     (case Option.bind d (\<lambda>d. if Option.is_none (d_queue d) then None else d_repository d) of
        None \<Rightarrow> (Inl (NeedsCollaborator ''dispatching the batch after the response'' (pb_name p)), w)
      | Some r \<Rightarrow>
          (case pb_err p of
             Some e \<Rightarrow> (Inl e, w)
           | None \<Rightarrow>
               if pb_jobs p = [] then (Inl ErrEmptyBatch, w)
               else case tenantOf g of
                      Inl e \<Rightarrow> (Inl e, w)
                    | Inr _ \<Rightarrow>
                        (case on_repo_rand (repo_Store r (w_now w) g p) w of
                           (Inl e, w) \<Rightarrow> (Inl e, w)
                         | (Inr b, w) \<Rightarrow> (Inr b, afterResponse (HeldBatch g b (pb_jobs p)) w))))"

definition WithDispatchingAfterResponses :: "'r dispatcher \<Rightarrow> 'r dispatcher" where
  "WithDispatchingAfterResponses d = d\<lparr>d_allowsDispatchingAfterResponses := True\<rparr>"

definition WithoutDispatchingAfterResponses :: "'r dispatcher \<Rightarrow> 'r dispatcher" where
  "WithoutDispatchingAfterResponses d = d\<lparr>d_allowsDispatchingAfterResponses := False\<rparr>"

definition Dispatcher_Batch :: "step list \<Rightarrow> pending_batch" where
  "Dispatcher_Batch jobs = PendingBatch_AddStep jobs (NewBatch [])"

definition Dispatcher_Chain :: "step list \<Rightarrow> chain" where
  "Dispatcher_Chain jobs = Chain_AddStep jobs NewChain"

text \<open>The zero \<^verbatim>\<open>Batch\<close> without an error is \<^const>\<open>None\<close>.\<close>

definition PendingBatch_DispatchIf ::
    "(envelope \<Rightarrow> bytes option) \<Rightarrow> pending_batch \<Rightarrow> grant \<Rightarrow> 'r batch_repository option \<Rightarrow> bus_queue option \<Rightarrow>
     bool \<Rightarrow> 'r bus_world \<Rightarrow> batch option bus \<times> 'r bus_world" where
  "PendingBatch_DispatchIf marshal p g r q ok w =
     (if \<not> ok then (Inr None, w)
      else case PendingBatch_Dispatch marshal p g r q w of (Inl e, w) \<Rightarrow> (Inl e, w) | (Inr b, w) \<Rightarrow> (Inr (Some b), w))"

definition PendingBatch_DispatchUnless ::
    "(envelope \<Rightarrow> bytes option) \<Rightarrow> pending_batch \<Rightarrow> grant \<Rightarrow> 'r batch_repository option \<Rightarrow> bus_queue option \<Rightarrow>
     bool \<Rightarrow> 'r bus_world \<Rightarrow> batch option bus \<times> 'r bus_world" where
  "PendingBatch_DispatchUnless marshal p g r q ok w = PendingBatch_DispatchIf marshal p g r q (\<not> ok) w"

section \<open>Reports of a batch's jobs\<close>

text \<open>A job of a batch is delivered and its outcome reported through \<^const>\<open>Handled\<close>, at the instant
  the report names; any sequence of reports is a run.\<close>

definition member :: "string \<Rightarrow> string \<Rightarrow> batchable" where
  "member batchID jobID = zero_batchable\<lparr>ba_BatchID := batchID, ba_JobID := jobID\<rparr>"

fun run_reports ::
    "(envelope \<Rightarrow> bytes option) \<Rightarrow> grant \<Rightarrow> 'r batch_repository \<Rightarrow> bus_queue \<Rightarrow> string \<Rightarrow> report list \<Rightarrow>
     'r bus_world \<Rightarrow> 'r bus_world" where
  "run_reports marshal g r q i [] w = w"
| "run_reports marshal g r q i ((now, job, ok) # rs) w =
     run_reports marshal g r q i rs
       (snd (Handled marshal g (Some r) (Some q) (member i job) ok (w\<lparr>w_now := now\<rparr>)))"

fun final_row :: "report list \<Rightarrow> batch \<Rightarrow> batch" where
  "final_row [] b = b"
| "final_row (r # rs) b = final_row rs (report_row r b)"

fun run_moments :: "report list \<Rightarrow> batch \<Rightarrow> moment list" where
  "run_moments [] b = []"
| "run_moments (r # rs) b = report_moments r b @ run_moments rs (report_row r b)"

lemma Batched_member:
  "unmarshal raw = Some (member_envelope i job body) \<Longrightarrow> fst (Batched unmarshal dest raw) = member i job"
  by (simp add: Batched_def member_envelope_def formatVersion_def member_def zero_batchable_def
      zero_queueable_def queueable.defs batchable.defs)

lemma member_fields [simp]:
  "ba_BatchID (member i job) = i" "ba_JobID (member i job) = job" "qu_Chained (member i job) = []"
  "qu_ChainCatch (member i job) = zero_step"
  by (simp_all add: member_def zero_batchable_def zero_queueable_def queueable.defs)

lemma zero_step_undeclared [simp]: "\<not> Step_declared zero_step"
  by (simp add: Step_declared_def zero_step_def)

lemma row_keeps [simp]:
  "b_ID (finish_row now b) = b_ID b" "b_Options (finish_row now b) = b_Options b"
  "b_PendingJobs (finish_row now b) = b_PendingJobs b" "b_FailedJobs (finish_row now b) = b_FailedJobs b"
  "b_FailedJobIDs (finish_row now b) = b_FailedJobIDs b"
  "b_ID (cancel_row now b) = b_ID b" "b_Options (cancel_row now b) = b_Options b"
  "b_PendingJobs (cancel_row now b) = b_PendingJobs b" "b_FailedJobs (cancel_row now b) = b_FailedJobs b"
  "b_FailedJobIDs (cancel_row now b) = b_FailedJobIDs b"
  by (simp_all add: finish_row_def cancel_row_def)

lemma counted_keeps [simp]: "b_ID (counted r b) = b_ID b" "b_Options (counted r b) = b_Options b"
  by (cases r; simp add: count_success_def count_failure_def Let_def)+

lemma report_row_cases:
  "report_row r b \<in> {counted r b, finish_row (fst r) (counted r b), cancel_row (fst r) (counted r b)}"
  by (cases r) (simp add: Let_def)

lemma report_row_counts [simp]:
  "b_ID (report_row r b) = b_ID b" "b_Options (report_row r b) = b_Options b"
  "b_PendingJobs (report_row r b) = b_PendingJobs (counted r b)"
  "b_FailedJobs (report_row r b) = b_FailedJobs (counted r b)"
  "b_FailedJobIDs (report_row r b) = b_FailedJobIDs (counted r b)"
  using report_row_cases [of r b] by (auto simp del: report_row.simps counted.simps)

declare report_row.simps [simp del] report_moments.simps [simp del]

lemma final_row_keeps [simp]: "b_ID (final_row rs b) = b_ID b" "b_Options (final_row rs b) = b_Options b"
  by (induction rs arbitrary: b) simp_all

lemma moment_calls_cong: "b_Options a = b_Options b \<Longrightarrow> moment_calls g a ms = moment_calls g b ms"
  by (simp add: moment_calls_def callback_call_cong [of a b])

context repository_contract
begin

lemma handled_known:
  assumes g: "tenantOf g = Inr t" and row: "rows (w_repo w) t i = Some b" and b: "b_ID b = i" "i \<noteq> []"
    and run: "Handled marshal g (Some repo) (Some q) (member i job) ok w = (e, w')"
  shows "rows (w_repo w') = put_row t i (report_row (w_now w, job, ok) b) (rows (w_repo w))"
    and "w_calls w' = w_calls w @ moment_calls g b (report_moments (w_now w, job, ok) b)"
proof -
  have row': "rows (w_repo w) t (b_ID b) = Some b" using row b by simp
  obtain e1 w1 where
    one: "(if ok then Batch_RecordSuccessfulJob b g (Some repo) (Some q) job w
           else Batch_RecordFailedJob b g (Some repo) (Some q) job w) = (e1, w1)"
    by fastforce
  have "w' = w1"
    using run one b find_row [OF g, of i "w_repo w"] row
    by (auto simp: Handled_def DispatchNextJobInChain_def InvokeChainCatchCallbacks_def split: if_splits)
  moreover have "w_calls w1 = w_calls w @ moment_calls g b (report_moments (w_now w, job, ok) b) \<and>
      rows (w_repo w1) = put_row t i (report_row (w_now w, job, ok) b) (rows (w_repo w))"
  proof (cases ok)
    case True
    then show ?thesis
      using one b record_success_known [OF g row', of q job e1 w1]
      by (auto elim!: ssubst [where P = "\<lambda>w. w_calls w = _"])
  next
    case False
    then show ?thesis
      using one b record_failure_known [OF g row', of q job e1 w1]
      by (auto elim!: ssubst [where P = "\<lambda>w. w_calls w = _"])
  qed
  ultimately show "rows (w_repo w') = put_row t i (report_row (w_now w, job, ok) b) (rows (w_repo w))"
    and "w_calls w' = w_calls w @ moment_calls g b (report_moments (w_now w, job, ok) b)"
    by simp_all
qed

lemma run_reports_known:
  assumes g: "tenantOf g = Inr t" and "rows (w_repo w) t i = Some b" and "b_ID b = i" "i \<noteq> []"
  shows "rows (w_repo (run_reports marshal g repo q i rs w)) = put_row t i (final_row rs b) (rows (w_repo w)) \<and>
         w_calls (run_reports marshal g repo q i rs w) = w_calls w @ moment_calls g b (run_moments rs b)"
  using assms
proof (induction rs arbitrary: w b)
  case (Cons r rs)
  obtain now job ok where r: "r = (now, job, ok)" by (cases r)
  obtain e w' where h: "Handled marshal g (Some repo) (Some q) (member i job) ok (w\<lparr>w_now := now\<rparr>) = (e, w')"
    by fastforce
  have "rows (w_repo w') = put_row t i (report_row r b) (rows (w_repo w))"
    "w_calls w' = w_calls w @ moment_calls g b (report_moments r b)"
    using handled_known [OF g _ _ _ h] Cons.prems(2-) by (simp_all add: r)
  moreover note Cons.IH [of w' "report_row r b"]
  ultimately show ?case
    using Cons.prems by (simp add: r h moment_calls_cong [of "report_row (now, job, ok) b" b])
qed simp

end

subsection \<open>How often each moment is reached\<close>

definition successes :: "report list \<Rightarrow> int" where
  "successes rs = int (length (filter (\<lambda>(now, job, ok). ok) rs))"

definition failures :: "report list \<Rightarrow> int" where
  "failures rs = int (length (filter (\<lambda>(now, job, ok). \<not> ok) rs))"

lemma successes_simps [simp]:
  "successes [] = 0"
  "successes ((now, job, ok) # rs) = (if ok then 1 else 0) + successes rs"
  "failures [] = 0"
  "failures ((now, job, ok) # rs) = (if ok then 0 else 1) + failures rs"
  by (simp_all add: successes_def failures_def)

lemma successes_bounds: "0 \<le> successes rs" "0 \<le> failures rs" "successes rs + failures rs = int (length rs)"
  by (induction rs) (auto simp: successes_def failures_def)

lemma counted_pending:
  "in_int64 (b_PendingJobs b - 1) \<Longrightarrow> in_int64 (b_PendingJobs b) \<Longrightarrow>
   b_PendingJobs (counted (now, job, ok) b) = b_PendingJobs b - (if ok then 1 else 0)"
  by (simp add: count_success_def count_failure_def Let_def)

lemma count_moment:
  "count_list (report_moments (now, job, ok) b) Succeeded =
     (if ok \<and> b_PendingJobs (counted (now, job, ok) b) = 0 then 1 else 0)"
  "count_list (report_moments (now, job, ok) b) Ended =
     (if all_reported (counted (now, job, ok) b) then 1 else 0)"
  "count_list (report_moments (now, job, ok) b) Caught =
     (if \<not> ok \<and> b_FailedJobs (counted (now, job, ok) b) = 1 then 1 else 0)"
  by (simp_all add: report_moments.simps Let_def)

lemma count_list_append: "count_list (xs @ ys) x = count_list xs x + count_list ys x"
  by (induction xs) simp_all

lemma run_succeeded:
  assumes "MinInt64 + int (length rs) \<le> b_PendingJobs b" "b_PendingJobs b \<le> MaxInt64"
  shows "count_list (run_moments rs b) Succeeded =
           (if 0 < b_PendingJobs b \<and> b_PendingJobs b \<le> successes rs then 1 else 0) \<and>
         b_PendingJobs (final_row rs b) = b_PendingJobs b - successes rs"
  using assms
proof (induction rs arbitrary: b)
  case (Cons r rs)
  obtain now job ok where r: "r = (now, job, ok)" by (cases r)
  have p: "b_PendingJobs (counted r b) = b_PendingJobs b - (if ok then 1 else 0)"
    using Cons.prems by (simp add: r counted_pending in_int64_def del: counted.simps)
  show ?case
    using Cons.IH [of "report_row r b"] Cons.prems p successes_bounds [of rs]
    by (cases ok) (auto simp: r count_list_append count_moment simp del: counted.simps)
qed simp

text \<open>Every job reports once: no id comes twice, and none is on the failed list already.\<close>

definition each_once :: "report list \<Rightarrow> batch \<Rightarrow> bool" where
  "each_once rs b \<longleftrightarrow>
     (let ids = map (\<lambda>(now, job, ok). job) rs
      in distinct ids \<and> list_all (\<lambda>job. job \<noteq> [] \<and> job \<notin> set (b_FailedJobIDs b)) ids)"

lemma counted_once:
  assumes "in_int64 (b_PendingJobs b - 1)" "in_int64 (b_PendingJobs b)"
    and "job \<noteq> []" "job \<notin> set (b_FailedJobIDs b)" and f: "b_FailedJobs b = int (length (b_FailedJobIDs b))"
  shows "b_PendingJobs (counted (now, job, ok) b) = b_PendingJobs b - (if ok then 1 else 0)"
    and "b_FailedJobs (counted (now, job, ok) b) = b_FailedJobs b + (if ok then 0 else 1)"
    and "b_FailedJobs (counted (now, job, ok) b) = int (length (b_FailedJobIDs (counted (now, job, ok) b)))"
    and "set (b_FailedJobIDs (counted (now, job, ok) b)) \<subseteq> insert job (set (b_FailedJobIDs b))"
proof -
  have keep: "withoutFailure (b_FailedJobIDs b) job = b_FailedJobIDs b"
    using assms by (auto simp: withoutFailure_def filter_id_conv)
  have add: "length (withFailure (b_FailedJobIDs b) job) = Suc (length (b_FailedJobIDs b))"
    "set (withFailure (b_FailedJobIDs b) job) = insert job (set (b_FailedJobIDs b))"
    using assms by (auto simp: withFailure_def)
  show "b_PendingJobs (counted (now, job, ok) b) = b_PendingJobs b - (if ok then 1 else 0)"
    "b_FailedJobs (counted (now, job, ok) b) = b_FailedJobs b + (if ok then 0 else 1)"
    "b_FailedJobs (counted (now, job, ok) b) = int (length (b_FailedJobIDs (counted (now, job, ok) b)))"
    "set (b_FailedJobIDs (counted (now, job, ok) b)) \<subseteq> insert job (set (b_FailedJobIDs b))"
    using assms by (auto simp: count_success_def count_failure_def Let_def keep add)
qed

lemma run_ended:
  assumes "MinInt64 + int (length rs) \<le> b_PendingJobs b - b_FailedJobs b" "b_PendingJobs b \<le> MaxInt64"
    and "b_FailedJobs b = int (length (b_FailedJobIDs b))" and "each_once rs b"
  shows "count_list (run_moments rs b) Ended =
           (if 0 < b_PendingJobs b - b_FailedJobs b \<and> b_PendingJobs b - b_FailedJobs b \<le> int (length rs)
            then 1 else 0) \<and>
         count_list (run_moments rs b) Caught = (if b_FailedJobs b = 0 \<and> 0 < failures rs then 1 else 0)"
  using assms
proof (induction rs arbitrary: b)
  case (Cons r rs)
  obtain now job ok where r: "r = (now, job, ok)" by (cases r)
  have job: "job \<noteq> []" "job \<notin> set (b_FailedJobIDs b)"
    using Cons.prems(4) by (simp_all add: r each_once_def)
  have range: "in_int64 (b_PendingJobs b - 1)" "in_int64 (b_PendingJobs b)"
    using Cons.prems(1-3) by (simp_all add: in_int64_def)
  note c = counted_once [OF range job Cons.prems(3), of now ok]
  have once: "each_once rs (report_row r b)"
    using Cons.prems(4) c(4) by (simp add: r each_once_def Let_def list_all_iff del: counted.simps set_map list.set_map) blast
  have ended: "all_reported (counted r b) \<longleftrightarrow> b_PendingJobs b - b_FailedJobs b = 1"
  proof -
    have d: "b_PendingJobs (counted r b) - b_FailedJobs (counted r b) = b_PendingJobs b - b_FailedJobs b - 1"
      using c(1,2) by (simp add: r del: counted.simps)
    have "in_int64 (b_PendingJobs b - b_FailedJobs b - 1)"
      using Cons.prems(1-3) by (simp add: in_int64_def)
    then show ?thesis by (simp add: all_reported_def d del: counted.simps)
  qed
  have moved: "b_PendingJobs (report_row r b) = b_PendingJobs b - (if ok then 1 else 0)"
    "b_FailedJobs (report_row r b) = b_FailedJobs b + (if ok then 0 else 1)"
    "b_FailedJobs (report_row r b) = int (length (b_FailedJobIDs (report_row r b)))"
    using c(1-3) by (simp_all add: r del: counted.simps)
  have rest: "count_list (run_moments rs (report_row r b)) Ended =
      (if 1 < b_PendingJobs b - b_FailedJobs b \<and> b_PendingJobs b - b_FailedJobs b \<le> int (length rs) + 1 then 1 else 0)"
    "count_list (run_moments rs (report_row r b)) Caught =
      (if b_FailedJobs b + (if ok then 0 else 1) = 0 \<and> 0 < failures rs then 1 else 0)"
    using Cons.IH [OF _ _ moved(3) once] Cons.prems(1,2) moved(1,2) by (cases ok; simp)+
  have "count_list (run_moments (r # rs) b) Ended =
      (if b_PendingJobs b - b_FailedJobs b = 1 then 1 else 0) + count_list (run_moments rs (report_row r b)) Ended"
    using ended by (simp add: r count_list_append count_moment del: counted.simps)
  moreover have "count_list (run_moments (r # rs) b) Caught =
      (if \<not> ok \<and> b_FailedJobs b = 0 then 1 else 0) + count_list (run_moments rs (report_row r b)) Caught"
    using c(2) by (simp add: r count_list_append count_moment del: counted.simps)
  moreover have "0 \<le> b_FailedJobs b" using Cons.prems(3) by simp
  moreover have "failures (r # rs) = (if ok then 0 else 1) + failures rs" by (simp add: r)
  ultimately show ?case
    using successes_bounds [of rs] unfolding rest by (cases ok) auto
qed simp

text \<open>The pushes of one callback among the pushes of a run, when its job has a name of its own.\<close>

lemma count_moment_calls:
  assumes "Step_declared (moment_step (b_Options b) m)"
    and "\<And>m'. m' \<noteq> m \<Longrightarrow> st_Name (moment_step (b_Options b) m') \<noteq> st_Name (moment_step (b_Options b) m)"
  shows "count_list (moment_calls g b ms) (callback_call g b (moment_step (b_Options b) m)) = count_list ms m"
proof (induction ms)
  case (Cons m' ms)
  have "callback_call g b (moment_step (b_Options b) m') = callback_call g b (moment_step (b_Options b) m)
      \<longleftrightarrow> m' = m"
    using assms(2) [of m'] by (auto simp: callback_call_def)
  then show ?case using Cons.IH assms(1) by auto
qed simp

section \<open>Properties of batches\<close>

text \<open>The batch the witnesses run: two jobs and three callbacks, over an empty repository and a queue
  that accepts every push.\<close>

definition sample_step :: "string \<Rightarrow> step" where
  "sample_step name = \<lparr>st_Queue = [], st_Name = name, st_Payload = []\<rparr>"

definition sample_grant :: grant where "sample_grant = SystemGrant ''import'' ''acme''"

definition sample_batch :: pending_batch where
  "sample_batch =
     \<lparr>pb_name = ''import'', pb_jobs = [sample_step ''row'', sample_step ''row''],
      pb_options = zero_options\<lparr>bo_Then := sample_step ''then'', bo_Catch := sample_step ''catch'',
                                bo_Finally := sample_step ''finally''\<rparr>,
      pb_events = None, pb_err = None\<rparr>"

definition sample_json :: "envelope \<Rightarrow> bytes option" where "sample_json e = Some (env_Job e)"

definition sample_queue :: bus_queue where "sample_queue cs c = None"

definition sample_world :: "memory bus_world" where
  "sample_world = \<lparr>w_repo = NewMemory, w_calls = [],
     w_rand = map (\<lambda>c. replicate 16 c) ''abcdef'', w_now = 1, w_held = []\<rparr>"

definition answered :: "'a bus \<times> 'w \<Rightarrow> bool" where
  "answered r = (case fst r of Inl _ \<Rightarrow> False | Inr _ \<Rightarrow> True)"

lemma answeredD: "answered r \<Longrightarrow> \<exists>a w. r = (Inr a, w)"
  by (cases r) (auto simp: answered_def split: sum.splits)

lemma sample_dispatch:
  "answered (PendingBatch_Dispatch sample_json sample_batch sample_grant (Some Memory_repository)
     (Some sample_queue) sample_world)"
proof -
  have "tenantOf sample_grant = Inr ''acme''" by code_simp
  then show ?thesis
    using memory.dispatch_accepted [of sample_grant "''acme''" sample_batch sample_queue sample_json sample_world]
    by (auto simp: answered_def sample_batch_def sample_world_def sample_queue_def sample_json_def accepts_def)
qed

lemmas sample_defs = sample_batch_def sample_step_def zero_options_def zero_step_def Step_declared_def

lemma Memory_Find_rows:
  "tenantOf g = Inr t \<Longrightarrow> Memory_Find g i m = Inr b \<longleftrightarrow> mem_rows m t i = Some b"
  using memory.find_row [of g t i m] by (auto simp: Memory_repository_def split: option.splits)

lemma Memory_Find_tenant: "Memory_Find g i m = Inr b \<Longrightarrow> \<exists>t. tenantOf g = Inr t"
  by (cases "tenantOf g") (simp_all add: Memory_Find_def)

lemma Memory_Find_other:
  assumes g: "tenantOf g = Inr t" and rs: "mem_rows m' = put_row t i b (mem_rows m)"
    and other: "Tenant g' \<noteq> Tenant g \<or> j \<noteq> i"
  shows "Memory_Find g' j m' = Memory_Find g' j m"
proof (cases "tenantOf g'")
  case (Inr t')
  have "mem_rows m' t' j = mem_rows m t' j"
    using g Inr other by (auto simp: rs put_row_def tenantOf_Inr)
  then show ?thesis
    using memory.find_row [OF Inr, of j m] memory.find_row [OF Inr, of j m']
    by (simp add: Memory_repository_def)
qed (simp add: Memory_Find_def)

lemma uuid_text_nonempty [simp]: "uuid_text raw \<noteq> []"
  by (simp add: uuid_text_def Let_def)

lemma new_row_fields [simp]:
  "b_ID (new_row now t i p) = i" "b_Options (new_row now t i p) = pb_options p"
  "b_PendingJobs (new_row now t i p) = int (length (pb_jobs p))" "b_FailedJobs (new_row now t i p) = 0"
  "b_FailedJobIDs (new_row now t i p) = []" "b_TotalJobs (new_row now t i p) = int (length (pb_jobs p))"
  "\<not> Batch_Finished (new_row now t i p)" "\<not> Batch_Cancelled (new_row now t i p)"
  by (simp_all add: new_row_def BatchFactory_Make_def Batch_Finished_def Batch_Cancelled_def)

lemma dispatched_run:
  assumes "PendingBatch_Dispatch marshal p g (Some Memory_repository) (Some q) w = (Inr b, w')"
  shows "\<exists>t raw. tenantOf g = Inr t \<and> b = new_row (w_now w) t (uuid_text raw) p \<and>
      mem_rows (w_repo w') t (b_ID b) = Some b \<and>
      drop (length (w_calls w')) (w_calls (run_reports marshal g Memory_repository q (b_ID b) rs w')) =
        moment_calls g b (run_moments rs b)"
  using memory.dispatch_known [OF assms] memory.run_reports_known [of g _ w' "b_ID b" b] by fastforce



text \<open>C30. After a batch of n jobs is dispatched, its Then job is pushed exactly once when n or more
  successes are reported and not at all before, whatever failures, repeated deliveries and retries
  come in between.\<close>

theorem then_pushed_exactly_once:
  assumes "PendingBatch_Dispatch marshal p g (Some Memory_repository) (Some q) w = (Inr b, w1)"
    and "Step_declared (bo_Then (pb_options p))"
    and "\<And>m. m \<noteq> Succeeded \<Longrightarrow> st_Name (moment_step (pb_options p) m) \<noteq> st_Name (bo_Then (pb_options p))"
    and "int (length (pb_jobs p)) \<le> MaxInt64" "int (length rs) \<le> MaxInt64"
    and "w2 = run_reports marshal g Memory_repository q (b_ID b) rs w1"
  shows "count_list (drop (length (w_calls w1)) (w_calls w2)) (callback_call g b (bo_Then (pb_options p))) =
           (if int (length (pb_jobs p)) \<le> successes rs then 1 else 0)"
proof -
  obtain t raw where b: "b = new_row (w_now w) t (uuid_text raw) p"
    and calls: "drop (length (w_calls w1)) (w_calls w2) = moment_calls g b (run_moments rs b)"
    using dispatched_run [OF assms(1), of rs] assms(6) by blast
  have "pb_jobs p \<noteq> []" using assms(1) by (cases rule: Dispatch_cases) simp
  then have "count_list (run_moments rs b) Succeeded = (if int (length (pb_jobs p)) \<le> successes rs then 1 else 0)"
    using run_succeeded [of rs b] assms(4,5) by (simp add: b)
  then show ?thesis
    using count_moment_calls [of b Succeeded g "run_moments rs b"] assms(2,3) by (simp add: calls b)
qed

theorem then_pushed_exactly_once_witness:
  "\<exists>b w1. PendingBatch_Dispatch sample_json sample_batch sample_grant (Some Memory_repository)
       (Some sample_queue) sample_world = (Inr b, w1) \<and>
     count_list (drop (length (w_calls w1)) (w_calls (run_reports sample_json sample_grant Memory_repository
       sample_queue (b_ID b) [(1, ''x'', True), (2, ''y'', False), (3, ''y'', True)] w1)))
       (callback_call sample_grant b (bo_Then (pb_options sample_batch))) = 1"
proof -
  obtain b w1 where d: "PendingBatch_Dispatch sample_json sample_batch sample_grant (Some Memory_repository)
      (Some sample_queue) sample_world = (Inr b, w1)"
    using answeredD [OF sample_dispatch] by blast
  have names: "st_Name (moment_step (pb_options sample_batch) m) \<noteq> st_Name (bo_Then (pb_options sample_batch))"
    if "m \<noteq> Succeeded" for m
    using that by (cases m) (simp_all add: sample_defs)
  show ?thesis
    using then_pushed_exactly_once [OF d _ names _ _ refl, of "[(1, ''x'', True), (2, ''y'', False), (3, ''y'', True)]"] d
    by (simp add: sample_defs)
qed

text \<open>C31. When every job of a dispatched batch reports once, in any order and with any outcomes,
  Finally is pushed exactly once, with the last of the n reports, and Catch is pushed exactly once
  when a job failed and not otherwise.\<close>

theorem finally_and_catch_pushed_once:
  assumes "PendingBatch_Dispatch marshal p g (Some Memory_repository) (Some q) w = (Inr b, w1)"
    and "Step_declared (bo_Finally (pb_options p))" "Step_declared (bo_Catch (pb_options p))"
    and "\<And>m m'. m \<in> {Ended, Caught} \<Longrightarrow> m' \<noteq> m \<Longrightarrow>
           st_Name (moment_step (pb_options p) m') \<noteq> st_Name (moment_step (pb_options p) m)"
    and "int (length (pb_jobs p)) \<le> MaxInt64" "int (length rs) \<le> MaxInt64"
    and "each_once rs b"
    and "w2 = run_reports marshal g Memory_repository q (b_ID b) rs w1"
  shows "count_list (drop (length (w_calls w1)) (w_calls w2)) (callback_call g b (bo_Finally (pb_options p))) =
           (if length (pb_jobs p) \<le> length rs then 1 else 0) \<and>
         count_list (drop (length (w_calls w1)) (w_calls w2)) (callback_call g b (bo_Catch (pb_options p))) =
           (if 0 < failures rs then 1 else 0)"
proof -
  obtain t raw where b: "b = new_row (w_now w) t (uuid_text raw) p"
    and calls: "drop (length (w_calls w1)) (w_calls w2) = moment_calls g b (run_moments rs b)"
    using dispatched_run [OF assms(1), of rs] assms(8) by blast
  have "pb_jobs p \<noteq> []" using assms(1) by (cases rule: Dispatch_cases) simp
  then have "count_list (run_moments rs b) Ended = (if length (pb_jobs p) \<le> length rs then 1 else 0)"
    "count_list (run_moments rs b) Caught = (if 0 < failures rs then 1 else 0)"
    using run_ended [of rs b] assms(5-7) by (simp_all add: b)
  moreover have "count_list (moment_calls g b ms) (callback_call g b (bo_Finally (pb_options p))) = count_list ms Ended"
    "count_list (moment_calls g b ms) (callback_call g b (bo_Catch (pb_options p))) = count_list ms Caught" for ms
    using count_moment_calls [of b Ended g ms] count_moment_calls [of b Caught g ms] assms(2,3)
      assms(4) [of Ended] assms(4) [of Caught] by (simp_all add: b)
  ultimately show ?thesis by (simp only: calls)
qed

theorem finally_and_catch_pushed_once_witness:
  "\<exists>b w1. PendingBatch_Dispatch sample_json sample_batch sample_grant (Some Memory_repository)
       (Some sample_queue) sample_world = (Inr b, w1) \<and>
     count_list (drop (length (w_calls w1)) (w_calls (run_reports sample_json sample_grant Memory_repository
       sample_queue (b_ID b) [(1, ''y'', False), (2, ''x'', True)] w1)))
       (callback_call sample_grant b (bo_Finally (pb_options sample_batch))) = 1"
proof -
  obtain b w1 where d: "PendingBatch_Dispatch sample_json sample_batch sample_grant (Some Memory_repository)
      (Some sample_queue) sample_world = (Inr b, w1)"
    using answeredD [OF sample_dispatch] by blast
  have names: "st_Name (moment_step (pb_options sample_batch) m') \<noteq> st_Name (moment_step (pb_options sample_batch) m)"
    if "m \<in> {Ended, Caught}" "m' \<noteq> m" for m m'
    using that by (cases m'; auto simp: sample_defs)
  have once: "each_once [(1, ''y'', False), (2, ''x'', True)] b"
    using memory.dispatch_known [OF d] by (auto simp: each_once_def)
  show ?thesis
    using finally_and_catch_pushed_once [OF d _ _ names _ _ once refl] d
    by (simp add: sample_defs del: run_reports.simps)
qed

subsection \<open>A batch dispatched after the response\<close>

lemma final_row_unfinished:
  assumes "list_all (\<lambda>(now, job, ok). ok) rs" "successes rs < b_PendingJobs b" "b_PendingJobs b \<le> MaxInt64"
    and "\<not> Batch_Finished b"
  shows "\<not> Batch_Finished (final_row rs b)"
  using assms
proof (induction rs arbitrary: b)
  case (Cons r rs)
  obtain now job where r: "r = (now, job, True)" using Cons.prems(1) by (cases r) auto
  have p: "b_PendingJobs (counted r b) = b_PendingJobs b - 1"
    using Cons.prems(2,3) successes_bounds(1) [of rs]
    by (simp add: r counted_pending in_int64_def del: counted.simps)
  have "b_PendingJobs b - 1 \<noteq> 0" using Cons.prems(2) successes_bounds(1) [of rs] by (simp add: r)
  then have "report_row r b = counted r b"
    using p by (simp add: r report_row.simps Let_def del: counted.simps)
  moreover have "\<not> Batch_Finished (counted r b)"
    using Cons.prems(4) by (simp add: r count_success_def Batch_Finished_def Let_def)
  ultimately show ?case
    using Cons.IH [of "report_row r b"] Cons.prems p by (simp add: r del: counted.simps)
qed simp

lemma successes_all: "list_all (\<lambda>(now, job, ok). ok) rs \<Longrightarrow> successes rs = int (length rs)"
  by (induction rs) auto

context repository_contract
begin

lemma add_known:
  assumes g: "tenantOf g = Inr t" and row: "rows (w_repo w) t (b_ID b) = Some r" and "jobs \<noteq> []"
    and run: "Batch_Add marshal b g (Some repo) (Some q) jobs w = (Inr b', w')"
  shows "rows (w_repo w') = put_row t (b_ID b) (raise_row (int (length jobs)) r) (rows (w_repo w))"
proof -
  obtain e s where inc: "repo_IncrementTotalJobs repo g (b_ID b) (int (length jobs)) (w_repo w) = (e, s)"
    by fastforce
  have s: "e = None" "rows s = put_row t (b_ID b) (raise_row (int (length jobs)) r) (rows (w_repo w))"
    using raise_known [OF g row _ inc] assms(3) by simp_all
  obtain e2 w2 where jobs: "push_jobs marshal b g q jobs (w\<lparr>w_repo := s\<rparr>) = (e2, w2)" by fastforce
  have "w' = w2"
    using run assms(3) jobs inc s(1) by (auto simp: Batch_Add_def on_repo_def split: if_splits option.splits)
  then show ?thesis using push_jobs_keeps [OF jobs] s(2) by simp
qed

end

lemma Batch_Delete_gone:
  assumes "Batch_Delete b g (Some Memory_repository) w = (e, w')"
  shows "Memory_Find g (b_ID b) (w_repo w') \<noteq> Inr b'"
  using assms
  by (auto simp: Batch_Delete_def on_repo_def Memory_repository_def Memory_Delete_def Memory_Find_def
      delete_conv' split: sum.splits)

lemma after_response_row:
  assumes d: "d_repository d = Some Memory_repository" "d_queue d = Some q" and "w_held w = []"
    and disp: "PendingBatch_DispatchAfterResponse p g (Some d) w = (Inr b, w1)"
    and fin: "Terminating marshal d w1 = (e, w2)" and found: "Memory_Find g (b_ID b) (w_repo w2) = Inr b2"
  shows "\<exists>t raw. tenantOf g = Inr t \<and> b = new_row (w_now w) t (uuid_text raw) p \<and> pb_jobs p \<noteq> [] \<and>
           b2 = raise_row (int (length (pb_jobs p))) b"
proof -
  obtain t w0 where g: "tenantOf g = Inr t" and jobs: "pb_jobs p \<noteq> []"
    and st: "on_repo_rand (repo_Store Memory_repository (w_now w) g p) w = (Inr b, w0)"
    and w1: "w1 = w0\<lparr>w_held := w_held w0 @ [HeldBatch g b (pb_jobs p)]\<rparr>"
    using disp d unfolding PendingBatch_DispatchAfterResponse_def afterResponse_def
    by (auto split: option.splits sum.splits if_splits prod.splits)
  obtain raw rand where rand: "w_rand w = raw # rand"
    using st memory.store_starved [OF g] by (cases "w_rand w") (simp_all add: on_repo_rand_def)
  obtain rand' s where rs: "repo_Store Memory_repository (w_now w) g p (raw # rand) (w_repo w) = (Inr b, rand', s)"
    and w0: "w0 = w\<lparr>w_rand := rand', w_repo := s\<rparr>"
    using st by (auto simp: on_repo_rand_def rand split: prod.splits)
  note stored = memory.store_row [OF g rs]
  have b: "b = new_row (w_now w) t (uuid_text raw) p" using stored by simp
  have row: "mem_rows (w_repo (w1\<lparr>w_held := []\<rparr>)) t (b_ID b) = Some b" using stored by (simp add: w1 w0 b)
  obtain res w3 where add: "Batch_Add marshal b g (Some Memory_repository) (Some q) (pb_jobs p) (w1\<lparr>w_held := []\<rparr>) = (res, w3)"
    by fastforce
  have held: "w_held w1 = [HeldBatch g b (pb_jobs p)]" using assms(3) by (simp add: w1 w0)
  show ?thesis
  proof (cases res)
    case (Inl e')
    then show ?thesis
      using fin found add d held Batch_Delete_gone [of b g w3]
      by (auto simp: Terminating_def Let_def split: prod.splits)
  next
    case (Inr b')
    then have "w2 = w3" using fin add d held by (auto simp: Terminating_def)
    then show ?thesis
      using memory.add_known [OF g row jobs add [unfolded Inr]] found Memory_Find_rows [OF g] g b jobs by auto
  qed
qed

text \<open>C32. A batch dispatched after the response is stored with its n jobs counted, and
  \<^verbatim>\<open>Terminating\<close> counts them a second time when it pushes them: once all n jobs have succeeded the
  counter still stands at n, the batch is not finished and its Then job has not been pushed.\<close>

theorem after_response_counts_twice:
  assumes d: "d_repository d = Some Memory_repository" "d_queue d = Some q" and "w_held w = []"
    and disp: "PendingBatch_DispatchAfterResponse p g (Some d) w = (Inr b, w1)"
    and fin: "Terminating marshal d w1 = (e, w2)" and found: "Memory_Find g (b_ID b) (w_repo w2) = Inr b2"
    and n: "n = int (length (pb_jobs p))" "2 * n \<le> MaxInt64"
    and names: "Step_declared (bo_Then (pb_options p))"
      "\<And>m. m \<noteq> Succeeded \<Longrightarrow> st_Name (moment_step (pb_options p) m) \<noteq> st_Name (bo_Then (pb_options p))"
    and rs: "list_all (\<lambda>(now, job, ok). ok) rs" "length rs = length (pb_jobs p)"
    and w3: "w3 = run_reports marshal g Memory_repository q (b_ID b) rs w2"
  shows "b_TotalJobs b2 = 2 * n \<and>
    (\<exists>b3. Memory_Find g (b_ID b) (w_repo w3) = Inr b3 \<and> b_PendingJobs b3 = n \<and> \<not> Batch_Finished b3) \<and>
    count_list (drop (length (w_calls w2)) (w_calls w3)) (callback_call g b (bo_Then (pb_options p))) = 0"
proof -
  obtain t raw where g: "tenantOf g = Inr t" and b: "b = new_row (w_now w) t (uuid_text raw) p"
    and jobs: "pb_jobs p \<noteq> []" and b2: "b2 = raise_row n b"
    using after_response_row [OF d assms(3) disp fin found] n(1) by blast
  have pos: "0 < n" using jobs n(1) by simp
  have counts: "b_PendingJobs b2 = 2 * n" "b_TotalJobs b2 = 2 * n" "\<not> Batch_Finished b2" "b_ID b2 = b_ID b"
    "b_Options b2 = pb_options p"
    using n pos by (simp_all add: b2 raise_row_def b Batch_Finished_def in_int64_def)
  have row: "mem_rows (w_repo w2) t (b_ID b) = Some b2" using found Memory_Find_rows [OF g] by simp
  have "b_ID b \<noteq> []" by (simp add: b)
  note run = memory.run_reports_known [OF g row counts(4) this, of marshal q rs, folded w3]
  have some: "successes rs = n" using successes_all [OF rs(1)] rs(2) n(1) by simp
  have fin': "count_list (run_moments rs b2) Succeeded = 0" "b_PendingJobs (final_row rs b2) = n"
    "\<not> Batch_Finished (final_row rs b2)"
    using run_succeeded [of rs b2] final_row_unfinished [OF rs(1), of b2] counts some n rs(2) pos by simp_all
  have "callback_call g b (bo_Then (pb_options p)) = callback_call g b2 (bo_Then (pb_options p))"
    by (rule callback_call_cong) (simp add: counts(5) b)
  then have "count_list (drop (length (w_calls w2)) (w_calls w3)) (callback_call g b (bo_Then (pb_options p))) = 0"
    using run count_moment_calls [of b2 Succeeded g "run_moments rs b2"] names fin'(1) by (simp add: counts(5))
  then show ?thesis using run Memory_Find_rows [OF g] fin' counts by simp
qed

theorem after_response_counts_twice_witness:
  "\<exists>b w1 e w2 b2 b3. PendingBatch_DispatchAfterResponse sample_batch sample_grant
        (Some (NewDispatcher (Some sample_queue) (Some Memory_repository))) sample_world = (Inr b, w1) \<and>
     Terminating sample_json (NewDispatcher (Some sample_queue) (Some Memory_repository)) w1 = (e, w2) \<and>
     Memory_Find sample_grant (b_ID b) (w_repo w2) = Inr b2 \<and> b_TotalJobs b2 = 4 \<and>
     Memory_Find sample_grant (b_ID b) (w_repo (run_reports sample_json sample_grant Memory_repository
       sample_queue (b_ID b) [(2, ''x'', True), (3, ''y'', True)] w2)) = Inr b3 \<and>
     b_PendingJobs b3 = 2 \<and> \<not> Batch_Finished b3"
proof -
  let ?d = "NewDispatcher (Some sample_queue) (Some Memory_repository)"
  let ?r = "PendingBatch_DispatchAfterResponse sample_batch sample_grant (Some ?d) sample_world"
  have "answered ?r" by code_simp
  then obtain b w1 where r: "?r = (Inr b, w1)" using answeredD by blast
  obtain e w2 where t: "Terminating sample_json ?d w1 = (e, w2)" by fastforce
  have "answered (case ?r of (Inr b, w1) \<Rightarrow>
      (Memory_Find sample_grant (b_ID b) (w_repo (snd (Terminating sample_json ?d w1))), ()))"
    by code_simp
  then obtain b2 where b2: "Memory_Find sample_grant (b_ID b) (w_repo w2) = Inr b2"
    using r t answeredD by fastforce
  have names: "st_Name (moment_step (pb_options sample_batch) m) \<noteq> st_Name (bo_Then (pb_options sample_batch))"
    if "m \<noteq> Succeeded" for m
    using that by (cases m) (simp_all add: sample_defs)
  show ?thesis
    using after_response_counts_twice [of ?d sample_queue, OF _ _ _ r t b2 refl _ _ names _ _ refl,
        of "[(2, ''x'', True), (3, ''y'', True)]"] r t b2
    by (auto simp: sample_defs sample_world_def NewDispatcher_def simp del: run_reports.simps)
qed

subsection \<open>Listing the batches of a tenant\<close>

definition newer_eq :: "batch \<Rightarrow> batch \<Rightarrow> bool" where
  "newer_eq a b \<longleftrightarrow> \<not> newer b a"

lemma newer_asym: "newer a b \<Longrightarrow> \<not> newer b a"
  by (auto simp: newer_def split: if_splits)

lemma newer_eq_trans: "newer_eq b a \<Longrightarrow> newer_eq c b \<Longrightarrow> newer_eq c a"
  by (auto simp: newer_eq_def newer_def split: if_splits)

lemma set_insert_batch [simp]: "set (insert_batch a bs) = insert a (set bs)"
  by (induction bs) auto

lemma set_sort_batches [simp]: "set (sort_batches bs) = set bs"
  by (induction bs) (auto simp: sort_batches_def)

lemma sorted_insert_batch:
  "sorted_wrt (\<lambda>x y. newer_eq y x) bs \<Longrightarrow> sorted_wrt (\<lambda>x y. newer_eq y x) (insert_batch a bs)"
proof (induction bs)
  case (Cons b bs)
  show ?case
  proof (cases "newer a b")
    case True
    then have "newer_eq a b" using newer_asym by (simp add: newer_eq_def)
    then show ?thesis using Cons True by auto
  next
    case False
    then have "newer_eq b a" by (simp add: newer_eq_def)
    then show ?thesis using Cons.prems False newer_eq_trans by auto
  qed
qed simp

lemma sorted_sort_batches: "sorted_wrt (\<lambda>x y. newer_eq y x) (sort_batches bs)"
  by (induction bs) (simp_all add: sort_batches_def sorted_insert_batch)



section \<open>Properties of chains\<close>

text \<open>A worker that runs what was pushed last: it reads the envelope back, runs the job and reports
  its outcome. Outcomes are given in the order of the runs.\<close>

fun work ::
    "(envelope \<Rightarrow> bytes option) \<Rightarrow> (bytes \<Rightarrow> envelope option) \<Rightarrow> grant \<Rightarrow> bus_queue \<Rightarrow> bool list \<Rightarrow>
     'r bus_world \<Rightarrow> 'r bus_world" where
  "work marshal unmarshal g q [] w = w"
| "work marshal unmarshal g q (ok # oks) w =
     (let m = fst (Batched unmarshal (None :: (bytes \<Rightarrow> unit option) option) (pc_payload (last (w_calls w))))
      in work marshal unmarshal g q oks (snd (Handled marshal g None (Some q) m ok w)))"

definition links_of :: "chain \<Rightarrow> step list" where
  "links_of c = map (Chain_queueFor c) (ch_jobs c)"

text \<open>The envelope of the link at an index: the links after it travel in it.\<close>

definition link_at :: "chain \<Rightarrow> nat \<Rightarrow> envelope" where
  "link_at c i = link_envelope (drop (Suc i) (links_of c)) (Chain_queueFor c (ch_catch c)) (st_Payload (links_of c ! i))"

definition link_call :: "(envelope \<Rightarrow> bytes option) \<Rightarrow> grant \<Rightarrow> chain \<Rightarrow> nat \<Rightarrow> push_call" where
  "link_call marshal g c i =
     PushCall g (st_Queue (links_of c ! i)) (st_Name (links_of c ! i)) (the (marshal (link_at c i)))"

text \<open>The JSON codec reads back the envelopes of the chain.\<close>

definition codec_reads :: "(envelope \<Rightarrow> bytes option) \<Rightarrow> (bytes \<Rightarrow> envelope option) \<Rightarrow> chain \<Rightarrow> bool" where
  "codec_reads marshal unmarshal c \<longleftrightarrow>
     (\<forall>i < length (ch_jobs c). \<exists>raw. marshal (link_at c i) = Some raw \<and> unmarshal raw = Some (link_at c i))"

definition chain_member :: "chain \<Rightarrow> nat \<Rightarrow> batchable" where
  "chain_member c i = zero_batchable\<lparr>qu_Chained := drop (Suc i) (links_of c),
                                     qu_ChainCatch := Chain_queueFor c (ch_catch c)\<rparr>"

lemma Batched_link:
  assumes "codec_reads marshal unmarshal c" "i < length (ch_jobs c)"
  shows "fst (Batched unmarshal dest (pc_payload (link_call marshal g c i))) = chain_member c i"
proof -
  obtain raw where "marshal (link_at c i) = Some raw" "unmarshal raw = Some (link_at c i)"
    using assms by (auto simp: codec_reads_def)
  then show ?thesis
    by (simp add: Batched_def link_call_def link_at_def link_envelope_def formatVersion_def
        chain_member_def zero_batchable_def zero_queueable_def queueable.defs batchable.defs)
qed

lemma chain_member_fields [simp]:
  "ba_BatchID (chain_member c i) = []" "qu_Chained (chain_member c i) = drop (Suc i) (links_of c)"
  "qu_ChainCatch (chain_member c i) = Chain_queueFor c (ch_catch c)" "qu_ChainQueue (chain_member c i) = []"
  by (simp_all add: chain_member_def zero_batchable_def zero_queueable_def queueable.defs)

lemma length_links_of [simp]: "length (links_of c) = length (ch_jobs c)"
  by (simp add: links_of_def)

lemma next_link:
  assumes "codec_reads marshal unmarshal c" "Suc i < length (ch_jobs c)"
    and "snd (Handled marshal g None (Some q) (chain_member c i) True w) = w'"
  shows "w_calls w' = w_calls w @ [link_call marshal g c (Suc i)]"
proof -
  have drop: "drop (Suc i) (links_of c) = (links_of c ! Suc i) # drop (Suc (Suc i)) (links_of c)"
    using assms(2) Cons_nth_drop_Suc [of "Suc i" "links_of c"] by simp
  obtain raw where raw: "marshal (link_at c (Suc i)) = Some raw"
    using assms by (auto simp: codec_reads_def)
  show ?thesis
    using assms(3) raw
    by (auto simp: Handled_def drop DispatchNextJobInChain_def wrap_envelope_def link_at_def queueForChain_def
        queue_Push_def link_call_def Let_def split: option.splits)
qed

lemma last_link:
  "Suc i = length (ch_jobs c) \<Longrightarrow> snd (Handled marshal g None (Some q) (chain_member c i) True w) = w"
  by (simp add: Handled_def DispatchNextJobInChain_def)

lemma failed_link:
  "w_calls (snd (Handled marshal g None (Some q) (chain_member c i) False w)) =
   w_calls w @ (if Step_declared (ch_catch c)
                then [PushCall g (st_Queue (Chain_queueFor c (ch_catch c))) (st_Name (ch_catch c)) (st_Payload (ch_catch c))]
                else [])"
  by (simp add: Handled_def InvokeChainCatchCallbacks_def queueForChain_def queue_Push_def
      Chain_queueFor_def Step_declared_def Let_def)

lemma work_append: "work marshal unmarshal g q (as @ bs) w = work marshal unmarshal g q bs (work marshal unmarshal g q as w)"
  by (induction as arbitrary: w) (simp_all add: Let_def)

lemma Chain_Dispatch_call:
  assumes "Chain_Dispatch marshal c g (Some q) w = (None, w')"
  shows "w_calls w' = w_calls w @ [link_call marshal g c 0] \<and> ch_jobs c \<noteq> []"
  using assms
  by (auto simp: Chain_Dispatch_def wrap_envelope_def queue_Push_def link_call_def link_at_def links_of_def Let_def
      split: option.splits list.splits sum.splits)

lemma work_successes:
  assumes "codec_reads marshal unmarshal c" "k < length (ch_jobs c)"
    and "w_calls w = cs @ [link_call marshal g c 0]"
  shows "w_calls (work marshal unmarshal g q (replicate k True) w) = cs @ map (link_call marshal g c) [0..<Suc k]"
  using assms(2)
proof (induction k)
  case (Suc k)
  let ?w = "work marshal unmarshal g q (replicate k True) w"
  have calls: "w_calls ?w = (cs @ map (link_call marshal g c) [0..<k]) @ [link_call marshal g c k]"
    using Suc by simp
  have "w_calls (snd (Handled marshal g None (Some q) (chain_member c k) True ?w)) =
      w_calls ?w @ [link_call marshal g c (Suc k)]"
    using next_link [OF assms(1) Suc.prems] by blast
  moreover have rep: "replicate (Suc k) True = replicate k True @ [True]"
    by (simp add: replicate_append_same)
  ultimately show ?case
    using Suc.prems unfolding rep work_append
    by (simp add: calls Let_def Batched_link [OF assms(1)])
qed (use assms(3) in simp)

text \<open>C34. The links of a chain are pushed one at a time and in order: after k links have succeeded
  exactly the first k + 1 have been pushed, each with the links after it in its envelope; when the
  next one fails nothing follows but the chain's Catch, and when the last one succeeds nothing
  follows at all.\<close>

theorem chain_runs_in_order:
  assumes "Chain_Dispatch marshal c g (Some q) w = (None, w1)"
    and "codec_reads marshal unmarshal c" "k < length (ch_jobs c)"
  shows "w_calls (work marshal unmarshal g q (replicate k True) w1) =
      w_calls w @ map (link_call marshal g c) [0..<Suc k] \<and>
    w_calls (work marshal unmarshal g q (replicate k True @ [False]) w1) =
      w_calls w @ map (link_call marshal g c) [0..<Suc k] @
      (if Step_declared (ch_catch c)
       then [PushCall g (st_Queue (Chain_queueFor c (ch_catch c))) (st_Name (ch_catch c)) (st_Payload (ch_catch c))]
       else []) \<and>
    (Suc k = length (ch_jobs c) \<longrightarrow>
      w_calls (work marshal unmarshal g q (replicate k True @ [True]) w1) =
        w_calls w @ map (link_call marshal g c) [0..<Suc k])"
proof -
  have start: "w_calls w1 = w_calls w @ [link_call marshal g c 0]" using Chain_Dispatch_call [OF assms(1)] by simp
  note run = work_successes [OF assms(2,3) start, of q]
  have step: "work marshal unmarshal g q (replicate k True @ [ok]) w1 =
      snd (Handled marshal g None (Some q) (chain_member c k) ok (work marshal unmarshal g q (replicate k True) w1))" for ok
    by (simp add: work_append run Let_def Batched_link [OF assms(2,3)])
  show ?thesis
    unfolding step failed_link run using run by (auto simp: last_link simp del: upt_Suc)
qed

definition sample_chain :: chain where
  "sample_chain = \<lparr>ch_queue = ''slow'', ch_jobs = [sample_step ''export'', sample_step ''mail''],
                   ch_catch = sample_step ''report'', ch_err = None\<rparr>"

definition chain_json :: "envelope \<Rightarrow> bytes option" where
  "chain_json e = Some (map (\<lambda>s. CHR ''.'') (env_Chain e))"

definition chain_parse :: "bytes \<Rightarrow> envelope option" where
  "chain_parse raw = Some (link_at sample_chain (1 - length raw))"

theorem chain_runs_in_order_witness:
  "map pc_name (w_calls (work chain_json chain_parse sample_grant sample_queue [True, False]
     (snd (Chain_Dispatch chain_json sample_chain sample_grant (Some sample_queue) sample_world)))) =
   [''export'', ''mail'', ''report'']"
proof -
  let ?r = "Chain_Dispatch chain_json sample_chain sample_grant (Some sample_queue) sample_world"
  have "fst ?r = None" by code_simp
  then have r: "?r = (None, snd ?r)" by (cases ?r) simp
  have codec: "codec_reads chain_json chain_parse sample_chain"
    by (auto simp: codec_reads_def chain_json_def chain_parse_def less_Suc_eq sample_chain_def link_at_def
        link_envelope_def links_of_def)
  have runs: "replicate 1 True @ [False] = [True, False]" "[0..<Suc 1] = [0, 1]" by simp_all
  have "1 < length (ch_jobs sample_chain)" by (simp add: sample_chain_def)
  note calls = chain_runs_in_order [OF r codec this, unfolded runs, THEN conjunct2, THEN conjunct1]
  show ?thesis
    unfolding calls
    by (simp add: link_call_def links_of_def sample_chain_def sample_step_def Chain_queueFor_def
        sample_world_def Step_declared_def)
qed

subsection \<open>A batch as a link\<close>

lemma AddStep_jobs:
  "pb_err (PendingBatch_AddStep jobs p) = None \<Longrightarrow> pb_jobs (PendingBatch_AddStep jobs p) = pb_jobs p @ jobs"
  by (induction jobs p rule: PendingBatch_AddStep.induct)
     (auto simp: PendingBatch_fail_def split: if_splits)

lemma ToPendingBatch_jobs:
  "pb_err (ToPendingBatch c) = None \<Longrightarrow> pb_jobs (ToPendingBatch c) = cb_Jobs c"
  by (auto simp: ToPendingBatch_def Let_def PendingBatch_OnQueue_def PendingBatch_OnConnection_def
      AddStep_jobs split: if_splits)

lemma ended_call:
  assumes "Ended \<in> set ms" "Step_declared (bo_Finally (b_Options b))"
  shows "callback_call g b (bo_Finally (b_Options b)) \<in> set (moment_calls g b ms)"
  using assms by (force simp: moment_calls_def)

lemma count_list_pos: "count_list xs x = Suc n \<Longrightarrow> x \<in> set xs"
  by (metis count_list_0_iff nat.distinct(1))

text \<open>C35. A batch that is a link of a chain starts the link after it even when every one of its jobs
  failed: the next link is its Finally job, and the reports of the failures push it.\<close>

theorem failed_batch_starts_next_link:
  assumes "ChainedBatch_Handle marshal c g (Some Memory_repository) (Some q) w = (Inr b, w1)"
    and chained: "qu_Chained c = next # rest" "Step_declared next"
    and raw: "marshal (link_envelope rest (qu_ChainCatch c) (st_Payload next)) = Some raw"
    and rs: "list_all (\<lambda>(now, job, ok). \<not> ok) rs" "length rs = length (cb_Jobs c)" "each_once rs b"
    and n: "int (length (cb_Jobs c)) \<le> MaxInt64"
    and "w2 = run_reports marshal g Memory_repository q (b_ID b) rs w1"
  shows "callback_call g b \<lparr>st_Queue = queueForChain c next, st_Name = st_Name next, st_Payload = raw\<rparr>
           \<in> set (drop (length (w_calls w1)) (w_calls w2))"
proof -
  let ?f = "\<lparr>st_Queue = queueForChain c next, st_Name = st_Name next, st_Payload = raw\<rparr>"
  let ?p = "(ToPendingBatch c)\<lparr>pb_options := (pb_options (ToPendingBatch c))\<lparr>bo_Finally := ?f\<rparr>\<rparr>"
  have disp: "PendingBatch_Dispatch marshal ?p g (Some Memory_repository) (Some q) w = (Inr b, w1)"
    using assms(1) chained(1) raw
    by (simp add: ChainedBatch_Handle_def attachRemainderOfChainToEndOfBatch_def wrap_envelope_def)
  have "pb_err ?p = None" "pb_jobs ?p \<noteq> []" using disp by (cases rule: Dispatch_cases; simp)+
  then have jobs: "pb_jobs (ToPendingBatch c) = cb_Jobs c" "cb_Jobs c \<noteq> []"
    using ToPendingBatch_jobs [of c] by simp_all
  obtain t r where b: "b = new_row (w_now w) t (uuid_text r) ?p"
    and calls: "drop (length (w_calls w1)) (w_calls w2) = moment_calls g b (run_moments rs b)"
    using dispatched_run [OF disp, of rs] assms(9) by blast
  have "count_list (run_moments rs b) Ended = Suc 0"
    using run_ended [of rs b] rs n jobs by (simp add: b)
  then have "Ended \<in> set (run_moments rs b)" by (rule count_list_pos)
  moreover have fin: "bo_Finally (b_Options b) = ?f" by (simp add: b)
  ultimately show ?thesis
    using ended_call [of "run_moments rs b" b g, unfolded fin] chained(2) by (simp add: calls Step_declared_def)
qed

theorem failed_batch_starts_next_link_witness:
  "\<exists>b w1. ChainedBatch_Handle sample_json ((NewChainedBatch sample_batch)\<lparr>qu_Chained := [sample_step ''mail'']\<rparr>)
        sample_grant (Some Memory_repository) (Some sample_queue) sample_world = (Inr b, w1) \<and>
     ''mail'' \<in> set (map pc_name (w_calls (run_reports sample_json sample_grant Memory_repository sample_queue
       (b_ID b) [(2, ''x'', False), (3, ''y'', False)] w1)))"
proof -
  let ?c = "(NewChainedBatch sample_batch)\<lparr>qu_Chained := [sample_step ''mail'']\<rparr>"
  let ?r = "ChainedBatch_Handle sample_json ?c sample_grant (Some Memory_repository) (Some sample_queue) sample_world"
  let ?p = "(ToPendingBatch ?c)\<lparr>pb_options := (pb_options (ToPendingBatch ?c))\<lparr>bo_Finally := sample_step ''mail''\<rparr>\<rparr>"
  have d: "?r = PendingBatch_Dispatch sample_json ?p sample_grant (Some Memory_repository) (Some sample_queue) sample_world"
    by (simp add: ChainedBatch_Handle_def attachRemainderOfChainToEndOfBatch_def NewChainedBatch_def
        queueable.defs zero_queueable_def queueForChain_def wrap_envelope_def sample_json_def
        link_envelope_def sample_step_def)
  have "tenantOf sample_grant = Inr ''acme''" "pb_err ?p = None" "pb_jobs ?p = pb_jobs sample_batch" by code_simp+
  then obtain b w1 where r: "?r = (Inr b, w1)"
    using memory.dispatch_accepted [of sample_grant "''acme''" ?p sample_queue sample_json sample_world] d
    by (auto simp: sample_batch_def sample_world_def sample_queue_def sample_json_def accepts_def)
  have once: "each_once [(2, ''x'', False), (3, ''y'', False)] b"
    using memory.dispatch_known [OF r [unfolded d]] by (auto simp: each_once_def)
  have chained: "qu_Chained ?c = sample_step ''mail'' # []" "cb_Jobs ?c = pb_jobs sample_batch"
    by (simp_all add: NewChainedBatch_def queueable.defs)
  have "\<exists>call \<in> set (drop (length (w_calls w1)) (w_calls (run_reports sample_json sample_grant Memory_repository
      sample_queue (b_ID b) [(2, ''x'', False), (3, ''y'', False)] w1))). pc_name call = ''mail''"
    by (rule bexI [OF _ failed_batch_starts_next_link [OF r chained(1) _ _ _ _ once _ refl]])
       (simp_all add: sample_defs sample_json_def NewChainedBatch_def queueable.defs callback_call_def)
  then show ?thesis using r by (force dest: in_set_dropD simp del: run_reports.simps)
qed

end
