(* ===== verification/Bus_Unique.thy ===== *)
theory Bus_Unique
  imports Bus_Batch Cache_Repository
begin

text \<open>
  Unique jobs, \<^verbatim>\<open>src/bus/unique.go\<close>: a claim in the cache taken before a job is pushed. The cache is
  the modelled repository of \<open>Cache_Repository\<close>, so the property composes the dispatch of a job
  with the store's atomic add.
\<close>

section \<open>The claim\<close>

record 'p unique_job =
  uj_Key :: string
  uj_TTL :: duration
  uj_Queue :: string
  uj_Name :: string
  uj_Payload :: "'p option"

datatype unique_error =
    ErrNoKey
  | UniqueNoName
  | UniqueNoTTL string
  | UniqueNeeds string
  | FromBus bus_error
  | FromCache cache_error
  | UniquePushFailed string bus_error

text \<open>The cache's world and the pushes made so far.\<close>

record 's unique_world =
  uw_cache :: "('s, string) cworld"
  uw_calls :: "push_call list"

definition UniqueLock_GetKey :: "string \<Rightarrow> string" where
  "UniqueLock_GetKey k = ''bus:unique:'' @ k"

text \<open>An operation of the cache repository on the world.\<close>

definition on_cache ::
    "('s, string, 'a) op \<Rightarrow> 's unique_world \<Rightarrow> (unique_error + 'a) \<times> 's unique_world" where
  "on_cache f w =
     (case f (uw_cache w) of
        (Inl e, c) \<Rightarrow> (Inl (FromCache e), w\<lparr>uw_cache := c\<rparr>)
      | (Inr a, c) \<Rightarrow> (Inr a, w\<lparr>uw_cache := c\<rparr>))"

definition UniqueLock_Acquire ::
    "('s, string) cache_env \<Rightarrow> repository option \<Rightarrow> grant \<Rightarrow> 'p unique_job \<Rightarrow> 's unique_world \<Rightarrow>
     (unique_error + bool) \<times> 's unique_world" where
  "UniqueLock_Acquire E c g j w =
     (if uj_Key j = [] then (Inl ErrNoKey, w)
      else if uj_TTL j \<le> 0 then (Inl (UniqueNoTTL (uj_Key j)), w)
      else case c of
             None \<Rightarrow> (Inl (UniqueNeeds (uj_Key j)), w)
           | Some r \<Rightarrow> on_cache (Repository_Add E r g (UniqueLock_GetKey (uj_Key j)) (uj_Name j) (uj_TTL j)) w)"

definition UniqueLock_Release ::
    "('s, string) cache_env \<Rightarrow> repository option \<Rightarrow> grant \<Rightarrow> 'p unique_job \<Rightarrow> 's unique_world \<Rightarrow>
     (unique_error + unit) \<times> 's unique_world" where
  "UniqueLock_Release E c g j w =
     (if uj_Key j = [] then (Inl ErrNoKey, w)
      else case c of
             None \<Rightarrow> (Inl (UniqueNeeds []), w)
           | Some r \<Rightarrow> on_cache (Repository_Forget E r g (UniqueLock_GetKey (uj_Key j))) w)"

definition ReleaseUnique ::
    "('s, string) cache_env \<Rightarrow> repository option \<Rightarrow> grant \<Rightarrow> string \<Rightarrow> 's unique_world \<Rightarrow>
     (unique_error + unit) \<times> 's unique_world" where
  "ReleaseUnique E c g k w =
     (if k = [] then (Inl ErrNoKey, w)
      else case c of
             None \<Rightarrow> (Inl (UniqueNeeds []), w)
           | Some r \<Rightarrow> on_cache (Repository_Forget E r g (UniqueLock_GetKey k)) w)"

definition PushUnique ::
    "('p \<Rightarrow> bytes option) \<Rightarrow> ('s, string) cache_env \<Rightarrow> repository option \<Rightarrow> bus_queue option \<Rightarrow> grant \<Rightarrow>
     'p unique_job \<Rightarrow> 's unique_world \<Rightarrow> (unique_error + bool) \<times> 's unique_world" where
  "PushUnique marshal E c q g j w =
     (if uj_Key j = [] then (Inl ErrNoKey, w)
      else if uj_Name j = [] then (Inl UniqueNoName, w)
      else if uj_TTL j \<le> 0 then (Inl (UniqueNoTTL (uj_Key j)), w)
      else case (c, q) of
        (Some r, Some queue) \<Rightarrow>
          (case bus_encode marshal (uj_Name j) (uj_Payload j) of
             Inl e \<Rightarrow> (Inl (FromBus e), w)
           | Inr payload \<Rightarrow>
               (case on_cache (Repository_Add E r g (UniqueLock_GetKey (uj_Key j)) (uj_Name j) (uj_TTL j)) w of
                  (Inl e, w) \<Rightarrow> (Inl e, w)
                | (Inr False, w) \<Rightarrow> (Inr False, w)
                | (Inr True, w) \<Rightarrow>
                    let call = PushCall g (uj_Queue j) (uj_Name j) payload;
                        err = queue (uw_calls w) call;
                        w = w\<lparr>uw_calls := uw_calls w @ [call]\<rparr>
                    in case err of
                         Some e \<Rightarrow> (Inl (UniquePushFailed (uj_Name j) e), snd (ReleaseUnique E c g (uj_Key j) w))
                       | None \<Rightarrow> (Inr True, w)))
      | _ \<Rightarrow> (Inl (UniqueNeeds (uj_Key j)), w))"

section \<open>What a push does to the claims\<close>

text \<open>The cache over the array store, asked at an instant, and the claim of a key as it will stand at
  an instant.\<close>

definition asked_at :: "instant \<Rightarrow> (array_store, 'v) cache_env \<Rightarrow> (array_store, 'v) cache_env" where
  "asked_at now E = over_array (E\<lparr>ce_now := now\<rparr>)"

definition claim_at :: "instant \<Rightarrow> array_store unique_world \<Rightarrow> string \<Rightarrow> (bytes \<times> instant) option" where
  "claim_at t w = live_at t (array_snap (cw_store (uw_cache w)))"

lemma asked_at_simps [simp]:
  "ce_store (asked_at now E) = array_ops" "ce_now (asked_at now E) = now" "ce_marshal (asked_at now E) = ce_marshal E"
  by (simp_all add: asked_at_def)

lemma Add_untagged:
  assumes "r_tags r = None" "Repository_prefix r g = Inr p" "key \<noteq> []" "0 < ttl"
    and "Repository_Add E r g key v ttl w = (res, w')"
  shows "(Writable g = None \<and> (\<exists>raw. encode E v = Inr raw \<and>
            res = fst (Store_Add (ce_store E) (ce_now E) (p @ key) raw ttl (cw_store w)) \<and>
            w' = w\<lparr>cw_store := snd (Store_Add (ce_store E) (ce_now E) (p @ key) raw ttl (cw_store w))\<rparr>)) \<or>
         (\<exists>e. res = Inl e \<and> w' = w)"
  using assms
  by (auto simp: Repository_Add_def Repository_writeKey_def key_untagged and_then_def give_def on_store_def
      split: option.splits sum.splits prod.splits)


lemma prefix_untagged: "Repository_prefix r g = Inl e \<Longrightarrow> Repository_key E r g key w = (Inl e, w)"
  by (simp add: Repository_key_def and_then_def give_def)

lemma Add_claim:
  assumes "r_tags r = None" "key \<noteq> []" "0 < ttl" "now \<le> t"
    and "on_cache (Repository_Add (asked_at now E) r g key v ttl) w = (res, w')"
  shows "uw_calls w' = uw_calls w" and "res \<noteq> Inr True \<Longrightarrow> claim_at t w' = claim_at t w"
    and "res = Inr True \<Longrightarrow> Writable g = None \<and> ce_marshal E v \<noteq> None \<and> (\<exists>p raw. Repository_prefix r g = Inr p \<and>
      claim_at now w (p @ key) = None \<and> claim_at t w' =
        (claim_at t w)(p @ key := if t < now + ttl then Some (raw, now + ttl) else None))"
proof -
  obtain res1 c1 where add: "Repository_Add (asked_at now E) r g key v ttl (uw_cache w) = (res1, c1)" by fastforce
  have w': "w' = w\<lparr>uw_cache := c1\<rparr>" using assms(5) by (auto simp: on_cache_def add split: sum.splits)
  then show "uw_calls w' = uw_calls w" by simp
  have cases: "cw_store c1 = cw_store (uw_cache w) \<and> (\<exists>e. res1 = Inl e) \<or>
      (\<exists>p raw. Writable g = None \<and> Repository_prefix r g = Inr p \<and> ce_marshal E v \<noteq> None \<and>
        (res1, cw_store c1) = Store_Add array_ops now (p @ key) raw ttl (cw_store (uw_cache w)))"
  proof (cases "Repository_prefix r g")
    case (Inl e)
    then show ?thesis
      using add by (auto simp: Repository_Add_def Repository_writeKey_def prefix_untagged and_then_def give_def
          split: option.splits)
  next
    case (Inr p)
    then show ?thesis
      using Add_untagged [OF assms(1) Inr assms(2,3) add] by (auto simp: encode_def split: option.splits)
  qed
  have ok: "res = Inr True \<longleftrightarrow> res1 = Inr True"
    using assms(5) by (auto simp: on_cache_def add split: sum.splits)
  have added: "res1 = Inr (live_at now (array_snap s) k = None)"
    "live_at t (array_snap s') = (if live_at now (array_snap s) k = None
       then (live_at t (array_snap s))(k := if t < now + ttl then Some (raw, now + ttl) else None)
       else live_at t (array_snap s))"
    if "(res1, s') = Store_Add array_ops now k raw ttl s" for s s' k raw
    using that array.add_result [of ttl now k raw s] array.add_snap [of ttl now t k raw s] assms(3,4)
    by (metis TrueI fst_conv, metis TrueI live_at_upd snd_conv)
  have both: "(res1 \<noteq> Inr True \<longrightarrow> claim_at t w' = claim_at t w) \<and>
      (res1 = Inr True \<longrightarrow> Writable g = None \<and> ce_marshal E v \<noteq> None \<and> (\<exists>p raw. Repository_prefix r g = Inr p \<and>
        claim_at now w (p @ key) = None \<and> claim_at t w' =
          (claim_at t w)(p @ key := if t < now + ttl then Some (raw, now + ttl) else None)))"
    using cases
  proof (elim disjE exE conjE)
    fix p raw
    assume asked: "Writable g = None" "Repository_prefix r g = Inr p" "ce_marshal E v \<noteq> None"
      and st: "(res1, cw_store c1) = Store_Add array_ops now (p @ key) raw ttl (cw_store (uw_cache w))"
    show ?thesis
      using asked added [OF st] by (cases "claim_at now w (p @ key) = None") (auto simp: claim_at_def w')
  qed (simp add: claim_at_def w')
  show "res \<noteq> Inr True \<Longrightarrow> claim_at t w' = claim_at t w"
    and "res = Inr True \<Longrightarrow> Writable g = None \<and> ce_marshal E v \<noteq> None \<and> (\<exists>p raw. Repository_prefix r g = Inr p \<and>
      claim_at now w (p @ key) = None \<and> claim_at t w' =
        (claim_at t w)(p @ key := if t < now + ttl then Some (raw, now + ttl) else None))"
    using both ok by blast+
qed

lemma Forget_claim:
  assumes "r_tags r = None" "key \<noteq> []" "now \<le> t" and "Writable g = None" "Repository_prefix r g = Inr p"
    and "on_cache (Repository_Forget (asked_at now E) r g key) w = (res, w')"
  shows "uw_calls w' = uw_calls w \<and> claim_at t w' = (claim_at t w)(p @ key := None) \<and> res = Inr ()"
proof -
  obtain u s' where f: "Store_Forget array_ops now (p @ key) (cw_store (uw_cache w)) = (u, s')" by fastforce
  have "u = Inr ()" "live_at t (array_snap s') = (live_at t (array_snap (cw_store (uw_cache w))))(p @ key := None)"
    using array.forget_result [of now "p @ key" "cw_store (uw_cache w)"]
      array.forget_snap [OF TrueI assms(3), of "p @ key" "cw_store (uw_cache w)"] by (simp_all add: f)
  then show ?thesis
    using assms(6)
    by (auto simp: on_cache_def Repository_Forget_def and_then_def writeKey_untagged [OF assms(1,5,2,4)]
        on_store_def f claim_at_def)
qed

lemma PushUnique_cases:
  assumes "PushUnique marshal E (Some r) (Some q) g j w = (res, w')"
  obtains (early) "w' = w" "res \<noteq> Inr True"
  | (asked) payload res1 w1 where "uj_Key j \<noteq> []" "0 < uj_TTL j"
      "on_cache (Repository_Add E r g (UniqueLock_GetKey (uj_Key j)) (uj_Name j) (uj_TTL j)) w = (res1, w1)"
      "if res1 \<noteq> Inr True then res = res1 \<and> w' = w1
       else let call = PushCall g (uj_Queue j) (uj_Name j) payload; w2 = w1\<lparr>uw_calls := uw_calls w1 @ [call]\<rparr>
            in (if q (uw_calls w1) call = None then res = Inr True \<and> w' = w2
                else res \<noteq> Inr True \<and> w' = snd (ReleaseUnique E (Some r) g (uj_Key j) w2))"
proof (cases "uj_Key j \<noteq> [] \<and> 0 < uj_TTL j \<and> uj_Name j \<noteq> [] \<and> (\<exists>payload. bus_encode marshal (uj_Name j) (uj_Payload j) = Inr payload)")
  case False
  then have "w' = w" "res \<noteq> Inr True"
    using assms by (auto simp: PushUnique_def split: if_splits sum.splits)
  then show thesis by (rule early)
next
  case True
  then obtain payload where p: "bus_encode marshal (uj_Name j) (uj_Payload j) = Inr payload" by blast
  obtain res1 w1 where add:
    "on_cache (Repository_Add E r g (UniqueLock_GetKey (uj_Key j)) (uj_Name j) (uj_TTL j)) w = (res1, w1)"
    by fastforce
  show thesis
  proof (rule asked [OF _ _ add, of payload])
    show "if res1 \<noteq> Inr True then res = res1 \<and> w' = w1
       else let call = PushCall g (uj_Queue j) (uj_Name j) payload; w2 = w1\<lparr>uw_calls := uw_calls w1 @ [call]\<rparr>
            in (if q (uw_calls w1) call = None then res = Inr True \<and> w' = w2
                else res \<noteq> Inr True \<and> w' = snd (ReleaseUnique E (Some r) g (uj_Key j) w2))"
      using assms True p add
      by (auto simp: PushUnique_def Let_def split: sum.splits bool.splits option.splits)
  qed (use True in auto)
qed

lemma GetKey_nonempty [simp]: "UniqueLock_GetKey k \<noteq> []"
  by (simp add: UniqueLock_GetKey_def)

lemma claim_at_calls [simp]: "claim_at t (w\<lparr>uw_calls := cs\<rparr>) = claim_at t w"
  by (simp add: claim_at_def)

lemma claim_at_mono: "claim_at t w full = Some x \<Longrightarrow> now \<le> t \<Longrightarrow> claim_at now w full = Some x"
  unfolding claim_at_def by (rule live_at_mono)

text \<open>A standing claim outlives every push made before its end, and refuses the ones of its key.\<close>

lemma push_keeps_claim:
  assumes tags: "r_tags r = None" and "claim_at t w full = Some x" "now \<le> t"
    and push: "PushUnique marshal (asked_at now E) (Some r) (Some q) g j w = (res, w')"
  shows "claim_at t w' full = Some x"
    and "Repository_prefix r g = Inr p \<Longrightarrow> p @ UniqueLock_GetKey (uj_Key j) = full \<Longrightarrow>
      res \<noteq> Inr True \<and> uw_calls w' = uw_calls w"
proof -
  have standing: "claim_at now w full \<noteq> None" using claim_at_mono [OF assms(2,3)] by simp
  have "claim_at t w' full = Some x \<and> (Repository_prefix r g = Inr p \<longrightarrow> p @ UniqueLock_GetKey (uj_Key j) = full \<longrightarrow>
      res \<noteq> Inr True \<and> uw_calls w' = uw_calls w)"
    using push
  proof (cases rule: PushUnique_cases)
    case early
    then show ?thesis using assms(2) by simp
  next
    case (asked payload res1 w1)
    note add = Add_claim [OF tags GetKey_nonempty asked(2) assms(3) asked(3)]
    show ?thesis
    proof (cases "res1 = Inr True")
      case False
      then show ?thesis using asked(4) add(1,2) assms(2) by simp
    next
      case True
      then obtain p' raw where a: "Writable g = None" "Repository_prefix r g = Inr p'"
        "claim_at now w (p' @ UniqueLock_GetKey (uj_Key j)) = None"
        "claim_at t w1 = (claim_at t w)(p' @ UniqueLock_GetKey (uj_Key j) :=
           if t < now + uj_TTL j then Some (raw, now + uj_TTL j) else None)"
        using add(3) by blast
      have other: "p' @ UniqueLock_GetKey (uj_Key j) \<noteq> full" using a(3) standing by auto
      let ?w2 = "w1\<lparr>uw_calls := uw_calls w1 @ [PushCall g (uj_Queue j) (uj_Name j) payload]\<rparr>"
      obtain u w3 where rel: "ReleaseUnique (asked_at now E) (Some r) g (uj_Key j) ?w2 = (u, w3)" by fastforce
      then have "claim_at t w3 = (claim_at t ?w2)(p' @ UniqueLock_GetKey (uj_Key j) := None)"
        using Forget_claim [OF tags GetKey_nonempty assms(3) a(1,2)] asked(1) by (auto simp: ReleaseUnique_def)
      then have w3: "claim_at t w3 full = claim_at t w full"
        using other a(4) by simp
      have "w' = ?w2 \<or> w' = w3" using asked(4) True rel by (simp add: Let_def split: if_splits)
      then have "claim_at t w' full = claim_at t w full" using w3 other a(4) by (elim disjE) simp_all
      moreover have "p @ UniqueLock_GetKey (uj_Key j) \<noteq> full" if "Repository_prefix r g = Inr p"
        using that a(2) other by simp
      ultimately show ?thesis using assms(2) by simp
    qed
  qed
  then show "claim_at t w' full = Some x"
    and "Repository_prefix r g = Inr p \<Longrightarrow> p @ UniqueLock_GetKey (uj_Key j) = full \<Longrightarrow>
      res \<noteq> Inr True \<and> uw_calls w' = uw_calls w"
    by simp_all
qed

fun run_pushes ::
    "('p \<Rightarrow> bytes option) \<Rightarrow> (array_store, string) cache_env \<Rightarrow> repository \<Rightarrow> bus_queue \<Rightarrow>
     (instant \<times> grant \<times> 'p unique_job) list \<Rightarrow> array_store unique_world \<Rightarrow> array_store unique_world" where
  "run_pushes marshal E r q [] w = w"
| "run_pushes marshal E r q ((now, g, j) # cs) w =
     run_pushes marshal E r q cs (snd (PushUnique marshal (asked_at now E) (Some r) (Some q) g j w))"

lemma run_pushes_keep_claim:
  assumes "r_tags r = None" "claim_at t w full = Some x" "list_all (\<lambda>(now, g, j). now \<le> t) cs"
  shows "claim_at t (run_pushes marshal E r q cs w) full = Some x"
  using assms(2,3)
proof (induction cs arbitrary: w)
  case (Cons c cs)
  obtain now g j where c: "c = (now, g, j)" by (cases c)
  obtain res w' where push: "PushUnique marshal (asked_at now E) (Some r) (Some q) g j w = (res, w')" by fastforce
  show ?case
    using Cons push_keeps_claim(1) [OF assms(1) Cons.prems(1) _ push] by (simp add: c push)
qed simp

lemma first_push_claims:
  assumes tags: "r_tags r = None" and "t0 \<le> t" "t < t0 + uj_TTL j"
    and push: "PushUnique marshal (asked_at t0 E) (Some r) (Some q) g j w = (Inr True, w1)"
  shows "\<exists>p x. Repository_prefix r g = Inr p \<and> claim_at t w1 (p @ UniqueLock_GetKey (uj_Key j)) = Some x"
  using push
proof (cases rule: PushUnique_cases)
  case (asked payload res1 w2)
  then have one: "res1 = Inr True" by (auto simp: Let_def split: if_splits)
  then show ?thesis
    using Add_claim(3) [OF tags GetKey_nonempty asked(2) assms(2) asked(3)] asked(4) assms(3)
    by (auto simp: Let_def split: if_splits)
qed simp


definition sample_unique :: "string unique_job" where
  "sample_unique = \<lparr>uj_Key = ''report'', uj_TTL = 60, uj_Queue = [], uj_Name = ''report.monthly'', uj_Payload = None\<rparr>"

definition unique_env :: "(array_store, string) cache_env" where
  "unique_env = \<lparr>ce_store = array_ops, ce_now = 0, ce_wall = 0, ce_random = (\<lambda>n. None), ce_sha1 = (\<lambda>x. x),
                ce_marshal = Some, ce_int64 = format_int\<rparr>"

definition unique_start :: "array_store unique_world" where
  "unique_start = \<lparr>uw_cache = \<lparr>cw_store = NewArrayStore, cw_fired = [], cw_draws = 0\<rparr>, uw_calls = []\<rparr>"


end
