(* ===== verification/One_Time.thy ===== *)
theory One_Time
  imports Array_Store
begin

text \<open>
  One-time codes, \<^verbatim>\<open>src/onetime/onetime.go\<close> and \<^verbatim>\<open>code.go\<close>: a code is issued for a purpose and a
  subject, kept as a keyed digest in a cache store, and spent once. The store is any store that
  keeps the contract of \<open>Cache_Store\<close>; HMAC-SHA-256 and the JSON codec of a record are arguments.
  Spending a code is seven calls of the store, so a consumer is a value that remembers how far it
  has come, and several consumers interleave in a step relation.
\<close>

section \<open>Codes\<close>

datatype onetime_error =
    ErrNoCode
  | ErrExpired
  | ErrInvalidCode
  | ErrTooManyAttempts
  | ErrTooManyFailures
  | ErrCooldown duration
  | ErrUnavailable "cache_error option"
  | ErrNoPurpose
  | ErrNoSubject
  | OutOfRandomness
  | Unencodable_record
  | NoStoreGiven
  | ShortKey int
  | BadTTL duration
  | BadCooldown duration
  | BadAttempts int
  | BadFailures int
  | BadWindow duration

text \<open>The alphabet and the bytes the rejection throws away.\<close>

definition code_length :: nat where "code_length = 6"

definition code_alphabet :: string where "code_alphabet = ''0123456789''"

definition code_bias :: nat where "code_bias = 250"

fun pick_digits :: "bytes \<Rightarrow> string \<Rightarrow> string" where
  "pick_digits [] code = code"
| "pick_digits (b # buf) code =
     (if code_bias \<le> of_char b then pick_digits buf code
      else let code = code @ [code_alphabet ! (of_char b mod length code_alphabet)]
           in if length code = code_length then code else pick_digits buf code)"

text \<open>\<^verbatim>\<open>generate\<close>: the bytes the source will deliver are an argument, and a read of more than is left
  is the reader's error.\<close>

function generate_code :: "string \<Rightarrow> bytes \<Rightarrow> (onetime_error + string) \<times> bytes" where
  "generate_code code random =
     (if \<not> length code < code_length then (Inr code, random)
      else if length random < code_length then (Inl OutOfRandomness, [])
      else generate_code (pick_digits (take code_length random) code) (drop code_length random))"
  by auto
termination by (relation "measure (\<lambda>(code, random). length random)") (simp_all add: code_length_def)

declare generate_code.simps [simp del]

section \<open>The store of codes\<close>

record codes_config =
  cc_TTL :: duration
  cc_Cooldown :: duration
  cc_MaxAttempts :: int
  cc_MaxFailures :: int
  cc_FailureWindow :: duration

record code_record =
  cr_Nonce :: string
  cr_Digest :: bytes
  cr_IssuedAt :: int
  cr_ExpiresAt :: int

record onetime_env =
  oe_hmac :: "bytes \<Rightarrow> bytes \<Rightarrow> bytes"
  oe_marshal :: "code_record \<Rightarrow> bytes option"
  oe_unmarshal :: "bytes \<Rightarrow> code_record option"

record codes =
  oc_key :: bytes
  oc_ttl :: duration
  oc_cooldown :: duration
  oc_maxAttempts :: int
  oc_maxFailures :: int
  oc_failureWindow :: duration

definition derivationLabel :: string where "derivationLabel = ''hesape/onetime code key v1''"

definition or_default :: "int \<Rightarrow> int \<Rightarrow> int" where
  "or_default v d = (if v = 0 then d else v)"

definition NewCodes :: "onetime_env \<Rightarrow> 's store option \<Rightarrow> bytes \<Rightarrow> codes_config \<Rightarrow> onetime_error + codes" where
  "NewCodes E St appKey cfg =
     (if Option.is_none St then Inl NoStoreGiven
      else if length appKey < 32 then Inl (ShortKey (int (length appKey)))
      else if cc_TTL cfg < 0 then Inl (BadTTL (cc_TTL cfg))
      else if cc_Cooldown cfg < 0 then Inl (BadCooldown (cc_Cooldown cfg))
      else if cc_MaxAttempts cfg < 0 then Inl (BadAttempts (cc_MaxAttempts cfg))
      else if cc_MaxFailures cfg < 0 then Inl (BadFailures (cc_MaxFailures cfg))
      else if cc_FailureWindow cfg < 0 then Inl (BadWindow (cc_FailureWindow cfg))
      else Inr \<lparr>oc_key = oe_hmac E appKey derivationLabel,
                oc_ttl = or_default (cc_TTL cfg) (10 * Minute),
                oc_cooldown = or_default (cc_Cooldown cfg) Minute,
                oc_maxAttempts = or_default (cc_MaxAttempts cfg) 5,
                oc_maxFailures = or_default (cc_MaxFailures cfg) 20,
                oc_failureWindow = or_default (cc_FailureWindow cfg) (24 * Hour)\<rparr>)"

text \<open>Every field is preceded by its length in eight bytes.\<close>

definition mac_input :: "string \<Rightarrow> string list \<Rightarrow> bytes" where
  "mac_input label parts = label @ concat (map (\<lambda>f. big_endian 8 (length f) @ f) parts)"

definition Codes_mac :: "onetime_env \<Rightarrow> codes \<Rightarrow> string \<Rightarrow> string list \<Rightarrow> bytes" where
  "Codes_mac E c label parts = oe_hmac E (oc_key c) (mac_input label parts)"

definition Codes_scope :: "onetime_env \<Rightarrow> codes \<Rightarrow> string \<Rightarrow> string \<Rightarrow> string" where
  "Codes_scope E c purpose subject = hex_encode (take 16 (Codes_mac E c ''scope'' [purpose, subject]))"

definition Codes_digest :: "onetime_env \<Rightarrow> codes \<Rightarrow> string \<Rightarrow> string \<Rightarrow> string \<Rightarrow> string \<Rightarrow> bytes" where
  "Codes_digest E c purpose subject nonce code = Codes_mac E c ''code'' [purpose, subject, nonce, code]"

definition recordKey :: "string \<Rightarrow> string" where "recordKey scope = ''onetime:code:'' @ scope"

definition attemptKey :: "string \<Rightarrow> string \<Rightarrow> string" where
  "attemptKey scope nonce = ''onetime:attempts:'' @ scope @ '':'' @ nonce"

definition spentKey :: "string \<Rightarrow> string \<Rightarrow> string" where
  "spentKey scope nonce = ''onetime:spent:'' @ scope @ '':'' @ nonce"

definition failureKey :: "string \<Rightarrow> string" where "failureKey scope = ''onetime:failures:'' @ scope"

text \<open>\<^verbatim>\<open>Time.Sub\<close> saturates at the ends of a \<^verbatim>\<open>Duration\<close>; \<^verbatim>\<open>UnixMilli\<close> rounds down.\<close>

definition time_Sub :: "instant \<Rightarrow> instant \<Rightarrow> duration" where
  "time_Sub a b = max MinInt64 (min MaxInt64 (a - b))"

definition UnixMilli :: "instant \<Rightarrow> int" where "UnixMilli t = t div 1000000"

definition of_UnixMilli :: "int \<Rightarrow> instant" where "of_UnixMilli ms = ms * 1000000"

section \<open>Issuing\<close>

text \<open>One clock stands for the one of \<^verbatim>\<open>Codes\<close> and the one of the store.\<close>

definition Codes_cooldown_left :: "onetime_env \<Rightarrow> codes \<Rightarrow> instant \<Rightarrow> bytes \<Rightarrow> duration option" where
  "Codes_cooldown_left E c now stored =
     (case oe_unmarshal E stored of
        None \<Rightarrow> None
      | Some previous \<Rightarrow>
          let wait = wrap64 (oc_cooldown c - time_Sub now (of_UnixMilli (cr_IssuedAt previous)))
          in if 0 < wait then Some wait else None)"

definition Codes_write ::
    "onetime_env \<Rightarrow> 's store \<Rightarrow> codes \<Rightarrow> instant \<Rightarrow> string \<Rightarrow> string \<Rightarrow> bytes \<Rightarrow> 's \<Rightarrow>
     (onetime_error + string) \<times> bytes \<times> 's" where
  "Codes_write E St c now purpose subject random s =
     (case generate_code [] random of
        (Inl e, random) \<Rightarrow> (Inl e, random, s)
      | (Inr code, random) \<Rightarrow>
          if length random < 16 then (Inl OutOfRandomness, [], s)
          else let nonce = hex_encode (take 16 random); random = drop 16 random;
                   fresh = \<lparr>cr_Nonce = nonce, cr_Digest = Codes_digest E c purpose subject nonce code,
                            cr_IssuedAt = UnixMilli now, cr_ExpiresAt = UnixMilli (now + oc_ttl c)\<rparr>
               in case oe_marshal E fresh of
                    None \<Rightarrow> (Inl Unencodable_record, random, s)
                  | Some encoded \<Rightarrow>
                      let life = (if oc_ttl c < oc_cooldown c then oc_cooldown c else oc_ttl c)
                      in case Store_Put St now (recordKey (Codes_scope E c purpose subject)) encoded life s of
                           (Inl e, s) \<Rightarrow> (Inl (ErrUnavailable (Some e)), random, s)
                         | (Inr _, s) \<Rightarrow> (Inr code, random, s))"

definition Codes_Issue ::
    "onetime_env \<Rightarrow> 's store \<Rightarrow> codes \<Rightarrow> instant \<Rightarrow> string \<Rightarrow> string \<Rightarrow> bytes \<Rightarrow> 's \<Rightarrow>
     (onetime_error + string) \<times> bytes \<times> 's" where
  "Codes_Issue E St c now purpose subject random s =
     (if purpose = [] then (Inl ErrNoPurpose, random, s)
      else if subject = [] then (Inl ErrNoSubject, random, s)
      else case Store_Get St now (recordKey (Codes_scope E c purpose subject)) s of
             (Inl e, s) \<Rightarrow>
               if errors_is e ErrNotFound then Codes_write E St c now purpose subject random s
               else (Inl (ErrUnavailable (Some e)), random, s)
           | (Inr stored, s) \<Rightarrow>
               (case Codes_cooldown_left E c now stored of
                  Some wait \<Rightarrow> (Inl (ErrCooldown wait), random, s)
                | None \<Rightarrow> Codes_write E St c now purpose subject random s))"

section \<open>Spending\<close>

datatype stage =
    Look
  | CountFailure
  | CountAttempt
  | Compare
  | Refund
  | Burn
  | Clear
  | Done "onetime_error option"

record consumer =
  co_purpose :: string
  co_subject :: string
  co_code :: string
  co_outstanding :: code_record
  co_remaining :: duration
  co_stage :: stage

definition co_scope :: "onetime_env \<Rightarrow> codes \<Rightarrow> consumer \<Rightarrow> string" where
  "co_scope E c co = Codes_scope E c (co_purpose co) (co_subject co)"

abbreviation finish :: "onetime_error \<Rightarrow> consumer \<Rightarrow> consumer" where
  "finish e co \<equiv> co\<lparr>co_stage := Done (Some e)\<rparr>"

text \<open>Reading the outstanding code and its remaining life.\<close>

definition consume_look ::
    "onetime_env \<Rightarrow> 's store \<Rightarrow> codes \<Rightarrow> instant \<Rightarrow> consumer \<Rightarrow> 's \<Rightarrow> consumer \<times> 's" where
  "consume_look E St c now co s =
     (if co_purpose co = [] then (finish ErrNoPurpose co, s)
      else if co_subject co = [] then (finish ErrNoSubject co, s)
      else if co_code co = [] then (finish ErrInvalidCode co, s)
      else case Store_Get St now (recordKey (co_scope E c co)) s of
             (Inl e, s) \<Rightarrow>
               (finish (if errors_is e ErrNotFound then ErrNoCode else ErrUnavailable (Some e)) co, s)
           | (Inr stored, s) \<Rightarrow>
               (case oe_unmarshal E stored of
                  None \<Rightarrow> (finish (ErrUnavailable None) co, s)
                | Some outstanding \<Rightarrow>
                    let remaining = time_Sub (of_UnixMilli (cr_ExpiresAt outstanding)) now
                    in if remaining \<le> 0 then (finish ErrExpired co, s)
                       else (co\<lparr>co_outstanding := outstanding, co_remaining := remaining,
                                co_stage := CountFailure\<rparr>, s)))"

text \<open>The two counters, which refuse above their limits.\<close>

definition consume_count ::
    "'s store \<Rightarrow> instant \<Rightarrow> string \<Rightarrow> duration \<Rightarrow> int \<Rightarrow> onetime_error \<Rightarrow> stage \<Rightarrow> consumer \<Rightarrow> 's \<Rightarrow> consumer \<times> 's" where
  "consume_count St now key ttl limit refusal next_stage co s =
     (case Store_Increment St now key 1 ttl s of
        (Inl e, s) \<Rightarrow> (finish (ErrUnavailable (Some e)) co, s)
      | (Inr n, s) \<Rightarrow> (if limit < n then finish refusal co else co\<lparr>co_stage := next_stage\<rparr>, s))"

definition consume_compare :: "onetime_env \<Rightarrow> codes \<Rightarrow> consumer \<Rightarrow> consumer" where
  "consume_compare E c co =
     (if cr_Digest (co_outstanding co) \<noteq>
         Codes_digest E c (co_purpose co) (co_subject co) (cr_Nonce (co_outstanding co)) (co_code co)
      then finish ErrInvalidCode co else co\<lparr>co_stage := Refund\<rparr>)"

definition consume_burn ::
    "onetime_env \<Rightarrow> 's store \<Rightarrow> codes \<Rightarrow> instant \<Rightarrow> consumer \<Rightarrow> 's \<Rightarrow> consumer \<times> 's" where
  "consume_burn E St c now co s =
     (case Store_Add St now (spentKey (co_scope E c co) (cr_Nonce (co_outstanding co))) ''1'' (co_remaining co) s of
        (Inl e, s) \<Rightarrow> (finish (ErrUnavailable (Some e)) co, s)
      | (Inr spent, s) \<Rightarrow> (if \<not> spent then finish ErrNoCode co else co\<lparr>co_stage := Clear\<rparr>, s))"

fun consume_step ::
    "onetime_env \<Rightarrow> 's store \<Rightarrow> codes \<Rightarrow> instant \<Rightarrow> consumer \<Rightarrow> 's \<Rightarrow> consumer \<times> 's" where
  "consume_step E St c now co s =
     (case co_stage co of
        Look \<Rightarrow> consume_look E St c now co s
      | CountFailure \<Rightarrow>
          consume_count St now (failureKey (co_scope E c co)) (oc_failureWindow c) (oc_maxFailures c)
            ErrTooManyFailures CountAttempt co s
      | CountAttempt \<Rightarrow>
          consume_count St now (attemptKey (co_scope E c co) (cr_Nonce (co_outstanding co))) (co_remaining co)
            (oc_maxAttempts c) ErrTooManyAttempts Compare co s
      | Compare \<Rightarrow> (consume_compare E c co, s)
      | Refund \<Rightarrow>
          (co\<lparr>co_stage := Burn\<rparr>,
           snd (Store_Increment St now (failureKey (co_scope E c co)) (-1) (oc_failureWindow c) s))
      | Burn \<Rightarrow> consume_burn E St c now co s
      | Clear \<Rightarrow> (co\<lparr>co_stage := Done None\<rparr>, snd (Store_Forget St now (recordKey (co_scope E c co)) s))
      | Done r \<Rightarrow> (co, s))"

definition new_consumer :: "string \<Rightarrow> string \<Rightarrow> string \<Rightarrow> consumer" where
  "new_consumer purpose subject code =
     \<lparr>co_purpose = purpose, co_subject = subject, co_code = code,
      co_outstanding = \<lparr>cr_Nonce = [], cr_Digest = [], cr_IssuedAt = 0, cr_ExpiresAt = 0\<rparr>,
      co_remaining = 0, co_stage = Look\<rparr>"

text \<open>\<^verbatim>\<open>Consume\<close> runs the stages one after the other; there are seven at most.\<close>

fun run_consumer ::
    "nat \<Rightarrow> onetime_env \<Rightarrow> 's store \<Rightarrow> codes \<Rightarrow> instant \<Rightarrow> consumer \<Rightarrow> 's \<Rightarrow> consumer \<times> 's" where
  "run_consumer 0 E St c now co s = (co, s)"
| "run_consumer (Suc n) E St c now co s =
     (case consume_step E St c now co s of (co, s) \<Rightarrow> run_consumer n E St c now co s)"

definition Codes_Consume ::
    "onetime_env \<Rightarrow> 's store \<Rightarrow> codes \<Rightarrow> instant \<Rightarrow> string \<Rightarrow> string \<Rightarrow> string \<Rightarrow> 's \<Rightarrow>
     onetime_error option option \<times> 's" where
  "Codes_Consume E St c now purpose subject code s =
     (case run_consumer 7 E St c now (new_consumer purpose subject code) s of
        (co, s) \<Rightarrow> (case co_stage co of Done r \<Rightarrow> Some r | _ \<Rightarrow> None, s))"

section \<open>Consumers side by side\<close>

text \<open>Any number of consumers over one store: a step is one call of one of them, an issue, or time
  passing. The nonces an issue must not draw again are a parameter.\<close>

record 's code_system =
  os_now :: instant
  os_store :: 's
  os_consumers :: "consumer list"

definition issue_nonce :: "bytes \<Rightarrow> string" where
  "issue_nonce random = hex_encode (take 16 (snd (generate_code [] random)))"

inductive code_step ::
    "onetime_env \<Rightarrow> 's store \<Rightarrow> codes \<Rightarrow> string set \<Rightarrow> 's code_system \<Rightarrow> 's code_system \<Rightarrow> bool"
  for E St c drawn where
  consume: "i < length (os_consumers x) \<Longrightarrow>
    consume_step E St c (os_now x) (os_consumers x ! i) (os_store x) = (co, s) \<Longrightarrow>
    code_step E St c drawn x (x\<lparr>os_store := s, os_consumers := (os_consumers x)[i := co]\<rparr>)"
| issue: "Codes_Issue E St c (os_now x) purpose subject random (os_store x) = (r, random', s) \<Longrightarrow>
    issue_nonce random \<notin> drawn \<Longrightarrow> code_step E St c drawn x (x\<lparr>os_store := s\<rparr>)"
| tick: "os_now x \<le> t \<Longrightarrow> code_step E St c drawn x (x\<lparr>os_now := t\<rparr>)"

abbreviation code_reaches where
  "code_reaches E St c drawn \<equiv> (code_step E St c drawn)\<^sup>*\<^sup>*"

definition all_looking :: "'s code_system \<Rightarrow> bool" where
  "all_looking x \<longleftrightarrow> list_all (\<lambda>co. co_stage co = Look) (os_consumers x)"

subsection \<open>Keys and stages\<close>

lemma key_kinds [simp]:
  "failureKey sc \<noteq> recordKey sc'" "failureKey sc \<noteq> attemptKey sc' n" "failureKey sc \<noteq> spentKey sc' n"
  "spentKey sc m \<noteq> recordKey sc'" "spentKey sc m \<noteq> attemptKey sc' n" "spentKey sc m \<noteq> failureKey sc'"
  "recordKey sc \<noteq> failureKey sc'" "recordKey sc \<noteq> attemptKey sc' n" "recordKey sc \<noteq> spentKey sc' n"
  "attemptKey sc m \<noteq> failureKey sc'" "attemptKey sc m \<noteq> recordKey sc'" "attemptKey sc m \<noteq> spentKey sc' n"
  "failureKey sc = failureKey sc' \<longleftrightarrow> sc = sc'" "recordKey sc = recordKey sc' \<longleftrightarrow> sc = sc'"
  by (simp_all add: failureKey_def recordKey_def attemptKey_def spentKey_def)

lemmas consume_defs = consume_look_def consume_count_def consume_compare_def consume_burn_def Let_def

lemma consume_step_caller:
  "consume_step E St c now co s = (co', s') \<Longrightarrow>
   co_purpose co' = co_purpose co \<and> co_subject co' = co_subject co \<and> co_code co' = co_code co"
  by (auto simp: consume_defs split: stage.splits if_splits sum.splits prod.splits option.splits)

lemma consume_step_scope:
  "consume_step E St c now co s = (co', s') \<Longrightarrow> co_scope E c co' = co_scope E c co"
  using consume_step_caller [of E St c now co s co' s'] by (simp add: co_scope_def)

fun stages_left :: "stage \<Rightarrow> nat" where
  "stages_left Look = 7" | "stages_left CountFailure = 6" | "stages_left CountAttempt = 5"
| "stages_left Compare = 4" | "stages_left Refund = 3" | "stages_left Burn = 2" | "stages_left Clear = 1"
| "stages_left (Done r) = 0"

lemma consume_step_progress:
  "consume_step E St c now co s = (co', s') \<Longrightarrow> stages_left (co_stage co') \<le> stages_left (co_stage co) - 1"
  by (auto simp: consume_defs split: stage.splits if_splits sum.splits prod.splits option.splits)

lemma run_consumer_ends:
  "stages_left (co_stage co) \<le> n \<Longrightarrow> stages_left (co_stage (fst (run_consumer n E St c now co s))) = 0"
proof (induction n arbitrary: co s)
  case (Suc n)
  obtain co' s' where step: "consume_step E St c now co s = (co', s')" by fastforce
  show ?case
    using Suc.IH [of co' s'] Suc.prems consume_step_progress [OF step] by (simp add: step del: consume_step.simps)
qed simp

lemma Codes_Consume_returns: "\<exists>r s'. Codes_Consume E St c now purpose subject code s = (Some r, s')"
proof -
  obtain co s' where run: "run_consumer 7 E St c now (new_consumer purpose subject code) s = (co, s')" by fastforce
  have "stages_left (co_stage co) = 0"
    using run_consumer_ends [of "new_consumer purpose subject code" 7 E St c now s] run
    by (simp add: new_consumer_def)
  then show ?thesis
    by (cases "co_stage co") (simp_all add: Codes_Consume_def run)
qed

lemma filter_update:
  assumes "i < length xs"
  shows "int (length (filter P (xs[i := y]))) =
         int (length (filter P xs)) + (if P y then 1 else 0) - (if P (xs ! i) then 1 else 0)"
  using assms
proof (induction xs arbitrary: i)
  case (Cons x xs)
  show ?case
  proof (cases i)
    case (Suc k)
    then show ?thesis using Cons.IH [of k] Cons.prems by (auto split: if_splits)
  qed simp
qed simp

lemma length_filter_mono: "(\<And>x. P x \<Longrightarrow> Q x) \<Longrightarrow> length (filter P xs) \<le> length (filter Q xs)"
  by (induction xs) (auto simp: le_SucI)

section \<open>Wrong codes are counted\<close>

text \<open>A consumer that has taken one of the guesses of a scope and not given it back.\<close>

definition guessing :: "onetime_env \<Rightarrow> codes \<Rightarrow> string \<Rightarrow> consumer \<Rightarrow> bool" where
  "guessing E c scope co \<longleftrightarrow> co_scope E c co = scope \<and>
     (co_stage co \<in> {CountAttempt, Compare, Refund} \<or> co_stage co = Done (Some ErrInvalidCode) \<and> co_code co \<noteq> [])"

definition past_count :: "consumer \<Rightarrow> bool" where
  "past_count co \<longleftrightarrow> co_stage co \<notin> {Look, CountFailure}"

text \<open>The failure counter of a scope holds a number, and once set it outlives the window.\<close>

definition failures_are :: "instant \<Rightarrow> snapshot \<Rightarrow> instant \<Rightarrow> string \<Rightarrow> int \<Rightarrow> bool" where
  "failures_are until m now scope v \<longleftrightarrow>
     (case live_at now m (failureKey scope) of
        None \<Rightarrow> v = 0
      | Some (raw, d) \<Rightarrow> raw = format_int v \<and> until \<le> d)"

lemma failures_are_cong:
  "live_at now m' (failureKey scope) = live_at now m (failureKey scope) \<Longrightarrow>
   failures_are until m' now scope v = failures_are until m now scope v"
  by (simp add: failures_are_def)

lemma failures_are_later:
  assumes "failures_are until m now scope v" "now \<le> t" "t < until"
  shows "failures_are until m t scope v"
proof (cases "live_at now m (failureKey scope)")
  case None
  then have "live_at t m (failureKey scope) = None"
    using assms(2) live_at_mono [of t m "failureKey scope" _ now] by (cases "live_at t m (failureKey scope)") fastforce+
  then show ?thesis using assms(1) None by (simp add: failures_are_def)
next
  case (Some ve)
  obtain raw d where ve: "ve = (raw, d)" by (cases ve)
  have d: "raw = format_int v" "until \<le> d" using assms(1) Some ve by (simp_all add: failures_are_def)
  then have "live_at t m (failureKey scope) = Some (raw, d)"
    using Some assms(3) by (simp add: ve live_at_Some)
  then show ?thesis using d by (simp add: failures_are_def)
qed

lemma consume_step_guessing:
  assumes "consume_step E St c now co s = (co', s')"
    and "\<not> (co_stage co = CountFailure \<and> co_scope E c co = scope)"
  shows "guessing E c scope co' \<Longrightarrow> guessing E c scope co" "past_count co \<Longrightarrow> past_count co'"
  using assms consume_step_scope [OF assms(1)]
  by (auto simp: guessing_def past_count_def consume_defs
      split: stage.splits if_splits sum.splits prod.splits option.splits)

context store_contract
begin

text \<open>A call that is not about a key leaves it as it was.\<close>

lemma calls_elsewhere:
  assumes "invar s" "k \<noteq> k'"
  shows "live_at now (snap (snd (Store_Get St now k' s))) k = live_at now (snap s) k"
    and "live_at now (snap (snd (Store_Forget St now k' s))) k = live_at now (snap s) k"
    and "live_at now (snap (snd (Store_Put St now k' v ttl s))) k = live_at now (snap s) k"
    and "live_at now (snap (snd (Store_Add St now k' v ttl s))) k = live_at now (snap s) k"
    and "live_at now (snap (snd (Store_Increment St now k' d ttl s))) k = live_at now (snap s) k"
  using assms
  by (simp_all add: get_keeps forget_snap,
      (cases "0 < ttl"; simp add: put_snap put_refuses live_at_upd),
      (cases "0 < ttl"; simp add: add_snap add_refuses live_at_upd),
      (cases "0 < ttl"; simp add: increment_snap increment_refuses live_at_upd split: option.split))

end

lemma Codes_write_store:
  assumes "Codes_write E St c now purpose subject random s = (r, random', s')"
  shows "s' = s \<or> (\<exists>v ttl res cr. Store_Put St now (recordKey (Codes_scope E c purpose subject)) v ttl s = (res, s') \<and>
    oe_marshal E cr = Some v \<and> cr_Nonce cr = issue_nonce random)"
proof -
  obtain g rest where gen: "generate_code [] random = (g, rest)" by fastforce
  show ?thesis
    using assms unfolding Codes_write_def Let_def gen issue_nonce_def
    by (auto split: prod.splits sum.splits if_splits option.splits) force+
qed

lemma Codes_Issue_store:
  assumes "Codes_Issue E St c now purpose subject random s = (r, random', s')"
    and "Store_Get St now (recordKey (Codes_scope E c purpose subject)) s = (g, s1)"
  shows "s' = s \<or> s' = s1 \<or>
    (\<exists>v ttl res cr. Store_Put St now (recordKey (Codes_scope E c purpose subject)) v ttl s1 = (res, s') \<and>
      oe_marshal E cr = Some v \<and> cr_Nonce cr = issue_nonce random)"
proof (cases "s' = s \<or> s' = s1")
  case False
  then have w: "Codes_write E St c now purpose subject random s1 = (r, random', s')"
    using assms unfolding Codes_Issue_def by (auto split: sum.splits if_splits option.splits)
  show ?thesis using Codes_write_store [OF w] by auto
qed blast

context store_contract
begin

lemma issue_elsewhere:
  assumes "invar s" and "Codes_Issue E St c now purpose subject random s = (r, random', s')"
    and "k \<noteq> recordKey (Codes_scope E c purpose subject)"
  shows "invar s' \<and> live_at now (snap s') k = live_at now (snap s) k"
proof -
  let ?k = "recordKey (Codes_scope E c purpose subject)"
  obtain g s1 where get: "Store_Get St now ?k s = (g, s1)" by fastforce
  have s1: "invar s1" "live_at now (snap s1) = live_at now (snap s)"
    using get_invar [OF assms(1), of now ?k] get_keeps [OF assms(1), of now now ?k] by (simp_all add: get)
  consider "s' = s" | "s' = s1" | v ttl res where "Store_Put St now ?k v ttl s1 = (res, s')"
    using Codes_Issue_store [OF assms(2) get] by blast
  then show ?thesis
  proof cases
    case (3 v ttl res)
    then show ?thesis
      using put_invar [OF s1(1), of now ?k v ttl] calls_elsewhere(3) [OF s1(1) assms(3), of now v ttl] s1(2) by simp
  qed (use s1 assms(1) in simp_all)
qed

lemma consume_step_elsewhere:
  assumes "invar s" and "consume_step E St c now co s = (co', s')"
  shows "invar s'"
    and "\<not> (co_stage co \<in> {CountFailure, Refund} \<and> co_scope E c co = scope) \<Longrightarrow>
      live_at now (snap s') (failureKey scope) = live_at now (snap s) (failureKey scope)"
proof -
  note elsewhere = calls_elsewhere [OF assms(1)]
  have get: "Store_Get St now k s = (g, s1) \<Longrightarrow> invar s1 \<and> live_at now (snap s1) = live_at now (snap s)" for k g s1
    using get_invar [OF assms(1), of now k] get_keeps [OF assms(1), of now now k] by simp
  have inc: "Store_Increment St now k d ttl s = (g, s1) \<Longrightarrow> invar s1" for k d ttl g s1
    using increment_invar [OF assms(1), of now k d ttl] by simp
  have add: "Store_Add St now k v ttl s = (g, s1) \<Longrightarrow> invar s1" for k v ttl g s1
    using add_invar [OF assms(1), of now k v ttl] by simp
  show "invar s'"
    using assms(2) get inc add increment_invar [OF assms(1)] forget_invar [OF assms(1)] assms(1)
    by (auto simp: consume_defs split: stage.splits if_splits sum.splits prod.splits option.splits)
  have inc_else: "k \<noteq> failureKey scope \<Longrightarrow> Store_Increment St now k d ttl s = (g, s1) \<Longrightarrow>
      live_at now (snap s1) (failureKey scope) = live_at now (snap s) (failureKey scope)" for k d ttl g s1
    using elsewhere(5) [of "failureKey scope" k now d ttl] by simp
  have add_else: "k \<noteq> failureKey scope \<Longrightarrow> Store_Add St now k v ttl s = (g, s1) \<Longrightarrow>
      live_at now (snap s1) (failureKey scope) = live_at now (snap s) (failureKey scope)" for k v ttl g s1
    using elsewhere(4) [of "failureKey scope" k now v ttl] by simp
  show "live_at now (snap s') (failureKey scope) = live_at now (snap s) (failureKey scope)"
    if "\<not> (co_stage co \<in> {CountFailure, Refund} \<and> co_scope E c co = scope)"
    using assms(2) that elsewhere(2,5) [of "failureKey scope"]
    by (auto simp: consume_defs dest!: get inc_else [rotated] add_else [rotated]
        split: stage.splits if_splits sum.splits prod.splits option.splits)
qed

end

context store_contract
begin

text \<open>What counting a failure and giving it back do to a counter that holds a number.\<close>

lemma increment_failures:
  assumes "invar s" and f: "failures_are until (snap s) now scope v" "0 < ttl" "until \<le> now + ttl" "now < until"
    and v: "in_int64 v" "in_int64 (v + d)"
    and inc: "Store_Increment St now (failureKey scope) d ttl s = (r, s')"
  shows "r = Inr (v + d) \<and> failures_are until (snap s') now scope (v + d)"
proof -
  have count: "counter_of now (snap s) (failureKey scope) = Some v"
    using f(1) v(1) by (auto simp: failures_are_def counter_of_def split: option.splits)
  have dead: "until \<le> deadline_of now (snap s) (failureKey scope) ttl" "now < deadline_of now (snap s) (failureKey scope) ttl"
    using f by (auto simp: failures_are_def deadline_of_def split: option.splits)
  show ?thesis
    using increment_result [OF assms(1) f(2), of now "failureKey scope" d]
      increment_snap [OF assms(1) f(2) order_refl, of now "failureKey scope" d] count dead v
    by (simp add: inc failures_are_def live_at_upd)
qed

definition within_budget :: "onetime_env \<Rightarrow> codes \<Rightarrow> string \<Rightarrow> instant \<Rightarrow> 's code_system \<Rightarrow> bool" where
  "within_budget E c scope until x \<longleftrightarrow> invar (os_store x) \<and>
     (\<exists>v. failures_are until (snap (os_store x)) (os_now x) scope v \<and>
        int (length (filter (guessing E c scope) (os_consumers x))) \<le> v \<and>
        int (length (filter (guessing E c scope) (os_consumers x))) \<le> max 0 (oc_maxFailures c) \<and>
        v \<le> int (length (filter past_count (os_consumers x))))"

lemma consume_step_within_budget:
  assumes x: "within_budget E c scope until x" and i: "i < length (os_consumers x)"
    and step: "consume_step E St c (os_now x) (os_consumers x ! i) (os_store x) = (co, s)"
    and time: "os_now x < until" "until \<le> os_now x + oc_failureWindow c" "0 < oc_failureWindow c"
    and small: "int (length (os_consumers x)) < MaxInt64"
  shows "within_budget E c scope until (x\<lparr>os_store := s, os_consumers := (os_consumers x)[i := co]\<rparr>)"
proof -
  let ?co = "os_consumers x ! i" and ?cs = "os_consumers x" and ?now = "os_now x"
  obtain v where inv: "invar (os_store x)" and v: "failures_are until (snap (os_store x)) ?now scope v"
    "int (length (filter (guessing E c scope) ?cs)) \<le> v"
    "int (length (filter (guessing E c scope) ?cs)) \<le> max 0 (oc_maxFailures c)"
    "v \<le> int (length (filter past_count ?cs))"
    using x by (auto simp: within_budget_def)
  have range: "0 \<le> v" "in_int64 v" "in_int64 (v + 1)" "in_int64 (v - 1)"
    using v(2,4) small of_nat_mono [OF length_filter_le [of past_count ?cs], where 'a = int]
    unfolding in_int64_def by linarith+
  have inv': "invar s" using consume_step_elsewhere(1) [OF inv step] .
  note upd = filter_update [OF i]
  consider (count) "co_stage ?co = CountFailure" "co_scope E c ?co = scope"
    | (refund) "co_stage ?co = Refund" "co_scope E c ?co = scope"
    | (other) "\<not> (co_stage ?co \<in> {CountFailure, Refund} \<and> co_scope E c ?co = scope)"
    by blast
  then show ?thesis
  proof cases
    case count
    obtain r s1 where inc: "Store_Increment St ?now (failureKey scope) 1 (oc_failureWindow c) (os_store x) = (r, s1)"
      by fastforce
    note after = increment_failures [OF inv v(1) time(3,2,1) range(2) range(3) inc]
    have s1: "s = s1" and co: "co = (if oc_maxFailures c < v + 1 then finish ErrTooManyFailures ?co else ?co\<lparr>co_stage := CountAttempt\<rparr>)"
      using step count inc after by (auto simp: consume_count_def split: if_splits)
    have g: "\<not> guessing E c scope ?co" "\<not> past_count ?co" "past_count co"
      "guessing E c scope co \<longleftrightarrow> v + 1 \<le> oc_maxFailures c"
      using count by (auto simp: guessing_def past_count_def co co_scope_def)
    then show ?thesis
      unfolding within_budget_def using inv' after v upd [of _ co]
      by (intro conjI exI [of _ "v + 1"]) (auto simp: s1)
  next
    case refund
    obtain r s1 where inc: "Store_Increment St ?now (failureKey scope) (-1) (oc_failureWindow c) (os_store x) = (r, s1)"
      by fastforce
    have after: "failures_are until (snap s1) ?now scope (v - 1)"
      using increment_failures [OF inv v(1) time(3,2,1) range(2) _ inc] range(4) by simp
    have s1: "s = s1" and co: "co = ?co\<lparr>co_stage := Burn\<rparr>" using step refund inc by auto
    have g: "guessing E c scope ?co" "past_count ?co" "past_count co" "\<not> guessing E c scope co"
      using refund by (auto simp: guessing_def past_count_def co co_scope_def)
    then show ?thesis
      unfolding within_budget_def using inv' after v upd [of _ co]
      by (intro conjI exI [of _ "v - 1"]) (auto simp: s1)
  next
    case other
    have same: "failures_are until (snap s) ?now scope v"
      using consume_step_elsewhere(2) [OF inv step other] v(1) failures_are_cong by blast
    have g: "guessing E c scope co \<Longrightarrow> guessing E c scope ?co" "past_count ?co \<Longrightarrow> past_count co"
      using consume_step_guessing [OF step, of scope] other by blast+
    then show ?thesis
      unfolding within_budget_def using inv' same v upd [of _ co]
      by (intro conjI exI [of _ v]) auto
  qed
qed

lemma code_step_within_budget:
  assumes step: "code_step E St c drawn x y" and "within_budget E c scope until x"
    and time: "os_now y < until" "until \<le> os_now x + oc_failureWindow c" "0 < oc_failureWindow c"
    and small: "int (length (os_consumers x)) < MaxInt64"
  shows "within_budget E c scope until y \<and> os_now x \<le> os_now y \<and> length (os_consumers y) = length (os_consumers x)"
  using step
proof cases
  case (consume i co s)
  then show ?thesis using consume_step_within_budget assms by simp
next
  case (issue purpose subject random r random' s)
  then have "invar s \<and> live_at (os_now x) (snap s) (failureKey scope) = live_at (os_now x) (snap (os_store x)) (failureKey scope)"
    using issue_elsewhere [OF _ issue(2), of "failureKey scope"] assms(2) by (simp add: within_budget_def)
  then show ?thesis
    using assms(2) failures_are_cong [of "os_now x" "snap s" scope "snap (os_store x)" until]
    by (simp add: within_budget_def issue(1))
next
  case (tick t)
  then show ?thesis using assms(2) time failures_are_later [of until "snap (os_store x)" "os_now x" scope _ t]
    unfolding within_budget_def by auto
qed

end

context store_contract
begin

lemma code_reaches_within_budget:
  assumes "code_reaches E St c drawn x y" and "within_budget E c scope until x"
    and "os_now y < until" "until \<le> os_now x + oc_failureWindow c" "0 < oc_failureWindow c"
    and "int (length (os_consumers x)) < MaxInt64"
  shows "within_budget E c scope until y \<and> os_now x \<le> os_now y \<and> length (os_consumers y) = length (os_consumers x)"
  using assms
proof (induction rule: rtranclp_induct)
  case (step y z)
  have "os_now y \<le> os_now z" using step.hyps(2) by cases auto
  then show ?case using step code_step_within_budget [OF step.hyps(2)] by auto
qed simp

end

section \<open>A code is spent once\<close>

text \<open>A consumer that has read the outstanding code of an issue, and one that has burnt it.\<close>

definition holding :: "onetime_env \<Rightarrow> codes \<Rightarrow> string \<Rightarrow> string \<Rightarrow> consumer \<Rightarrow> bool" where
  "holding E c scope nonce co \<longleftrightarrow> co_scope E c co = scope \<and> cr_Nonce (co_outstanding co) = nonce \<and>
     co_stage co \<in> {CountFailure, CountAttempt, Compare, Refund, Burn}"

definition burnt :: "onetime_env \<Rightarrow> codes \<Rightarrow> string \<Rightarrow> string \<Rightarrow> consumer \<Rightarrow> bool" where
  "burnt E c scope nonce co \<longleftrightarrow> co_scope E c co = scope \<and> cr_Nonce (co_outstanding co) = nonce \<and>
     co_stage co \<in> {Clear, Done None}"

text \<open>The JSON codec reads back a record whose nonce is hexadecimal.\<close>

definition codec_exact :: "onetime_env \<Rightarrow> bool" where
  "codec_exact E \<longleftrightarrow>
     (\<forall>r raw bs. cr_Nonce r = hex_encode bs \<longrightarrow> oe_marshal E r = Some raw \<longrightarrow> oe_unmarshal E raw = Some r)"

definition expires :: "code_record \<Rightarrow> instant" where
  "expires r = of_UnixMilli (cr_ExpiresAt r)"

text \<open>What a live entry under the record's key may be: a record of the issue runs out when the issue
  does.\<close>

definition record_known :: "onetime_env \<Rightarrow> string \<Rightarrow> instant \<Rightarrow> (bytes \<times> instant) option \<Rightarrow> bool" where
  "record_known E nonce expiry entry \<longleftrightarrow>
     (\<forall>raw d r. entry = Some (raw, d) \<longrightarrow> oe_unmarshal E raw = Some r \<longrightarrow> cr_Nonce r = nonce \<longrightarrow> expires r = expiry)"

context store_contract
begin

lemma consume_step_marker:
  assumes "invar s" and "consume_step E St c now co s = (co', s')"
    and "live_at now (snap s) (spentKey sc n) = Some m"
  shows "live_at now (snap s') (spentKey sc n) = Some m"
proof -
  note elsewhere = calls_elsewhere [OF assms(1), of "spentKey sc n"]
  have get: "Store_Get St now k s = (g, s1) \<Longrightarrow> live_at now (snap s1) = live_at now (snap s)" for k g s1
    using get_keeps [OF assms(1), of now now k] by simp
  have inc: "Store_Increment St now k d ttl s = (g, s1) \<Longrightarrow> k \<noteq> spentKey sc n \<Longrightarrow>
      live_at now (snap s1) (spentKey sc n) = live_at now (snap s) (spentKey sc n)" for k d ttl g s1
    using elsewhere(5) [of k now d ttl] by simp
  have add: "live_at now (snap s1) (spentKey sc n) = Some m"
    if "Store_Add St now k v ttl s = (g, s1)" for k v ttl g s1
  proof (cases "0 < ttl")
    case True
    then show ?thesis
      using that elsewhere(4) [of k now v ttl] add_snap [OF assms(1) True, of now now k v] assms(3)
      by (cases "k = spentKey sc n") auto
  next
    case False
    then show ?thesis using that add_refuses [of ttl now k v s] assms(3) by simp
  qed
  show ?thesis
    using assms(2,3) elsewhere(2,5)
    by (auto simp: consume_defs dest: get inc add split: stage.splits if_splits sum.splits prod.splits option.splits)
qed

lemma consume_step_record:
  assumes "invar s" and "consume_step E St c now co s = (co', s')"
  shows "live_at now (snap s') (recordKey sc) \<in> {None, live_at now (snap s) (recordKey sc)}"
proof -
  note elsewhere = calls_elsewhere [OF assms(1), of "recordKey sc"]
  have get: "Store_Get St now k s = (g, s1) \<Longrightarrow> live_at now (snap s1) = live_at now (snap s)" for k g s1
    using get_keeps [OF assms(1), of now now k] by simp
  have inc: "Store_Increment St now k d ttl s = (g, s1) \<Longrightarrow> k \<noteq> recordKey sc \<Longrightarrow>
      live_at now (snap s1) (recordKey sc) = live_at now (snap s) (recordKey sc)" for k d ttl g s1
    using elsewhere(5) [of k now d ttl] by simp
  have add: "Store_Add St now k v ttl s = (g, s1) \<Longrightarrow> k \<noteq> recordKey sc \<Longrightarrow>
      live_at now (snap s1) (recordKey sc) = live_at now (snap s) (recordKey sc)" for k v ttl g s1
    using elsewhere(4) [of k now v ttl] by simp
  show ?thesis
    using assms(2) elsewhere(5) forget_snap [OF assms(1) order_refl, of now]
    by (auto simp: consume_defs dest: get inc add split: stage.splits if_splits sum.splits prod.splits option.splits)
qed

end

context store_contract
begin

lemma consume_step_holding:
  assumes "invar s" and step: "consume_step E St c now co s = (co', s')"
    and "record_known E n expiry (live_at now (snap s) (recordKey sc))"
    and "expiry - now \<le> MaxInt64" "now < expiry"
    and "holding E c sc n co \<Longrightarrow> expiry \<le> now + co_remaining co"
    and "holding E c sc n co'"
  shows "expiry \<le> now + co_remaining co'"
proof (cases "co_stage co = Look")
  case False
  then have "holding E c sc n co \<and> co_remaining co' = co_remaining co"
    using step assms(7) consume_step_scope [OF step]
    by (auto simp: holding_def consume_defs split: stage.splits if_splits sum.splits prod.splits option.splits)
  then show ?thesis using assms(6) by simp
next
  case True
  then have look: "consume_look E St c now co s = (co', s')" using step by simp
  have sc: "co_scope E c co = sc" using assms(7) consume_step_scope [OF step] by (simp add: holding_def)
  obtain raw where get: "fst (Store_Get St now (recordKey sc) s) = Inr raw"
    and un: "oe_unmarshal E raw = Some (co_outstanding co')"
    and rem: "co_remaining co' = time_Sub (expires (co_outstanding co')) now"
    using look assms(7) True
    by (auto simp: consume_look_def sc holding_def expires_def Let_def split: if_splits sum.splits prod.splits option.splits)
  obtain d where "live_at now (snap s) (recordKey sc) = Some (raw, d)"
    using get get_result [OF assms(1), of now "recordKey sc"] by (auto split: option.splits)
  then have "expires (co_outstanding co') = expiry"
    using assms(3,7) un by (auto simp: record_known_def holding_def)
  then show ?thesis using rem assms(4,5) by (simp add: time_Sub_def)
qed

lemma consume_step_burnt:
  assumes "invar s" and step: "consume_step E St c now co s = (co', s')"
    and "burnt E c sc n co'" "\<not> burnt E c sc n co" "0 < co_remaining co \<or> co_stage co \<noteq> Burn"
  shows "holding E c sc n co \<and> live_at now (snap s) (spentKey sc n) = None \<and>
    live_at now (snap s') (spentKey sc n) = Some (''1'', now + co_remaining co)"
proof -
  have burn: "co_stage co = Burn" "consume_burn E St c now co s = (co', s')"
    using step assms(3,4) consume_step_scope [OF step]
    by (auto simp: burnt_def consume_defs split: stage.splits if_splits sum.splits prod.splits option.splits)
  have same: "co_scope E c co = sc" "cr_Nonce (co_outstanding co) = n"
    using step assms(3) consume_step_scope [OF step] burn(1)
    by (auto simp: burnt_def consume_defs split: if_splits sum.splits prod.splits)
  have ttl: "0 < co_remaining co" using assms(5) burn(1) by simp
  obtain g s1 where add: "Store_Add St now (spentKey sc n) ''1'' (co_remaining co) s = (g, s1)" by fastforce
  have "g = Inr True" "s' = s1"
    using burn(2) assms(3) by (auto simp: consume_burn_def same add burnt_def split: sum.splits if_splits)
  then show ?thesis
    using add_result [OF assms(1) ttl, of now "spentKey sc n" "''1''"]
      add_snap [OF assms(1) ttl order_refl, of now "spentKey sc n" "''1''"] add burn(1) same ttl
    by (simp add: holding_def live_at_upd)
qed

definition spends_once :: "onetime_env \<Rightarrow> codes \<Rightarrow> string \<Rightarrow> string \<Rightarrow> instant \<Rightarrow> 's code_system \<Rightarrow> bool" where
  "spends_once E c sc n expiry x \<longleftrightarrow> invar (os_store x) \<and>
     record_known E n expiry (live_at (os_now x) (snap (os_store x)) (recordKey sc)) \<and>
     (\<forall>co \<in> set (os_consumers x). holding E c sc n co \<longrightarrow> expiry \<le> os_now x + co_remaining co) \<and>
     length (filter (burnt E c sc n) (os_consumers x)) \<le> 1 \<and>
     (filter (burnt E c sc n) (os_consumers x) \<noteq> [] \<longrightarrow>
        (\<exists>v d. live_at (os_now x) (snap (os_store x)) (spentKey sc n) = Some (v, d) \<and> expiry \<le> d))"

lemma consume_step_spends_once:
  assumes x: "spends_once E c sc n expiry x" and i: "i < length (os_consumers x)"
    and step: "consume_step E St c (os_now x) (os_consumers x ! i) (os_store x) = (co, s)"
    and time: "os_now x < expiry" "expiry - os_now x \<le> MaxInt64"
  shows "spends_once E c sc n expiry (x\<lparr>os_store := s, os_consumers := (os_consumers x)[i := co]\<rparr>)"
proof -
  let ?co = "os_consumers x ! i" and ?cs = "os_consumers x" and ?now = "os_now x"
  have inv: "invar (os_store x)" and rec: "record_known E n expiry (live_at ?now (snap (os_store x)) (recordKey sc))"
    and hold: "\<And>co. co \<in> set ?cs \<Longrightarrow> holding E c sc n co \<Longrightarrow> expiry \<le> ?now + co_remaining co"
    and one: "length (filter (burnt E c sc n) ?cs) \<le> 1"
    and mark: "filter (burnt E c sc n) ?cs \<noteq> [] \<Longrightarrow>
      \<exists>v d. live_at ?now (snap (os_store x)) (spentKey sc n) = Some (v, d) \<and> expiry \<le> d"
    using x by (auto simp: spends_once_def)
  have mem: "?co \<in> set ?cs" using i by simp
  have inv': "invar s" using consume_step_elsewhere(1) [OF inv step] .
  have rec': "record_known E n expiry (live_at ?now (snap s) (recordKey sc))"
    using rec consume_step_record [OF inv step, of sc] by (auto simp: record_known_def)
  have "expiry \<le> ?now + co_remaining co" if "holding E c sc n co"
    using consume_step_holding [OF inv step rec time(2,1) hold [OF mem] that] .
  then have hold': "\<forall>co' \<in> set (?cs[i := co]). holding E c sc n co' \<longrightarrow> expiry \<le> ?now + co_remaining co'"
    using hold set_update_subset_insert [of ?cs i co] by blast
  have keep: "\<exists>v d. live_at ?now (snap s) (spentKey sc n) = Some (v, d) \<and> expiry \<le> d"
    if "filter (burnt E c sc n) ?cs \<noteq> []"
    using mark [OF that] consume_step_marker [OF inv step] by blast
  have "length (filter (burnt E c sc n) (?cs[i := co])) \<le> 1 \<and>
     (filter (burnt E c sc n) (?cs[i := co]) \<noteq> [] \<longrightarrow>
        (\<exists>v d. live_at ?now (snap s) (spentKey sc n) = Some (v, d) \<and> expiry \<le> d))"
  proof (cases "burnt E c sc n co \<and> \<not> burnt E c sc n ?co")
    case True
    have "0 < co_remaining ?co \<or> co_stage ?co \<noteq> Burn"
    proof (rule disjCI)
      assume "\<not> co_stage ?co \<noteq> Burn"
      then have "holding E c sc n ?co"
        using True step consume_step_scope [OF step]
        by (auto simp: holding_def burnt_def consume_defs split: if_splits sum.splits prod.splits)
      then show "0 < co_remaining ?co" using hold [OF mem] time(1) by simp
    qed
    then have b: "holding E c sc n ?co" "live_at ?now (snap (os_store x)) (spentKey sc n) = None"
      "live_at ?now (snap s) (spentKey sc n) = Some (''1'', ?now + co_remaining ?co)"
      using consume_step_burnt [OF inv step] True by blast+
    then have none: "filter (burnt E c sc n) ?cs = []" using mark by fastforce
    show ?thesis
      using filter_update [OF i, of "burnt E c sc n" co] True none b(3) hold [OF mem b(1)] by simp
  next
    case False
    have le: "length (filter (burnt E c sc n) (?cs[i := co])) \<le> length (filter (burnt E c sc n) ?cs)"
      using filter_update [OF i, of "burnt E c sc n" co] False by (auto split: if_splits)
    then have "filter (burnt E c sc n) (?cs[i := co]) \<noteq> [] \<Longrightarrow> filter (burnt E c sc n) ?cs \<noteq> []" by auto
    then show ?thesis using le one keep by simp
  qed
  then show ?thesis using inv' rec' hold' by (simp add: spends_once_def)
qed

end

lemma Codes_Issue_issued:
  assumes "Codes_Issue E St c now purpose subject random s = (Inr code, random', s')"
  shows "\<exists>v ttl s1 cr. Store_Put St now (recordKey (Codes_scope E c purpose subject)) v ttl s1 = (Inr (), s') \<and>
    s1 = snd (Store_Get St now (recordKey (Codes_scope E c purpose subject)) s) \<and>
    oe_marshal E cr = Some v \<and> cr_Nonce cr = issue_nonce random \<and> expires cr = of_UnixMilli (UnixMilli (now + oc_ttl c))"
proof -
  obtain g s1 where get: "Store_Get St now (recordKey (Codes_scope E c purpose subject)) s = (g, s1)" by fastforce
  have w: "Codes_write E St c now purpose subject random s1 = (Inr code, random', s')"
    using assms unfolding Codes_Issue_def get by (auto split: sum.splits if_splits option.splits)
  obtain h rest where gen: "generate_code [] random = (h, rest)" by fastforce
  let ?cr = "\<lparr>cr_Nonce = hex_encode (take 16 rest),
    cr_Digest = Codes_digest E c purpose subject (hex_encode (take 16 rest)) code,
    cr_IssuedAt = UnixMilli now, cr_ExpiresAt = UnixMilli (now + oc_ttl c)\<rparr>"
  obtain v ttl where "Store_Put St now (recordKey (Codes_scope E c purpose subject)) v ttl s1 = (Inr (), s')"
    "oe_marshal E ?cr = Some v"
    using w unfolding Codes_write_def Let_def gen
    by (auto split: prod.splits sum.splits if_splits option.splits)
  then show ?thesis
    unfolding get by (intro exI [of _ v] exI [of _ ttl] exI [of _ s1] exI [of _ ?cr]) (simp add: issue_nonce_def gen expires_def)
qed

lemma codec_exact_nonce:
  assumes "codec_exact E" "oe_marshal E cr = Some v" "cr_Nonce cr = issue_nonce random"
  shows "oe_unmarshal E v = Some cr"
  using assms unfolding codec_exact_def issue_nonce_def by blast

context store_contract
begin

lemma issue_record_known:
  assumes "invar s" and "Codes_Issue E St c now purpose subject random s = (Inr code, random', s')" and "codec_exact E"
  shows "invar s'" and "record_known E (issue_nonce random) (of_UnixMilli (UnixMilli (now + oc_ttl c)))
    (live_at now (snap s') (recordKey (Codes_scope E c purpose subject)))"
proof -
  let ?k = "recordKey (Codes_scope E c purpose subject)"
  obtain v ttl s1 cr where put: "Store_Put St now ?k v ttl s1 = (Inr (), s')" and s1: "s1 = snd (Store_Get St now ?k s)"
    and cr: "oe_marshal E cr = Some v" "cr_Nonce cr = issue_nonce random" "expires cr = of_UnixMilli (UnixMilli (now + oc_ttl c))"
    using Codes_Issue_issued [OF assms(2)] by blast
  have inv1: "invar s1" using get_invar [OF assms(1)] s1 by simp
  have ttl: "0 < ttl" using put put_refuses [of ttl now ?k v s1] by (cases "0 < ttl") auto
  show "invar s'" using put_invar [OF inv1, of now ?k v ttl] put by simp
  show "record_known E (issue_nonce random) (of_UnixMilli (UnixMilli (now + oc_ttl c))) (live_at now (snap s') ?k)"
    using put_snap [OF inv1 ttl order_refl, of now ?k v] put codec_exact_nonce [OF assms(3) cr(1,2)] cr(3) ttl
    by (auto simp: record_known_def live_at_upd)
qed

lemma code_step_spends_once:
  assumes step: "code_step E St c drawn x y" and x: "spends_once E c sc n expiry x"
    and time: "os_now y < expiry" "expiry - os_now x \<le> MaxInt64" and "codec_exact E" "n \<in> drawn"
  shows "spends_once E c sc n expiry y"
  using step
proof cases
  case (consume i co s)
  then show ?thesis using consume_step_spends_once [OF x] time by simp
next
  case (issue purpose subject random r random' s)
  let ?k = "recordKey (Codes_scope E c purpose subject)" and ?now = "os_now x"
  have inv: "invar (os_store x)" using x by (simp add: spends_once_def)
  have marker: "invar s" "live_at ?now (snap s) (spentKey sc n) = live_at ?now (snap (os_store x)) (spentKey sc n)"
    using issue_elsewhere [OF inv issue(2), of "spentKey sc n"] by simp_all
  have "record_known E n expiry (live_at ?now (snap s) (recordKey sc))"
  proof (cases "recordKey sc = ?k")
    case False
    then show ?thesis using issue_elsewhere [OF inv issue(2) False] x by (simp add: spends_once_def)
  next
    case True
    obtain g s1 where get: "Store_Get St ?now ?k (os_store x) = (g, s1)" by fastforce
    have s1: "invar s1" "live_at ?now (snap s1) = live_at ?now (snap (os_store x))"
      using get_invar [OF inv, of ?now ?k] get_keeps [OF inv, of ?now ?now ?k] by (simp_all add: get)
    have rec: "record_known E n expiry (live_at ?now (snap (os_store x)) ?k)" using x True by (simp add: spends_once_def)
    consider "s = os_store x" | "s = s1" | v ttl res cr where "Store_Put St ?now ?k v ttl s1 = (res, s)"
      "oe_marshal E cr = Some v" "cr_Nonce cr = issue_nonce random"
      using Codes_Issue_store [OF issue(2) get] by blast
    then show ?thesis
    proof cases
      case (3 v ttl res cr)
      have un: "oe_unmarshal E v = Some cr" "cr_Nonce cr \<noteq> n"
        using codec_exact_nonce [OF assms(5) 3(2,3)] 3(3) issue(3) assms(6) by auto
      show ?thesis
        using 3(1) un put_snap [OF s1(1) _ order_refl, of ttl ?now ?k v] put_refuses [of ttl ?now ?k v s1] s1(2) rec
        by (cases "0 < ttl") (auto simp: True record_known_def live_at_upd)
    qed (use s1 rec True in simp_all)
  qed
  then show ?thesis using marker x by (simp add: spends_once_def issue(1))
next
  case (tick t)
  have "record_known E n expiry (live_at t (snap (os_store x)) (recordKey sc))"
    using x tick live_at_mono [of t "snap (os_store x)" "recordKey sc" _ "os_now x"]
    by (auto simp: spends_once_def record_known_def)
  then show ?thesis using x tick time(1) by (fastforce simp: spends_once_def live_at_Some)
qed

lemma code_reaches_spends_once:
  assumes "code_reaches E St c drawn x y" and "spends_once E c sc n expiry x"
    and "os_now y < expiry" "expiry - os_now x \<le> MaxInt64" and "codec_exact E" "n \<in> drawn"
  shows "spends_once E c sc n expiry y \<and> os_now x \<le> os_now y"
  using assms
proof (induction rule: rtranclp_induct)
  case (step y z)
  have "os_now y \<le> os_now z" using step.hyps(2) by cases auto
  then show ?case using step code_step_spends_once [OF step.hyps(2)] by auto
qed simp

end

text \<open>A consumer that runs alone for a while is such a sequence of steps.\<close>

lemma run_consumer_reaches:
  assumes "i < length (os_consumers x)"
    and "run_consumer n E St c (os_now x) (os_consumers x ! i) (os_store x) = (co, s)"
  shows "code_reaches E St c drawn x (x\<lparr>os_store := s, os_consumers := (os_consumers x)[i := co]\<rparr>)"
  using assms
proof (induction n arbitrary: x)
  case (Suc n)
  obtain co1 s1 where step: "consume_step E St c (os_now x) (os_consumers x ! i) (os_store x) = (co1, s1)" by fastforce
  let ?y = "x\<lparr>os_store := s1, os_consumers := (os_consumers x)[i := co1]\<rparr>"
  have "code_step E St c drawn x ?y" by (rule code_step.consume [OF Suc.prems(1) step])
  moreover have "code_reaches E St c drawn ?y (?y\<lparr>os_store := s, os_consumers := (os_consumers ?y)[i := co]\<rparr>)"
    using Suc.IH [of ?y] Suc.prems step by (simp del: consume_step.simps)
  ultimately show ?case by (simp add: converse_rtranclp_into_rtranclp)
next
  case 0
  then show ?case by (cases x) auto
qed

section \<open>A code under way\<close>

text \<open>One issue at time 0, its record, and the store after it and after one consumer spent the code.\<close>

definition demo_codes :: codes where
  "demo_codes = \<lparr>oc_key = ''k'', oc_ttl = 10 * Minute, oc_cooldown = Minute, oc_maxAttempts = 5,
     oc_maxFailures = 20, oc_failureWindow = 24 * Hour\<rparr>"

definition demo_nonce :: bytes where "demo_nonce = ''0123456789abcdef''"

definition demo_record :: code_record where
  "demo_record = \<lparr>cr_Nonce = hex_encode demo_nonce, cr_Digest = ''5'', cr_IssuedAt = 0, cr_ExpiresAt = 600000\<rparr>"

definition demo_env :: onetime_env where
  "demo_env = \<lparr>oe_hmac = (\<lambda>k m. [last m]),
     oe_marshal = (\<lambda>r. if r = demo_record then Some ''r'' else None),
     oe_unmarshal = (\<lambda>raw. if raw = ''r'' then Some demo_record else None)\<rparr>"

definition demo_issued :: array_store where
  "demo_issued = \<lparr>as_entries = [recordKey (hex_encode ''n'') \<mapsto> newEntry 0 ''r'' (10 * Minute)], as_locks = Map.empty\<rparr>"

definition demo_random :: bytes where "demo_random = ''111117'' @ demo_nonce"

lemma demo_generate: "generate_code [] demo_random = (Inr ''999995'', demo_nonce)"
  by (simp add: demo_random_def generate_code.simps [of "[]"] generate_code.simps [of "_ # _"] code_length_def code_bias_def code_alphabet_def)

lemma demo_mac: "Codes_scope demo_env demo_codes ''login'' ''ann'' = hex_encode ''n''"
  "Codes_digest demo_env demo_codes ''login'' ''ann'' n ''999995'' = ''5''"
  "Codes_digest demo_env demo_codes ''login'' ''ann'' n ''000000'' = ''0''"
  by (simp_all add: Codes_scope_def Codes_digest_def Codes_mac_def mac_input_def demo_env_def)


lemma demo_simps:
  "oc_ttl demo_codes = 10 * Minute" "oc_cooldown demo_codes = Minute" "oc_maxAttempts demo_codes = 5"
  "oc_maxFailures demo_codes = 20" "oc_failureWindow demo_codes = 24 * Hour" "length demo_nonce = 16"
  "cr_Nonce demo_record = hex_encode demo_nonce" "cr_Digest demo_record = ''5''" "cr_ExpiresAt demo_record = 600000"
  "oe_unmarshal demo_env ''r'' = Some demo_record"
  "oe_marshal demo_env \<lparr>cr_Nonce = hex_encode demo_nonce, cr_Digest = ''5'', cr_IssuedAt = 0, cr_ExpiresAt = 600000\<rparr> = Some ''r''"
  by (simp_all add: demo_codes_def demo_env_def demo_nonce_def demo_record_def)

lemmas demo_store = array_ops_def array_op_defs live_def newEntry_def Let_def

lemma demo_issue:
  "Codes_Issue demo_env array_ops demo_codes 0 ''login'' ''ann'' demo_random NewArrayStore =
   (Inr ''999995'', [], demo_issued)"
  by (simp add: Codes_Issue_def Codes_write_def demo_generate demo_mac demo_store NewArrayStore_def
      demo_issued_def UnixMilli_def demo_simps)

abbreviation demo_consumer :: "stage \<Rightarrow> consumer" where
  "demo_consumer st \<equiv> (new_consumer ''login'' ''ann'' ''999995'')
     \<lparr>co_outstanding := demo_record, co_remaining := 10 * Minute, co_stage := st\<rparr>"

definition demo_spent :: array_store where
  "demo_spent = \<lparr>as_entries =
      [failureKey (hex_encode ''n'') \<mapsto> newEntry 0 (format_int 0) (24 * Hour),
       attemptKey (hex_encode ''n'') (hex_encode demo_nonce) \<mapsto> newEntry 0 (format_int 1) (10 * Minute),
       spentKey (hex_encode ''n'') (hex_encode demo_nonce) \<mapsto> newEntry 0 ''1'' (10 * Minute)],
    as_locks = Map.empty\<rparr>"

lemma demo_look:
  "run_consumer 1 demo_env array_ops demo_codes 0 (new_consumer ''login'' ''ann'' ''999995'') demo_issued =
   (demo_consumer CountFailure, demo_issued)"
  by (simp add: new_consumer_def consume_look_def co_scope_def demo_mac demo_issued_def demo_store demo_simps
      of_UnixMilli_def time_Sub_def)

lemmas demo_run = new_consumer_def numeral_eq_Suc consume_count_def consume_burn_def consume_compare_def
  co_scope_def demo_mac demo_store

lemma demo_rest:
  "run_consumer 6 demo_env array_ops demo_codes 0 (demo_consumer CountFailure) demo_issued =
   (demo_consumer (Done None), demo_spent)"
  by (simp add: demo_run demo_issued_def demo_simps demo_spent_def in_int64_def) (auto simp: fun_eq_iff)

lemma demo_late:
  "\<exists>s. run_consumer 6 demo_env array_ops demo_codes (10 * Minute) (demo_consumer CountFailure) demo_spent =
   (demo_consumer (Done None), s)"
  by (simp add: demo_run demo_spent_def demo_simps in_int64_def)

lemma demo_consume:
  "run_consumer 7 demo_env array_ops demo_codes 0 (new_consumer ''login'' ''ann'' ''999995'') demo_issued =
   (demo_consumer (Done None), demo_spent)"
  using demo_look demo_rest by (simp add: numeral_eq_Suc del: consume_step.simps split: prod.splits)

lemma demo_wrong:
  "\<exists>s. run_consumer 4 demo_env array_ops demo_codes 0 (new_consumer ''login'' ''ann'' ''000000'') demo_issued =
   (finish ErrInvalidCode ((new_consumer ''login'' ''ann'' ''000000'')\<lparr>co_outstanding := demo_record, co_remaining := 10 * Minute\<rparr>), s)"
  by (simp add: demo_run demo_issued_def demo_simps in_int64_def consume_look_def of_UnixMilli_def time_Sub_def)

lemma demo_codec: "codec_exact demo_env"
  by (simp add: codec_exact_def demo_env_def)

lemma demo_issue_nonce: "issue_nonce demo_random = hex_encode demo_nonce"
  by (simp add: issue_nonce_def demo_generate demo_simps)

section \<open>Properties\<close>



text \<open>C38. A code that was issued is spent once: while it has not run out, of all the consumers that
  present codes over any interleaving of their calls, of further issues that draw other nonces and of
  time, at most one is told that it spent that issue.\<close>

theorem code_spends_once:
  assumes "Codes_Issue E array_ops c now purpose subject random s = (Inr code, random', s')"
    and "codec_exact E" "oc_ttl c \<le> MaxInt64"
    and "all_looking x" "os_now x = now" "os_store x = s'"
    and "code_reaches E array_ops c {issue_nonce random} x y"
    and "os_now y < of_UnixMilli (UnixMilli (now + oc_ttl c))"
  shows "length (filter (\<lambda>co. co_scope E c co = Codes_scope E c purpose subject \<and>
            cr_Nonce (co_outstanding co) = issue_nonce random \<and> co_stage co = Done None) (os_consumers y)) \<le> 1"
proof -
  let ?sc = "Codes_scope E c purpose subject" and ?n = "issue_nonce random"
  let ?expiry = "of_UnixMilli (UnixMilli (now + oc_ttl c))"
  have "filter (burnt E c ?sc ?n) (os_consumers x) = []" "\<forall>co \<in> set (os_consumers x). \<not> holding E c ?sc ?n co"
    using assms(4) by (auto simp: all_looking_def list_all_iff filter_empty_conv burnt_def holding_def)
  then have "array.spends_once E c ?sc ?n ?expiry x"
    using array.issue_record_known(2) [OF _ assms(1,2)] assms(5,6) by (simp add: array.spends_once_def)
  moreover have "?expiry - os_now x \<le> MaxInt64" using assms(3,5) by (simp add: of_UnixMilli_def UnixMilli_def)
  ultimately have "array.spends_once E c ?sc ?n ?expiry y"
    using array.code_reaches_spends_once [OF assms(7)] assms(2,8) by simp
  then have "length (filter (burnt E c ?sc ?n) (os_consumers y)) \<le> 1" by (simp add: array.spends_once_def)
  moreover have "length (filter (\<lambda>co. co_scope E c co = ?sc \<and> cr_Nonce (co_outstanding co) = ?n \<and>
      co_stage co = Done None) (os_consumers y)) \<le> length (filter (burnt E c ?sc ?n) (os_consumers y))"
    by (rule length_filter_mono) (simp add: burnt_def)
  ultimately show ?thesis by simp
qed

theorem code_spends_once_witness:
  "length (filter (\<lambda>co. co_scope demo_env demo_codes co = Codes_scope demo_env demo_codes ''login'' ''ann'' \<and>
     cr_Nonce (co_outstanding co) = issue_nonce demo_random \<and> co_stage co = Done None)
     [demo_consumer (Done None), new_consumer ''login'' ''ann'' ''999995'']) \<le> 1"
proof -
  let ?x = "\<lparr>os_now = 0, os_store = demo_issued,
    os_consumers = [new_consumer ''login'' ''ann'' ''999995'', new_consumer ''login'' ''ann'' ''999995'']\<rparr>"
  let ?y = "\<lparr>os_now = 0, os_store = demo_spent,
    os_consumers = [demo_consumer (Done None), new_consumer ''login'' ''ann'' ''999995'']\<rparr>"
  have reaches: "code_reaches demo_env array_ops demo_codes {issue_nonce demo_random} ?x ?y"
    using run_consumer_reaches [of 0 ?x 7 demo_env array_ops demo_codes] demo_consume by simp
  have looking: "all_looking ?x" by (simp add: all_looking_def new_consumer_def)
  show ?thesis
    using code_spends_once [OF demo_issue demo_codec _ looking _ _ reaches]
    by (simp add: demo_simps of_UnixMilli_def UnixMilli_def)
qed


end
