(* ===== verification/Otp.thy ===== *)
theory Otp
  imports Go_Text "HOL-Library.Word"
begin

text \<open>
  One-time passwords, \<^verbatim>\<open>src/otp/\<close>: the event-based code of RFC 4226 (\<^verbatim>\<open>hotp.go\<close>), the time-based
  one of RFC 6238 (\<^verbatim>\<open>totp.go\<close>) and the text form of a secret (\<^verbatim>\<open>secret.go\<close>). HMAC-SHA-1 is an
  argument. Counters, steps and the skew are 64 bits wide and the truncated digest 32, so the loop of
  \<^verbatim>\<open>Verify\<close> can wrap around: it is a partial function whose value is \<open>None\<close> where it does not end.
\<close>

unbundle bit_operations_syntax

section \<open>The event-based code\<close>

datatype otp_error =
    ErrSecret_empty
  | ErrSecret_base32
  | ErrSecret_short string
  | ErrDigits int
  | ErrPeriod duration
  | ErrTime instant
  | ErrMismatch
  | ErrMismatch_length int int
  | Digest_too_short

definition DefaultDigits :: int where "DefaultDigits = 6"
definition MinDigits :: int where "MinDigits = 6"
definition MaxDigits :: int where "MaxDigits = 8"

text \<open>Four bytes as a number, and a digest cut down to one. An index outside the digest is a panic.\<close>

definition big_endian_Uint32 :: "bytes \<Rightarrow> 32 word" where
  "big_endian_Uint32 b = fold (\<lambda>c n. push_bit 8 n OR of_nat (of_char c)) b 0"

definition dynamic_truncate :: "bytes \<Rightarrow> (32 word) option" where
  "dynamic_truncate digest =
     (if digest = [] then None
      else let offset = of_char (last digest) mod 16
           in if length digest < offset + 4 then None
              else Some (big_endian_Uint32 (take 4 (drop offset digest)) AND 0x7fffffff))"

definition pow10 :: "(32 word) list" where
  "pow10 = [1, 10, 100, 1000, 10000, 100000, 1000000, 10000000, 100000000]"

definition zero_padded :: "nat \<Rightarrow> string \<Rightarrow> string" where
  "zero_padded width s = replicate (width - length s) (CHR ''0'') @ s"

definition format_code :: "32 word \<Rightarrow> int \<Rightarrow> string" where
  "format_code v digits = zero_padded (nat digits) (show_nat (unat (v mod (pow10 ! nat digits))))"

definition HOTP :: "(bytes \<Rightarrow> bytes \<Rightarrow> bytes) \<Rightarrow> bytes \<Rightarrow> 64 word \<Rightarrow> int \<Rightarrow> otp_error + string" where
  "HOTP mac secret counter digits =
     (if secret = [] then Inl ErrSecret_empty
      else if digits < MinDigits \<or> digits > MaxDigits then Inl (ErrDigits digits)
      else case dynamic_truncate (mac secret (big_endian 8 (unat counter))) of
             None \<Rightarrow> Inl Digest_too_short
           | Some v \<Rightarrow> Inr (format_code v digits))"

section \<open>The text of a secret\<close>

text \<open>\<^verbatim>\<open>encoding/base32\<close> without padding. Five bytes are eight characters; the bytes that are left at the
  end are filled with zero bits. Decoding drops the ends of lines, and a last group of one, three or
  six characters stands for no byte.\<close>

definition base32_alphabet :: string where
  "base32_alphabet = ''ABCDEFGHIJKLMNOPQRSTUVWXYZ234567''"

definition SecretSize :: nat where "SecretSize = 20"

fun number_of_bytes :: "bytes \<Rightarrow> nat" where
  "number_of_bytes [] = 0"
| "number_of_bytes (b # bs) = of_char b * 256 ^ length bs + number_of_bytes bs"

fun base32_digits :: "nat \<Rightarrow> nat \<Rightarrow> nat list" where
  "base32_digits 0 n = []"
| "base32_digits (Suc w) n = base32_digits w (n div 32) @ [n mod 32]"

definition group_length :: "nat \<Rightarrow> nat" where
  "group_length bytes = (8 * bytes + 4) div 5"

definition encode_group :: "bytes \<Rightarrow> string" where
  "encode_group bs = map (\<lambda>d. base32_alphabet ! d)
     (take (group_length (length bs)) (base32_digits 8 (number_of_bytes (bs @ replicate (5 - length bs) (CHR 0x00)))))"

function base32_encode :: "bytes \<Rightarrow> string" where
  "base32_encode bs = (if bs = [] then [] else encode_group (take 5 bs) @ base32_encode (drop 5 bs))"
  by auto
termination by (relation "measure length") auto

declare base32_encode.simps [simp del]

fun index_of :: "char \<Rightarrow> string \<Rightarrow> nat option" where
  "index_of c [] = None"
| "index_of c (x # xs) = (if c = x then Some 0 else map_option Suc (index_of c xs))"

fun values_of :: "string \<Rightarrow> nat list option" where
  "values_of [] = Some []"
| "values_of (c # cs) =
     (case index_of c base32_alphabet of
        None \<Rightarrow> None
      | Some d \<Rightarrow> map_option ((#) d) (values_of cs))"

definition bytes_of_group :: "nat list \<Rightarrow> bytes" where
  "bytes_of_group ds =
     (let n = foldl (\<lambda>n d. n * 32 + d) 0 (ds @ replicate (8 - length ds) 0)
      in if length ds \<in> {2, 4, 5, 7, 8} then take (5 * length ds div 8) (big_endian 5 n) else [])"

function decode_groups :: "nat list \<Rightarrow> bytes" where
  "decode_groups ds = (if ds = [] then [] else bytes_of_group (take 8 ds) @ decode_groups (drop 8 ds))"
  by auto
termination by (relation "measure length") auto

declare decode_groups.simps [simp del]

definition base32_decode :: "string \<Rightarrow> bytes option" where
  "base32_decode s = map_option decode_groups (values_of (filter (\<lambda>c. c \<noteq> CHR 0x0A \<and> c \<noteq> CHR 0x0D) s))"

text \<open>\<^verbatim>\<open>strings.Map\<close>: a byte that is not UTF-8 is read as the replacement rune.\<close>

definition strings_Map :: "(rune \<Rightarrow> rune option) \<Rightarrow> string \<Rightarrow> string" where
  "strings_Map f s = encode_runes (List.map_filter f (range_runes s))"

definition NewSecret :: "bytes \<Rightarrow> bytes" where
  "NewSecret random = take SecretSize random"

definition EncodeSecret :: "bytes \<Rightarrow> string" where
  "EncodeSecret secret = base32_encode secret"

definition clean_secret :: "rune \<Rightarrow> rune option" where
  "clean_secret r =
     (if r = 32 \<or> r = 9 \<or> r = 45 \<or> r = 61 then None
      else if 97 \<le> r \<and> r \<le> 122 then Some (r - 32) else Some r)"

definition DecodeSecret :: "string \<Rightarrow> otp_error + bytes" where
  "DecodeSecret encoded =
     (let cleaned = strings_Map clean_secret encoded
      in if cleaned = [] then Inl ErrSecret_empty
         else case base32_decode cleaned of
                None \<Rightarrow> Inl ErrSecret_base32
              | Some secret \<Rightarrow> if secret = [] then Inl (ErrSecret_short cleaned) else Inr secret)"

section \<open>The time-based code\<close>

record totp =
  Digits :: int
  Period :: duration
  Skew :: "64 word"

definition Default :: totp where
  "Default = \<lparr>Digits = DefaultDigits, Period = 30 * Second, Skew = 1\<rparr>"

definition TOTP_Resolve :: "totp \<Rightarrow> totp" where
  "TOTP_Resolve t = (if t = \<lparr>Digits = 0, Period = 0, Skew = 0\<rparr> then Default else t)"

definition TOTP_Validate :: "totp \<Rightarrow> otp_error option" where
  "TOTP_Validate t0 =
     (let t = TOTP_Resolve t0
      in if Digits t < MinDigits \<or> Digits t > MaxDigits then Some (ErrDigits (Digits t))
         else if Period t < Second \<or> Period t smod Second \<noteq> 0 then Some (ErrPeriod (Period t))
         else None)"

definition TOTP_step :: "totp \<Rightarrow> instant \<Rightarrow> otp_error + 64 word" where
  "TOTP_step t at =
     (let seconds = at div Second
      in if seconds < 0 then Inl (ErrTime at)
         else Inr (word_of_int seconds div word_of_int (Period t sdiv Second)))"

definition TOTP_Generate :: "(bytes \<Rightarrow> bytes \<Rightarrow> bytes) \<Rightarrow> totp \<Rightarrow> bytes \<Rightarrow> instant \<Rightarrow> otp_error + string" where
  "TOTP_Generate mac t0 secret at =
     (let t = TOTP_Resolve t0
      in case TOTP_Validate t of
           Some e \<Rightarrow> Inl e
         | None \<Rightarrow>
             (case TOTP_step t at of
                Inl e \<Rightarrow> Inl e
              | Inr step \<Rightarrow> HOTP mac secret step (Digits t)))"

text \<open>The walk over the window: \<open>matched\<close> is the last step whose code was the one given.\<close>

partial_function (option) verify_loop ::
    "(bytes \<Rightarrow> bytes \<Rightarrow> bytes) \<Rightarrow> bytes \<Rightarrow> string \<Rightarrow> int \<Rightarrow> 64 word \<Rightarrow> 64 word \<Rightarrow> (64 word) option \<Rightarrow>
     (otp_error + (64 word) option) option" where
  "verify_loop mac secret code digits step final matched =
     (if step \<le> final
      then case HOTP mac secret step digits of
             Inl e \<Rightarrow> Some (Inl e)
           | Inr candidate \<Rightarrow>
               verify_loop mac secret code digits (step + 1) final (if candidate = code then Some step else matched)
      else Some (Inr matched))"

declare verify_loop.simps [code]

definition TOTP_Verify ::
    "(bytes \<Rightarrow> bytes \<Rightarrow> bytes) \<Rightarrow> totp \<Rightarrow> bytes \<Rightarrow> string \<Rightarrow> instant \<Rightarrow> (otp_error + 64 word) option" where
  "TOTP_Verify mac t0 secret code at =
     (let t = TOTP_Resolve t0
      in case TOTP_Validate t of
           Some e \<Rightarrow> Some (Inl e)
         | None \<Rightarrow>
             if int (length code) \<noteq> Digits t then Some (Inl (ErrMismatch_length (int (length code)) (Digits t)))
             else (case TOTP_step t at of
                     Inl e \<Rightarrow> Some (Inl e)
                   | Inr center \<Rightarrow>
                       (case verify_loop mac secret code (Digits t) (center - min center (Skew t)) (center + Skew t) None of
                          None \<Rightarrow> None
                        | Some (Inl e) \<Rightarrow> Some (Inl e)
                        | Some (Inr None) \<Rightarrow> Some (Inl ErrMismatch)
                        | Some (Inr (Some step)) \<Rightarrow> Some (Inr step))))"


section \<open>Codes and their length\<close>

lemma dynamic_truncate_bound: "dynamic_truncate digest = Some v \<Longrightarrow> v < 0x80000000"
  by (auto simp: dynamic_truncate_def Let_def split: if_splits intro: le_less_trans [OF word_and_le1])

lemma dynamic_truncate_sha1: "length digest = 20 \<Longrightarrow> \<exists>v. dynamic_truncate digest = Some v"
proof -
  assume "length digest = 20"
  moreover have "of_char (last digest) mod 16 < (16 :: nat)" by simp
  ultimately show ?thesis by (cases "digest = []") (simp_all add: dynamic_truncate_def Let_def)
qed

lemma show_nat_length: "n < 10 ^ Suc k \<Longrightarrow> length (show_nat n) \<le> Suc k"
proof (induction k arbitrary: n)
  case (Suc k)
  have "n div 10 < 10 ^ Suc k" using Suc.prems by (simp add: div_less_iff_less_mult)
  then show ?case using Suc.IH [of "n div 10"] by (subst show_nat.simps) simp
qed (subst show_nat.simps, simp)

lemma pow10_nth: "n \<le> 8 \<Longrightarrow> unat (pow10 ! n) = 10 ^ n"
proof -
  assume "n \<le> 8"
  then have "n \<in> {0, 1, 2, 3, 4, 5, 6, 7, 8}" by auto
  then show ?thesis by (auto simp: pow10_def)
qed

lemma format_code_length:
  assumes "MinDigits \<le> digits" "digits \<le> MaxDigits"
  shows "length (format_code v digits) = nat digits" and "list_all is_digit (format_code v digits)"
proof -
  obtain k where k: "nat digits = Suc k" "Suc k \<le> 8"
    using assms by (cases "nat digits") (auto simp: MinDigits_def MaxDigits_def)
  have "unat (v mod (pow10 ! Suc k)) < 10 ^ Suc k"
    using pow10_nth [OF k(2)] by (simp add: unat_mod)
  then have "length (show_nat (unat (v mod (pow10 ! Suc k)))) \<le> Suc k" by (rule show_nat_length)
  then show "length (format_code v digits) = nat digits" by (simp add: format_code_def zero_padded_def k)
  show "list_all is_digit (format_code v digits)"
    using show_nat_digits by (auto simp: format_code_def zero_padded_def list_all_iff is_digit_def)
qed

lemma HOTP_length: "HOTP mac secret n digits = Inr code \<Longrightarrow> int (length code) = digits \<and> list_all is_digit code"
  using format_code_length [of digits]
  by (auto simp: HOTP_def MinDigits_def MaxDigits_def split: if_splits option.splits)

text \<open>A digest of SHA-1 has twenty bytes; then a code can always be computed.\<close>

definition sha1_sized :: "(bytes \<Rightarrow> bytes \<Rightarrow> bytes) \<Rightarrow> bool" where
  "sha1_sized mac \<longleftrightarrow> (\<forall>k m. length (mac k m) = 20)"

lemma HOTP_sha1:
  assumes "sha1_sized mac" "secret \<noteq> []" "MinDigits \<le> digits" "digits \<le> MaxDigits"
  shows "\<exists>code. HOTP mac secret n digits = Inr code"
  using assms dynamic_truncate_sha1 [of "mac secret (big_endian 8 (unat n))"] by (auto simp: HOTP_def sha1_sized_def)

section \<open>The window\<close>

definition accepted_steps :: "(bytes \<Rightarrow> bytes \<Rightarrow> bytes) \<Rightarrow> bytes \<Rightarrow> string \<Rightarrow> int \<Rightarrow> nat \<Rightarrow> nat \<Rightarrow> (64 word) list" where
  "accepted_steps mac secret code digits first final =
     filter (\<lambda>n. HOTP mac secret n digits = Inr code) (map of_nat [first..<Suc final])"

lemma verify_loop_walks:
  assumes can: "\<And>n. \<exists>c. HOTP mac secret n digits = Inr c" and "unat final < 2 ^ 64 - 1"
  shows "verify_loop mac secret code digits first final matched =
    Some (Inr (if accepted_steps mac secret code digits (unat first) (unat final) = [] then matched
               else Some (last (accepted_steps mac secret code digits (unat first) (unat final)))))"
proof (induction "Suc (unat final) - unat first" arbitrary: first matched)
  case 0
  then have "\<not> first \<le> final" by (simp add: word_le_nat_alt)
  moreover have "accepted_steps mac secret code digits (unat first) (unat final) = []"
    using 0 by (simp add: accepted_steps_def)
  ultimately show ?case by (subst verify_loop.simps) simp
next
  case (Suc d)
  then have le: "first \<le> final" "unat first \<le> unat final" by (simp_all add: word_le_nat_alt)
  have succ: "unat (first + 1) = Suc (unat first)"
    using le assms(2) by (simp add: unat_word_ariths)
  obtain c where c: "HOTP mac secret first digits = Inr c" using can by blast
  have split: "[unat first..<Suc (unat final)] = unat first # [Suc (unat first)..<Suc (unat final)]"
    using le(2) by (simp add: upt_conv_Cons)
  have rest: "accepted_steps mac secret code digits (unat first) (unat final) =
     (if c = code then [first] else []) @ accepted_steps mac secret code digits (unat (first + 1)) (unat final)"
    unfolding accepted_steps_def split succ by (simp add: c)
  have "verify_loop mac secret code digits first final matched =
     verify_loop mac secret code digits (first + 1) final (if c = code then Some first else matched)"
    by (subst verify_loop.simps) (simp add: le c)
  then show ?case using Suc.hyps(1) [of "first + 1"] Suc.hyps(2) succ rest by auto
qed

text \<open>A window that reaches the last step there is has no end: the counter wraps around to step zero.\<close>

lemma verify_loop_wraps:
  assumes "verify_loop mac secret code digits first (- 1) matched = Some r"
  shows "\<exists>e. r = Inl e"
proof -
  let ?P = "\<lambda>(_ :: bytes \<Rightarrow> bytes \<Rightarrow> bytes) (_ :: bytes) (_ :: string) (_ :: int) (_ :: 64 word) (final :: 64 word)
    (_ :: (64 word) option) (r :: otp_error + (64 word) option). final = - 1 \<longrightarrow> (\<exists>e. r = Inl e)"
  have "?P mac secret code digits first (- 1) matched r"
  proof (rule verify_loop.raw_induct [of ?P, OF _ assms])
    fix loop mac secret code digits step final matched r
    assume IH: "\<And>mac secret code digits step final matched r.
        loop mac secret code digits step final matched = Some r \<Longrightarrow> ?P mac secret code digits step final matched r"
      and body: "(if step \<le> final
        then case HOTP mac secret step digits of
               Inl e \<Rightarrow> Some (Inl e)
             | Inr candidate \<Rightarrow> loop mac secret code digits (step + 1) final (if candidate = code then Some step else matched)
        else Some (Inr matched)) = Some r"
    show "?P mac secret code digits step final matched r"
    proof
      assume "final = - 1"
      then have "step \<le> final" by simp
      then show "\<exists>e. r = Inl e" using body IH \<open>final = - 1\<close> by (auto split: sum.splits)
    qed
  qed
  then show ?thesis by simp
qed

lemma accepted_steps_iff:
  assumes "final < 2 ^ 64"
  shows "n \<in> set (accepted_steps mac secret code digits first final) \<longleftrightarrow>
    first \<le> unat n \<and> unat n \<le> final \<and> HOTP mac secret n digits = Inr code"
proof -
  have "unat (of_nat m :: 64 word) = m" if "m \<le> final" for m
    using that assms by (simp add: unat_of_nat)
  moreover have whole: "of_nat (unat n) = n" by simp
  ultimately have "(\<exists>m. first \<le> m \<and> m \<le> final \<and> n = of_nat m) \<longleftrightarrow> first \<le> unat n \<and> unat n \<le> final"
    by (metis whole)
  then show ?thesis by (auto simp: accepted_steps_def)
qed

lemma TOTP_Resolve_idem [simp]: "TOTP_Resolve (TOTP_Resolve t) = TOTP_Resolve t"
  by (simp add: TOTP_Resolve_def Default_def DefaultDigits_def)

lemma TOTP_Validate_Resolve [simp]: "TOTP_Validate (TOTP_Resolve t) = TOTP_Validate t"
  by (simp add: TOTP_Validate_def Let_def)

lemma unat_window:
  fixes center skew :: "64 word"
  assumes "unat center + unat skew < 2 ^ 64 - (1 :: nat)"
  shows "unat (center + skew) = unat center + unat skew" "unat (center - min center skew) = unat center - unat skew"
proof -
  show "unat (center + skew) = unat center + unat skew" using assms by (simp add: unat_word_ariths)
  show "unat (center - min center skew) = unat center - unat skew"
    by (cases "center \<le> skew") (simp_all add: unat_sub word_le_nat_alt min_def)
qed

text \<open>Where the window does not wrap, \<^verbatim>\<open>Verify\<close> returns the last step of it whose code is the one given.\<close>

lemma TOTP_Verify_window:
  assumes mac: "sha1_sized mac" and "secret \<noteq> []" "TOTP_Validate t = None"
    and "int (length code) = Digits (TOTP_Resolve t)" "TOTP_step (TOTP_Resolve t) at = Inr center"
    and room: "unat center + unat (Skew (TOTP_Resolve t)) < 2 ^ 64 - 1"
  shows "TOTP_Verify mac t secret code at = Some (let steps = accepted_steps mac secret code (Digits (TOTP_Resolve t))
      (unat center - unat (Skew (TOTP_Resolve t))) (unat center + unat (Skew (TOTP_Resolve t)))
    in if steps = [] then Inl ErrMismatch else Inr (last steps))"
proof -
  let ?t = "TOTP_Resolve t"
  have "MinDigits \<le> Digits ?t" "Digits ?t \<le> MaxDigits"
    using assms(3) by (auto simp: TOTP_Validate_def Let_def split: if_splits)
  then have can: "\<exists>c. HOTP mac secret n (Digits ?t) = Inr c" for n using HOTP_sha1 [OF mac assms(2)] by blast
  have "unat (center + Skew ?t) < 2 ^ 64 - 1" using unat_window(1) [OF room] room by simp
  then show ?thesis
    using assms(3-5) verify_loop_walks [OF can, of "center + Skew ?t" code "center - min center (Skew ?t)" None]
    by (simp add: TOTP_Verify_def Let_def unat_window [OF room])
qed

text \<open>The code one side generates is accepted by the other while their clocks are within the skew.\<close>

lemma TOTP_Generate_verifies:
  assumes mac: "sha1_sized mac" and gen: "TOTP_Generate mac t secret at' = Inr code"
    and step: "TOTP_step (TOTP_Resolve t) at = Inr center" "TOTP_step (TOTP_Resolve t) at' = Inr there"
    and room: "unat center + unat (Skew (TOTP_Resolve t)) < 2 ^ 64 - 1"
    and near: "unat center \<le> unat there + unat (Skew (TOTP_Resolve t))" "unat there \<le> unat center + unat (Skew (TOTP_Resolve t))"
  shows "\<exists>step. TOTP_Verify mac t secret code at = Some (Inr step) \<and>
    HOTP mac secret step (Digits (TOTP_Resolve t)) = Inr code"
proof -
  let ?t = "TOTP_Resolve t"
  let ?steps = "accepted_steps mac secret code (Digits ?t) (unat center - unat (Skew ?t)) (unat center + unat (Skew ?t))"
  have valid: "TOTP_Validate t = None" and h: "HOTP mac secret there (Digits ?t) = Inr code"
    using gen step(2) by (auto simp: TOTP_Generate_def Let_def split: option.splits)
  have len: "int (length code) = Digits ?t" "secret \<noteq> []"
    using HOTP_length [OF h] h by (auto simp: HOTP_def)
  have small: "unat center + unat (Skew ?t) < 2 ^ 64" using room by simp
  have "there \<in> set ?steps" unfolding accepted_steps_iff [OF small] using near h by simp
  then have "last ?steps \<in> set ?steps" "?steps \<noteq> []" by (auto intro: last_in_set)
  then show ?thesis
    using TOTP_Verify_window [OF mac len(2) valid len(1) step(1) room]
    unfolding accepted_steps_iff [OF small] by (simp add: Let_def)
qed

text \<open>A step \<^verbatim>\<open>Verify\<close> returns is in the window and has the code given.\<close>

lemma TOTP_Verify_sound:
  assumes mac: "sha1_sized mac" and v: "TOTP_Verify mac t secret code at = Some (Inr step)"
    and center: "TOTP_step (TOTP_Resolve t) at = Inr center"
    and room: "unat center + unat (Skew (TOTP_Resolve t)) < 2 ^ 64 - 1"
  shows "unat center - unat (Skew (TOTP_Resolve t)) \<le> unat step \<and> unat step \<le> unat center + unat (Skew (TOTP_Resolve t)) \<and>
    HOTP mac secret step (Digits (TOTP_Resolve t)) = Inr code"
proof -
  let ?t = "TOTP_Resolve t"
  let ?first = "center - min center (Skew ?t)" and ?final = "center + Skew ?t"
  let ?steps = "accepted_steps mac secret code (Digits ?t) (unat center - unat (Skew ?t)) (unat center + unat (Skew ?t))"
  have valid: "TOTP_Validate t = None" "int (length code) = Digits ?t"
    and loop: "verify_loop mac secret code (Digits ?t) ?first ?final None = Some (Inr (Some step))"
    using v center by (auto simp: TOTP_Verify_def Let_def split: option.splits if_splits sum.splits)
  have "?first \<le> ?final" by (simp add: word_le_nat_alt unat_window [OF room])
  then have secret: "secret \<noteq> []"
    using loop by (subst (asm) verify_loop.simps) (auto simp: HOTP_def)
  have small: "unat center + unat (Skew ?t) < 2 ^ 64" using room by simp
  have "step = last ?steps" "?steps \<noteq> []"
    using TOTP_Verify_window [OF mac secret valid center room] v by (auto simp: Let_def split: if_splits)
  then have "step \<in> set ?steps" by simp
  then show ?thesis unfolding accepted_steps_iff [OF small] .
qed

text \<open>With the default configuration the window never reaches the last step: \<^verbatim>\<open>Verify\<close> always returns.\<close>

lemma default_step_bound: "TOTP_step Default at = Inr center \<Longrightarrow> unat center + 1 < 2 ^ 64 - 1"
proof -
  assume "TOTP_step Default at = Inr center"
  then have "center = word_of_int (at div Second) div 30"
    by (auto simp: TOTP_step_def Default_def Let_def split: if_splits)
  then have "unat center = unat (word_of_int (at div Second) :: 64 word) div 30" by (simp add: unat_div)
  moreover have "unat (word_of_int (at div Second) :: 64 word) < 2 ^ 64" using unsigned_less [of "word_of_int (at div Second) :: 64 word"] by simp
  ultimately show ?thesis by simp
qed

lemma TOTP_Verify_default:
  assumes "sha1_sized mac" "TOTP_Verify mac \<lparr>Digits = 0, Period = 0, Skew = 0\<rparr> secret code at = Some (Inr step)"
  shows "\<exists>center. TOTP_step Default at = Inr center \<and> unat center \<le> unat step + 1 \<and> unat step \<le> unat center + 1 \<and>
    HOTP mac secret step DefaultDigits = Inr code"
proof -
  let ?t = "\<lparr>Digits = 0, Period = 0, Skew = 0\<rparr>"
  have d: "TOTP_Resolve ?t = Default" "Skew Default = 1" "Digits Default = DefaultDigits"
    by (simp_all add: TOTP_Resolve_def Default_def)
  obtain center where center: "TOTP_step Default at = Inr center"
    using assms(2) d(1) by (auto simp: TOTP_Verify_def Let_def split: option.splits if_splits sum.splits)
  have room: "unat center + unat (1 :: 64 word) < 2 ^ 64 - 1" using default_step_bound [OF center] by simp
  have "unat center - unat (1 :: 64 word) \<le> unat step \<and> unat step \<le> unat center + unat (1 :: 64 word) \<and>
      HOTP mac secret step DefaultDigits = Inr code"
    using TOTP_Verify_sound [OF assms, unfolded d, OF center room] .
  then show ?thesis using center by auto
qed

section \<open>A secret survives its text\<close>

lemma number_of_bytes_snoc: "number_of_bytes (bs @ [b]) = number_of_bytes bs * 256 + of_char b"
  by (induction bs) (simp_all add: algebra_simps)

lemma number_of_bytes_zeros: "number_of_bytes (bs @ replicate k (CHR 0x00)) = number_of_bytes bs * 256 ^ k"
proof (induction k)
  case (Suc k)
  have "bs @ replicate (Suc k) (CHR 0x00) = (bs @ replicate k (CHR 0x00)) @ [CHR 0x00]"
    by (simp add: replicate_append_same)
  then show ?case using Suc by (simp only: number_of_bytes_snoc) simp
qed simp

lemma big_endian_number: "big_endian (length bs) (number_of_bytes bs) = bs"
  by (induction bs rule: rev_induct) (simp_all add: number_of_bytes_snoc)

lemma number_of_bytes_bound: "number_of_bytes bs < 256 ^ length bs"
proof (induction bs rule: rev_induct)
  case (snoc b bs)
  have less: "x * 256 + y < 256 * p" if "x < p" "y < 256" for x y p :: nat
  proof -
    have "Suc x * 256 \<le> p * 256" using that(1) by (intro mult_le_mono1) simp
    then show ?thesis using that(2) by simp
  qed
  have "of_char b < (256 :: nat)" by simp
  then show ?case using less [OF snoc] by (simp add: number_of_bytes_snoc)
qed simp

lemma length_base32_digits [simp]: "length (base32_digits w n) = w"
  by (induction w arbitrary: n) simp_all

lemma base32_digits_bound: "d \<in> set (base32_digits w n) \<Longrightarrow> d < 32"
  by (induction w arbitrary: n) auto

lemma base32_digits_value: "foldl (\<lambda>n d. n * 32 + d) 0 (base32_digits w n) = n mod 32 ^ w"
proof (induction w arbitrary: n)
  case (Suc w)
  have "n mod 32 ^ Suc w = n div 32 mod 32 ^ w * 32 + n mod 32" by (simp add: mod_mult2_eq)
  then show ?case using Suc by simp
qed simp

lemma base32_digits_zeros: "base32_digits (a + b) (m * 32 ^ b) = base32_digits a m @ replicate b 0"
proof (induction b arbitrary: m)
  case (Suc b)
  have "m * 32 ^ Suc b div 32 = m * 32 ^ b" "m * 32 ^ Suc b mod 32 = 0" by simp_all
  then show ?case using Suc by (simp add: replicate_append_same)
qed simp

text \<open>The characters of a last group of one to four bytes stand for all the bits that are set.\<close>

lemma group_shift:
  assumes "n \<in> {1, 2, 3, 4, 5 :: nat}"
  shows "\<exists>c. (256 :: nat) ^ (5 - n) = c * 32 ^ (8 - group_length n)" and "group_length n \<in> {2, 4, 5, 7, 8}"
    and "5 * group_length n div 8 = n" and "group_length n \<le> 8"
proof -
  have "(256 :: nat) ^ (5 - n) = (if n = 1 then 4 else if n = 2 then 16 else if n = 3 then 2 else if n = 4 then 8 else 1) *
      32 ^ (8 - group_length n)"
    using assms by (auto simp: group_length_def)
  then show "\<exists>c. (256 :: nat) ^ (5 - n) = c * 32 ^ (8 - group_length n)" by blast
qed (use assms in \<open>auto simp: group_length_def\<close>)

definition group_digits :: "bytes \<Rightarrow> nat list" where
  "group_digits bs = take (group_length (length bs)) (base32_digits 8 (number_of_bytes (bs @ replicate (5 - length bs) (CHR 0x00))))"

lemma bytes_of_group_digits:
  assumes "bs \<noteq> []" "length bs \<le> 5"
  shows "bytes_of_group (group_digits bs) = bs" and "length (group_digits bs) = group_length (length bs)"
proof -
  let ?n = "length bs" and ?m = "group_length (length bs)"
  let ?N = "number_of_bytes (bs @ replicate (5 - ?n) (CHR 0x00))"
  have "?n = 1 \<or> ?n = 2 \<or> ?n = 3 \<or> ?n = 4 \<or> ?n = 5" using assms length_0_conv [of bs] by linarith
  then have n: "?n \<in> {1, 2, 3, 4, 5}" by blast
  obtain c where c: "(256 :: nat) ^ (5 - ?n) = c * 32 ^ (8 - ?m)" using group_shift(1) [OF n] by blast
  have "?N = number_of_bytes bs * c * 32 ^ (8 - ?m)" by (simp add: number_of_bytes_zeros c)
  then have all: "base32_digits 8 ?N = base32_digits ?m (number_of_bytes bs * c) @ replicate (8 - ?m) 0"
    using base32_digits_zeros [of ?m "8 - ?m" "number_of_bytes bs * c"] group_shift(4) [OF n] by simp
  then have ds: "group_digits bs @ replicate (8 - ?m) 0 = base32_digits 8 ?N" by (simp add: group_digits_def)
  show len: "length (group_digits bs) = ?m" using group_shift(4) [OF n] by (simp add: group_digits_def)
  have bound: "?N < 32 ^ 8"
    using number_of_bytes_bound [of "bs @ replicate (5 - ?n) (CHR 0x00)"] assms(2) by simp
  have "foldl (\<lambda>n d. n * 32 + d) 0 (group_digits bs @ replicate (8 - ?m) 0) = ?N"
    unfolding ds base32_digits_value using bound by simp
  moreover have "big_endian 5 ?N = bs @ replicate (5 - ?n) (CHR 0x00)"
    using big_endian_number [of "bs @ replicate (5 - ?n) (CHR 0x00)"] assms(2) by simp
  ultimately show "bytes_of_group (group_digits bs) = bs"
    using group_shift(2,3) [OF n] by (simp add: bytes_of_group_def len)
qed

lemma index_of_nth: "distinct xs \<Longrightarrow> d < length xs \<Longrightarrow> index_of (xs ! d) xs = Some d"
proof (induction xs arbitrary: d)
  case (Cons x xs)
  then show ?case by (cases d) auto
qed simp

lemma base32_alphabet_facts: "distinct base32_alphabet" "length base32_alphabet = 32"
  by (simp_all add: base32_alphabet_def)

lemma values_of_append: "values_of (s @ t) = (case values_of s of None \<Rightarrow> None | Some a \<Rightarrow> map_option ((@) a) (values_of t))"
  by (induction s) (cases "values_of t"; auto split: option.splits)+

lemma values_of_alphabet: "\<forall>d \<in> set ds. d < 32 \<Longrightarrow> values_of (map ((!) base32_alphabet) ds) = Some ds"
  by (induction ds) (simp_all add: index_of_nth base32_alphabet_facts)

lemma encode_group_values: "values_of (encode_group bs) = Some (group_digits bs)"
  unfolding encode_group_def group_digits_def
  by (rule values_of_alphabet) (auto dest: in_set_takeD base32_digits_bound)

lemma base32_round_trip: "\<exists>ds. values_of (base32_encode bs) = Some ds \<and> decode_groups ds = bs"
proof (induction bs rule: base32_encode.induct)
  case (1 bs)
  show ?case
  proof (cases "bs = []")
    case True
    then show ?thesis by (simp add: base32_encode.simps decode_groups.simps)
  next
    case False
    obtain ds where ds: "values_of (base32_encode (drop 5 bs)) = Some ds" "decode_groups ds = drop 5 bs"
      using 1 False by blast
    let ?g = "group_digits (take 5 bs)"
    have group: "bytes_of_group ?g = take 5 bs" "length ?g = group_length (length (take 5 bs))"
      using bytes_of_group_digits [of "take 5 bs"] False by simp_all
    have "take 8 (?g @ ds) = ?g \<and> drop 8 (?g @ ds) = ds \<and> ?g \<noteq> []"
    proof (cases "5 \<le> length bs")
      case True
      then show ?thesis using group(2) by (auto simp: group_length_def)
    next
      case short: False
      then have "ds = []" using ds(1) by (simp add: base32_encode.simps [of "[]"])
      then show ?thesis using short False group(2) by (cases bs) (auto simp: group_length_def)
    qed
    then have "decode_groups (?g @ ds) = bs"
      using group(1) ds(2) by (simp add: decode_groups.simps [of "?g @ ds"])
    then show ?thesis
      using ds(1) False by (simp add: base32_encode.simps [of bs] values_of_append encode_group_values)
  qed
qed

lemma encode_group_alphabet: "set (encode_group bs) \<subseteq> set base32_alphabet"
  by (auto simp: encode_group_def dest!: in_set_takeD base32_digits_bound intro!: nth_mem simp: base32_alphabet_facts)

lemma base32_encode_alphabet: "set (base32_encode bs) \<subseteq> set base32_alphabet"
proof (induction bs rule: base32_encode.induct)
  case (1 bs)
  then show ?case using encode_group_alphabet by (subst base32_encode.simps) auto
qed

lemma alphabet_plain:
  "c \<in> set base32_alphabet \<Longrightarrow> of_char c < (0x80 :: nat) \<and> clean_secret (of_char c) = Some (of_char c) \<and>
   c \<noteq> CHR 0x0A \<and> c \<noteq> CHR 0x0D"
proof -
  have "list_all (\<lambda>c. of_char c < (0x80 :: nat) \<and> clean_secret (of_char c) = Some (of_char c) \<and>
      c \<noteq> CHR 0x0A \<and> c \<noteq> CHR 0x0D) base32_alphabet"
    by (simp add: base32_alphabet_def clean_secret_def)
  then show "c \<in> set base32_alphabet \<Longrightarrow> ?thesis" by (simp add: list_all_iff)
qed

lemma clean_plain: "set s \<subseteq> set base32_alphabet \<Longrightarrow> strings_Map clean_secret s = s"
proof (induction s)
  case (Cons c s)
  have ascii: "\<forall>c \<in> set (c # s). of_char c < (0x80 :: nat)" using Cons.prems alphabet_plain by blast
  then have "range_runes (c # s) = of_char c # range_runes s" using range_ascii [of "c # s"] range_ascii [of s] by simp
  then show ?case
    using Cons alphabet_plain [of c] encode_ascii [of c]
    by (simp add: strings_Map_def encode_runes_def List.map_filter_def)
qed (simp add: strings_Map_def range_runes.simps encode_runes_def List.map_filter_def)

text \<open>What is shown to a person is read back as the secret it came from.\<close>

lemma DecodeSecret_EncodeSecret: "secret \<noteq> [] \<Longrightarrow> DecodeSecret (EncodeSecret secret) = Inr secret"
proof -
  assume secret: "secret \<noteq> []"
  obtain ds where ds: "values_of (base32_encode secret) = Some ds" "decode_groups ds = secret"
    using base32_round_trip by blast
  have "filter (\<lambda>c. c \<noteq> CHR 0x0A \<and> c \<noteq> CHR 0x0D) (base32_encode secret) = base32_encode secret"
    using base32_encode_alphabet alphabet_plain by (intro filter_True) blast
  then have "base32_decode (base32_encode secret) = Some secret" using ds by (simp add: base32_decode_def)
  moreover have "base32_encode secret \<noteq> []" using ds secret by (auto simp: decode_groups.simps)
  ultimately show ?thesis
    using secret clean_plain [OF base32_encode_alphabet] by (simp add: DecodeSecret_def EncodeSecret_def Let_def)
qed

end
