(* ===== verification/Two_Factor.thy ===== *)
theory Two_Factor
  imports Otp
begin

text \<open>
  The second factor, \<^verbatim>\<open>src/2fa/\<close>: the check of an authenticator's code against a guard that remembers
  which steps were spent (\<^verbatim>\<open>verify.go\<close>), recovery codes (\<^verbatim>\<open>recovery.go\<close>) and the URI an authenticator
  application is enrolled with (\<^verbatim>\<open>provisioning.go\<close>). What a guard promises is the locale
  \<open>replay_guard\<close>; the enrolments of \<open>Account_Factors\<close> keep it.
\<close>

section \<open>The check\<close>

datatype 'e twofactor_error =
    ErrNotConfigured_guard
  | ErrNotConfigured_subject
  | ErrNotConfigured_spend 'e
  | ErrInvalidCode otp_error
  | ErrReplayed
  | Unusable otp_error

text \<open>\<^verbatim>\<open>errors.Is(err, otp.ErrMismatch)\<close>.\<close>

fun is_mismatch :: "otp_error \<Rightarrow> bool" where
  "is_mismatch ErrMismatch = True"
| "is_mismatch (ErrMismatch_length _ _) = True"
| "is_mismatch _ = False"

text \<open>\<^verbatim>\<open>unicode.ToUpper\<close>; the table past ASCII is an argument.\<close>

definition ToUpper :: "(rune \<Rightarrow> rune) \<Rightarrow> rune \<Rightarrow> rune" where
  "ToUpper upper r = (if r < 0x80 then if 97 \<le> r \<and> r \<le> 122 then r - 32 else r else upper r)"

definition NormalizeCode :: "(rune \<Rightarrow> rune) \<Rightarrow> string \<Rightarrow> string" where
  "NormalizeCode upper code =
     strings_Map (\<lambda>r. if IsSpace r \<or> r = 45 then None else Some (ToUpper upper r)) code"

text \<open>A guard answers whether a step was still free for a subject, or that it cannot tell.\<close>

type_synonym ('e, 'g) replay_guard = "string \<Rightarrow> 64 word \<Rightarrow> 'g \<Rightarrow> ('e + bool) \<times> 'g"

text \<open>The answer is \<open>None\<close> where the check of the code does not end; the error is the inner option.\<close>

definition Authenticator_Verify ::
    "(bytes \<Rightarrow> bytes \<Rightarrow> bytes) \<Rightarrow> (rune \<Rightarrow> rune) \<Rightarrow> totp \<Rightarrow> ('e, 'g) replay_guard option \<Rightarrow> instant \<Rightarrow>
     string \<Rightarrow> bytes \<Rightarrow> string \<Rightarrow> 'g \<Rightarrow> 'e twofactor_error option option \<times> 'g" where
  "Authenticator_Verify mac upper t guard now subject secret code g =
     (case guard of
        None \<Rightarrow> (Some (Some ErrNotConfigured_guard), g)
      | Some Spend \<Rightarrow>
          if subject = [] then (Some (Some ErrNotConfigured_subject), g)
          else (case TOTP_Verify mac t secret (NormalizeCode upper code) now of
                  None \<Rightarrow> (None, g)
                | Some (Inl e) \<Rightarrow> (Some (Some (if is_mismatch e then ErrInvalidCode e else Unusable e)), g)
                | Some (Inr step) \<Rightarrow>
                    (case Spend subject step g of
                       (Inl e, g) \<Rightarrow> (Some (Some (ErrNotConfigured_spend e)), g)
                     | (Inr fresh, g) \<Rightarrow> (Some (if \<not> fresh then Some ErrReplayed else None), g))))"

section \<open>Recovery codes\<close>

definition RecoveryCodeLength :: nat where "RecoveryCodeLength = 10"

definition DefaultRecoveryCodes :: int where "DefaultRecoveryCodes = 8"

definition recoveryAlphabet :: string where
  "recoveryAlphabet = ''ABCDEFGHJKLMNPQRSTUVWXYZ23456789''"

definition recovery_code_of :: "bytes \<Rightarrow> string" where
  "recovery_code_of buf = map (\<lambda>c. recoveryAlphabet ! (of_char c mod length recoveryAlphabet)) buf"

text \<open>The bytes the random source fills the buffer with are an argument.\<close>

definition GenerateRecoveryCodes :: "bytes \<Rightarrow> int \<Rightarrow> int + string list" where
  "GenerateRecoveryCodes buf n =
     (if n \<le> 0 then Inl n
      else Inr (map (\<lambda>i. recovery_code_of (take RecoveryCodeLength (drop (i * RecoveryCodeLength) buf))) [0..<nat n]))"

section \<open>Enrolling an application\<close>

record provisioning =
  pIssuer :: string
  pAccount :: string
  pSecret :: bytes
  pTOTP :: totp

datatype provisioning_error =
    EmptyName bool
  | ColonName bool
  | ControlName bool
  | EmptySecret
  | BadTOTP otp_error

definition isControl :: "rune \<Rightarrow> bool" where
  "isControl r \<longleftrightarrow> r < 0x20 \<or> r = 0x7f"

definition check_name :: "bool \<Rightarrow> string \<Rightarrow> provisioning_error option" where
  "check_name issuer v =
     (if v = [] then Some (EmptyName issuer)
      else if CHR '':'' \<in> set v then Some (ColonName issuer)
      else if list_ex isControl (range_runes v) then Some (ControlName issuer)
      else None)"

text \<open>The two names are ranged over as a map, in an order that is an argument.\<close>

definition Provisioning_validate :: "bool \<Rightarrow> provisioning \<Rightarrow> provisioning_error option" where
  "Provisioning_validate issuer_first p =
     (let names = (if issuer_first then [(True, pIssuer p), (False, pAccount p)] else [(False, pAccount p), (True, pIssuer p)])
      in case List.map_filter (\<lambda>(issuer, v). check_name issuer v) names of
           e # _ \<Rightarrow> Some e
         | [] \<Rightarrow>
             if pSecret p = [] then Some EmptySecret
             else map_option BadTOTP (TOTP_Validate (pTOTP p)))"

definition isUnreserved :: "char \<Rightarrow> bool" where
  "isUnreserved c \<longleftrightarrow> (let n = (of_char c :: nat) in
     65 \<le> n \<and> n \<le> 90 \<or> 97 \<le> n \<and> n \<le> 122 \<or> 48 \<le> n \<and> n \<le> 57 \<or>
     c = CHR ''-'' \<or> c = CHR ''.'' \<or> c = CHR ''_'' \<or> c = CHR ''~'')"

definition upper_hex :: "nat \<Rightarrow> char" where
  "upper_hex d = (if d < 10 then char_of (48 + d) else char_of (55 + d))"

definition labelSafe :: string where "labelSafe = ''@''"

definition escape :: "string \<Rightarrow> string \<Rightarrow> string" where
  "escape s also_safe = concat (map (\<lambda>c.
     if isUnreserved c \<or> c \<in> set also_safe then [c]
     else [CHR ''%'', upper_hex (of_char c div 16), upper_hex (of_char c mod 16)]) s)"

definition Provisioning_URI :: "bool \<Rightarrow> provisioning \<Rightarrow> provisioning_error + string" where
  "Provisioning_URI issuer_first p =
     (case Provisioning_validate issuer_first p of
        Some e \<Rightarrow> Inl e
      | None \<Rightarrow>
          let config = TOTP_Resolve (pTOTP p)
          in Inr (''otpauth://totp/'' @ escape (pIssuer p) labelSafe @ '':'' @ escape (pAccount p) labelSafe @
                  ''?secret='' @ EncodeSecret (pSecret p) @ ''&issuer='' @ escape (pIssuer p) [] @ ''&algorithm=SHA1'' @
                  ''&digits='' @ format_int (Digits config) @ ''&period='' @ format_int (Period config sdiv Second)))"

section \<open>What a guard promises\<close>

text \<open>A step it answers for was free, and from then on it is spent; a step that is spent stays so.\<close>

locale replay_guard =
  fixes Spend :: "('e, 'g) replay_guard" and spent :: "'g \<Rightarrow> string \<Rightarrow> 64 word \<Rightarrow> bool"
  assumes spend_fresh: "Spend subject step g = (Inr True, g') \<Longrightarrow> \<not> spent g subject step \<and> spent g' subject step"
    and spent_stays: "spent g subject step \<Longrightarrow> spent (snd (Spend subject' step' g)) subject step"
begin

lemma Verify_accepts:
  assumes "Authenticator_Verify mac upper t (Some Spend) now subject secret code g = (Some None, g')"
  shows "\<exists>step. TOTP_Verify mac t secret (NormalizeCode upper code) now = Some (Inr step) \<and>
    \<not> spent g subject step \<and> spent g' subject step"
  using assms spend_fresh
  by (fastforce simp: Authenticator_Verify_def split: if_splits option.splits sum.splits prod.splits)

lemma Verify_keeps_spent:
  assumes "spent g subject step"
  shows "spent (snd (Authenticator_Verify mac upper t (Some Spend) now subject' secret code g)) subject step"
proof -
  have "Spend s st g = (r, g') \<Longrightarrow> spent g' subject step" for s st r g'
    using spent_stays [OF assms, of s st] by simp
  then show ?thesis
    using assms by (auto simp: Authenticator_Verify_def split: option.splits sum.splits prod.splits)
qed

end

section \<open>Names in a URI\<close>

text \<open>Reading an escaped name gives it back, so no name can pass for another or add a parameter.\<close>

fun hex_value :: "char \<Rightarrow> nat" where
  "hex_value c = (let n = of_char c in if n < 65 then n - 48 else n - 55)"

fun unescape :: "string \<Rightarrow> string" where
  "unescape [] = []"
| "unescape (c # cs) =
     (if c = CHR ''%'' then (case cs of a # b # rest \<Rightarrow> char_of (16 * hex_value a + hex_value b) # unescape rest | _ \<Rightarrow> [])
      else c # unescape cs)"

lemma hex_value_upper: "d < 16 \<Longrightarrow> hex_value (upper_hex d) = d"
  by (auto simp: upper_hex_def Let_def)

lemma unescape_escape: "CHR ''%'' \<notin> set also_safe \<Longrightarrow> unescape (escape s also_safe) = s"
proof (induction s)
  case (Cons c s)
  have low: "of_char c div 16 < (16 :: nat)" "of_char c mod 16 < (16 :: nat)"
    by (simp_all add: div_less_iff_less_mult)
  have "(16 :: nat) * (of_char c div 16) + of_char c mod 16 = of_char c" by simp
  then have "char_of (16 * hex_value (upper_hex (of_char c div 16)) + hex_value (upper_hex (of_char c mod 16))) = c"
    by (simp add: hex_value_upper low del: hex_value.simps)
  moreover have "\<not> isUnreserved (CHR ''%'')" by (simp add: isUnreserved_def)
  ultimately show ?case using Cons by (auto simp: escape_def simp del: hex_value.simps)
qed (simp add: escape_def)

lemma escape_plain: "c \<in> set (escape s also_safe) \<Longrightarrow> isUnreserved c \<or> c \<in> set also_safe \<or> c = CHR ''%''"
proof -
  have "isUnreserved (upper_hex d)" if "d < 16" for d
    using that by (auto simp: upper_hex_def isUnreserved_def Let_def)
  moreover have "of_char x div 16 < (16 :: nat)" for x :: char by (simp add: div_less_iff_less_mult)
  ultimately show "c \<in> set (escape s also_safe) \<Longrightarrow> isUnreserved c \<or> c \<in> set also_safe \<or> c = CHR ''%''"
    by (auto simp: escape_def split: if_splits)
qed

text \<open>A recovery code is in the form \<^verbatim>\<open>NormalizeCode\<close> gives, so what is stored is what a form sends.\<close>

lemma recovery_alphabet_plain:
  "c \<in> set recoveryAlphabet \<Longrightarrow> of_char c < (0x80 :: nat) \<and> \<not> IsSpace (of_char c) \<and> of_char c \<noteq> (45 :: nat) \<and>
   ToUpper upper (of_char c) = of_char c"
  by (auto simp: recoveryAlphabet_def IsSpace_def ToUpper_def)

lemma NormalizeCode_plain: "set s \<subseteq> set recoveryAlphabet \<Longrightarrow> NormalizeCode upper s = s"
proof (induction s)
  case (Cons c s)
  have ascii: "\<forall>c \<in> set (c # s). of_char c < (0x80 :: nat)" using Cons.prems recovery_alphabet_plain by blast
  then have "range_runes (c # s) = of_char c # range_runes s" using range_ascii [of "c # s"] range_ascii [of s] by simp
  then show ?case
    using Cons recovery_alphabet_plain [of c upper] encode_ascii [of c]
    by (simp add: NormalizeCode_def strings_Map_def encode_runes_def List.map_filter_def)
qed (simp add: NormalizeCode_def strings_Map_def range_runes.simps encode_runes_def List.map_filter_def)

lemma recovery_codes_canonical:
  assumes "GenerateRecoveryCodes buf n = Inr codes" "code \<in> set codes"
  shows "NormalizeCode upper code = code"
proof (rule NormalizeCode_plain)
  have "recoveryAlphabet ! (of_char c mod length recoveryAlphabet) \<in> set recoveryAlphabet" for c :: char
    by (rule nth_mem) (simp add: recoveryAlphabet_def)
  then show "set code \<subseteq> set recoveryAlphabet"
    using assms by (auto simp: GenerateRecoveryCodes_def recovery_code_of_def split: if_splits)
qed

end
