(* ===== verification/Account_Factors.thy ===== *)
theory Account_Factors
  imports Two_Factor Array_Store
begin

text \<open>
  The second factor of an application's accounts, \<^verbatim>\<open>src/auth/account/enrolment.go\<close> and \<^verbatim>\<open>factors.go\<close>:
  the conditional writes on the two tables, enrolling, confirming, disabling and resetting a factor,
  recovery codes, and the sign-in challenge with its budget. A table is the list of its rows; what a
  statement of the model layer checks before it reaches the server is \<open>builder_read\<close> and
  \<open>builder_write\<close>, of \<^verbatim>\<open>src/database/model/builder.go\<close>. The server runs one statement at a time and may
  refuse any of them: the refusals to come are part of the state. The readers of accounts, the
  encrypter and the password hash are arguments.
\<close>

section \<open>Tables\<close>

record two_factor =
  tfUserID :: string
  tfTenantID :: string
  tfSecret :: string
  tfConfirmedAt :: "instant option"
  tfLastUsedStep :: int
  tfCreatedAt :: instant

definition twoFactor_enabled :: "two_factor \<Rightarrow> bool" where
  "twoFactor_enabled t = (case tfConfirmedAt t of None \<Rightarrow> False | Some at \<Rightarrow> at \<noteq> zero_time)"

record recovery_row =
  rcID :: string
  rcTenantID :: string
  rcUserID :: string
  rcCodeHash :: string
  rcUsedAt :: "instant option"
  rcCreatedAt :: instant

record account =
  AccountID :: string
  AccountTenant :: string
  AccountEmail :: string
  AccountName :: string

text \<open>A row of the outbox; its ordered id is its place in the list.\<close>

record outbox_row =
  obTenant :: string
  obEvent :: string
  obAggregate :: string
  obAggregateID :: string
  obPayload :: account
  obAuthorizedBy :: string
  obAction :: action
  obOccurredAt :: instant
  obImpersonator :: "string option"

datatype factor_error =
    AuthError auth_error
  | ErrNoTenant
  | NoTenantForEvent
  | DatabaseError string
  | ErrUniqueViolation
  | ErrTwoFactorNotEnrolled
  | ErrTwoFactorAlreadyEnabled
  | ErrInvalidRecoveryCode
  | TwoFactorLocked duration
  | EmptySecretRefused
  | EmptyHashRefused
  | Unencryptable
  | Undecryptable
  | SecretError otp_error
  | HashingFailed
  | RecoveryCount int
  | CheckError "factor_error twofactor_error"
  | ProvisioningError provisioning_error
  | CountingFailed cache_error
  | NoAccount string

record factor_db =
  fd_factors :: "two_factor list"
  fd_codes :: "recovery_row list"
  fd_outbox :: "outbox_row list"
  fd_faults :: "string option list"

section \<open>Statements\<close>

text \<open>One statement of the server, which may refuse it.\<close>

definition server :: "(factor_db \<Rightarrow> (factor_error + 'a) \<times> factor_db) \<Rightarrow> factor_db \<Rightarrow> (factor_error + 'a) \<times> factor_db" where
  "server run d =
     (case fd_faults d of
        [] \<Rightarrow> run d
      | None # rest \<Rightarrow> run (d\<lparr>fd_faults := rest\<rparr>)
      | Some e # rest \<Rightarrow> (Inl (DatabaseError e), d\<lparr>fd_faults := rest\<rparr>))"

definition builder_read ::
    "grant \<Rightarrow> (string \<Rightarrow> factor_db \<Rightarrow> (factor_error + 'a) \<times> factor_db) \<Rightarrow> factor_db \<Rightarrow> (factor_error + 'a) \<times> factor_db" where
  "builder_read g run d =
     (let tenant = Tenant g
      in if tenant = [] \<or> \<not> ValidTenant tenant then (Inl ErrNoTenant, d) else server (run tenant) d)"

definition builder_write ::
    "grant \<Rightarrow> (string \<Rightarrow> factor_db \<Rightarrow> (factor_error + 'a) \<times> factor_db) \<Rightarrow> factor_db \<Rightarrow> (factor_error + 'a) \<times> factor_db" where
  "builder_write g run d =
     (case Writable g of
        Some e \<Rightarrow> (Inl (AuthError e), d)
      | None \<Rightarrow> builder_read g run d)"

text \<open>A transaction keeps what its statements wrote when the body and the commit succeed, and nothing
  otherwise.\<close>

definition Transaction :: "(factor_db \<Rightarrow> (factor_error + 'a) \<times> factor_db) \<Rightarrow> factor_db \<Rightarrow> (factor_error + 'a) \<times> factor_db" where
  "Transaction fn d =
     (case server (\<lambda>d. (Inr (), d)) d of
        (Inl e, d) \<Rightarrow> (Inl e, d)
      | (Inr _, d) \<Rightarrow>
          (case fn d of
             (Inl e, d') \<Rightarrow> (Inl e, d\<lparr>fd_faults := fd_faults d'\<rparr>)
           | (Inr x, d') \<Rightarrow>
               (case server (\<lambda>d. (Inr x, d)) d' of
                  (Inl e, d'') \<Rightarrow> (Inl e, d\<lparr>fd_faults := fd_faults d''\<rparr>)
                | (Inr x, d'') \<Rightarrow> (Inr x, d''))))"

definition Check :: "grant \<Rightarrow> action \<Rightarrow> (factor_db \<Rightarrow> (factor_error + 'a) \<times> factor_db) \<Rightarrow> factor_db \<Rightarrow> (factor_error + 'a) \<times> factor_db" where
  "Check g a body d = (case Grant_Check g a of Some e \<Rightarrow> (Inl (AuthError e), d) | None \<Rightarrow> body d)"

section \<open>Enrolments\<close>

definition ActionTwoFactorRead :: action where "ActionTwoFactorRead = ''user.two-factor.read''"
definition ActionTwoFactorManage :: action where "ActionTwoFactorManage = ''user.two-factor.manage''"
definition ActionTwoFactorReset :: action where "ActionTwoFactorReset = ''user.two-factor.reset''"

definition is_row :: "string \<Rightarrow> string \<Rightarrow> two_factor \<Rightarrow> bool" where
  "is_row tenant userID r \<longleftrightarrow> tfTenantID r = tenant \<and> tfUserID r = userID"

definition enrolments_find :: "grant \<Rightarrow> string \<Rightarrow> factor_db \<Rightarrow> (factor_error + two_factor) \<times> factor_db" where
  "enrolments_find g userID = Check g ActionTwoFactorRead (builder_read g (\<lambda>tenant d.
     (case find (is_row tenant userID) (fd_factors d) of
        None \<Rightarrow> Inl ErrTwoFactorNotEnrolled
      | Some r \<Rightarrow> Inr r, d)))"

text \<open>The primary key is the account's id alone: an insert is refused when any tenant holds it.\<close>

definition insert_factor :: "grant \<Rightarrow> instant \<Rightarrow> string \<Rightarrow> string \<Rightarrow> factor_db \<Rightarrow> (factor_error + unit) \<times> factor_db" where
  "insert_factor g now userID secret = builder_write g (\<lambda>tenant d.
     if list_ex (\<lambda>r. tfUserID r = userID) (fd_factors d) then (Inl ErrUniqueViolation, d)
     else (Inr (), d\<lparr>fd_factors := fd_factors d @
       [\<lparr>tfUserID = userID, tfTenantID = tenant, tfSecret = secret, tfConfirmedAt = None, tfLastUsedStep = 0,
         tfCreatedAt = now\<rparr>]\<rparr>))"

definition enrolments_enrol :: "grant \<Rightarrow> instant \<Rightarrow> string \<Rightarrow> string \<Rightarrow> factor_db \<Rightarrow> (factor_error + unit) \<times> factor_db" where
  "enrolments_enrol g now userID secret = Check g ActionTwoFactorManage (\<lambda>d.
     if secret = [] then (Inl EmptySecretRefused, d)
     else case builder_write g (\<lambda>tenant d.
                 (Inr (), d\<lparr>fd_factors := filter (\<lambda>r. \<not> (is_row tenant userID r \<and> tfConfirmedAt r = None)) (fd_factors d)\<rparr>)) d of
            (Inl e, d) \<Rightarrow> (Inl e, d)
          | (Inr _, d) \<Rightarrow>
              (case insert_factor g now userID secret d of
                 (Inl e, d) \<Rightarrow> (Inl (if e = ErrUniqueViolation then ErrTwoFactorAlreadyEnabled else e), d)
               | (Inr _, d) \<Rightarrow> (Inr (), d)))"

text \<open>A conditional write: the rows it changed are counted.\<close>

definition update_factors ::
    "grant \<Rightarrow> string \<Rightarrow> (two_factor \<Rightarrow> bool) \<Rightarrow> (two_factor \<Rightarrow> two_factor) \<Rightarrow> factor_db \<Rightarrow> (factor_error + nat) \<times> factor_db" where
  "update_factors g userID P f = builder_write g (\<lambda>tenant d.
     let hit = (\<lambda>r. is_row tenant userID r \<and> P r)
     in (Inr (length (filter hit (fd_factors d))), d\<lparr>fd_factors := map (\<lambda>r. if hit r then f r else r) (fd_factors d)\<rparr>))"

definition enrolments_confirm :: "grant \<Rightarrow> string \<Rightarrow> instant \<Rightarrow> factor_db \<Rightarrow> (factor_error + bool) \<times> factor_db" where
  "enrolments_confirm g userID at = Check g ActionTwoFactorManage (\<lambda>d.
     case update_factors g userID (\<lambda>r. tfConfirmedAt r = None) (\<lambda>r. r\<lparr>tfConfirmedAt := Some at\<rparr>) d of
       (Inl e, d) \<Rightarrow> (Inl e, d)
     | (Inr changed, d) \<Rightarrow> (Inr (changed = 1), d))"

definition enrolments_required :: "grant \<Rightarrow> string \<Rightarrow> factor_db \<Rightarrow> (factor_error + bool) \<times> factor_db" where
  "enrolments_required g userID = Check g ActionTwoFactorRead (\<lambda>d.
     case enrolments_find g userID d of
       (Inl e, d) \<Rightarrow> (if e = ErrTwoFactorNotEnrolled then Inr False else Inl e, d)
     | (Inr factor, d) \<Rightarrow> (Inr (twoFactor_enabled factor), d))"

definition delete_codes :: "grant \<Rightarrow> string \<Rightarrow> factor_db \<Rightarrow> (factor_error + unit) \<times> factor_db" where
  "delete_codes g userID = builder_write g (\<lambda>tenant d.
     (Inr (), d\<lparr>fd_codes := filter (\<lambda>c. \<not> (rcTenantID c = tenant \<and> rcUserID c = userID)) (fd_codes d)\<rparr>))"

definition enrolments_disable :: "grant \<Rightarrow> string \<Rightarrow> factor_db \<Rightarrow> (factor_error + unit) \<times> factor_db" where
  "enrolments_disable g userID = Check g ActionTwoFactorManage (\<lambda>d.
     case delete_codes g userID d of
       (Inl e, d) \<Rightarrow> (Inl e, d)
     | (Inr _, d) \<Rightarrow>
         (case builder_write g (\<lambda>tenant d.
                 (Inr (length (filter (is_row tenant userID) (fd_factors d))),
                  d\<lparr>fd_factors := filter (\<lambda>r. \<not> is_row tenant userID r) (fd_factors d)\<rparr>)) d of
            (Inl e, d) \<Rightarrow> (Inl e, d)
          | (Inr removed, d) \<Rightarrow> (if removed \<noteq> 1 then Inl ErrTwoFactorNotEnrolled else Inr (), d)))"

text \<open>\<^verbatim>\<open>int64(step)\<close>.\<close>

definition enrolments_spendStep :: "grant \<Rightarrow> string \<Rightarrow> 64 word \<Rightarrow> factor_db \<Rightarrow> (factor_error + bool) \<times> factor_db" where
  "enrolments_spendStep g userID step = Check g ActionTwoFactorManage (\<lambda>d.
     case update_factors g userID (\<lambda>r. tfLastUsedStep r < sint step) (\<lambda>r. r\<lparr>tfLastUsedStep := sint step\<rparr>) d of
       (Inl e, d) \<Rightarrow> (Inl e, d)
     | (Inr changed, d) \<Rightarrow> (Inr (changed = 1), d))"

definition replayGuard_Spend :: "grant \<Rightarrow> (factor_error, factor_db) replay_guard" where
  "replayGuard_Spend g subject step d = enrolments_spendStep g subject step d"

section \<open>Recovery codes\<close>

text \<open>What the package is given: HMAC-SHA-1, the case table and the printable runes past ASCII, the encrypter, the password hash,
  and the reader of accounts.\<close>

record factor_env =
  fe_mac :: "bytes \<Rightarrow> bytes \<Rightarrow> bytes"
  fe_upper :: "rune \<Rightarrow> rune"
  fe_print :: "rune \<Rightarrow> bool"
  fe_encrypt :: "string \<Rightarrow> string option"
  fe_decrypt :: "string \<Rightarrow> string option"
  fe_hash :: "string \<Rightarrow> string option"
  fe_check :: "string \<Rightarrow> string \<Rightarrow> bool"
  fe_Owner :: "subject \<Rightarrow> factor_error + account"
  fe_FindForAuthentication :: "string \<Rightarrow> string \<Rightarrow> factor_error + account"

definition recoveryCodePrefix :: string where "recoveryCodePrefix = ''arandu:two-factor-recovery:''"

definition recoveryCodeMaterial :: "factor_env \<Rightarrow> string \<Rightarrow> string" where
  "recoveryCodeMaterial E code = recoveryCodePrefix @ NormalizeCode (fe_upper E) code"

definition hashRecoveryCode :: "factor_env \<Rightarrow> string \<Rightarrow> factor_error + string" where
  "hashRecoveryCode E code =
     (case fe_hash E (recoveryCodeMaterial E code) of None \<Rightarrow> Inl HashingFailed | Some h \<Rightarrow> Inr h)"

definition recoveryCodeMatches :: "factor_env \<Rightarrow> string \<Rightarrow> string \<Rightarrow> bool" where
  "recoveryCodeMatches E code h = fe_check E (recoveryCodeMaterial E code) h"

fun hash_all :: "factor_env \<Rightarrow> string list \<Rightarrow> factor_error + string list" where
  "hash_all E [] = Inr []"
| "hash_all E (code # codes) =
     (case hashRecoveryCode E code of
        Inl e \<Rightarrow> Inl e
      | Inr h \<Rightarrow> (case hash_all E codes of Inl e \<Rightarrow> Inl e | Inr hs \<Rightarrow> Inr (h # hs)))"

definition recoveryCodes :: "factor_env \<Rightarrow> bytes \<Rightarrow> factor_error + string list \<times> string list" where
  "recoveryCodes E random =
     (case GenerateRecoveryCodes random DefaultRecoveryCodes of
        Inl n \<Rightarrow> Inl (RecoveryCount n)
      | Inr codes \<Rightarrow> (case hash_all E codes of Inl e \<Rightarrow> Inl e | Inr hashes \<Rightarrow> Inr (codes, hashes)))"

text \<open>The id an insert generates is an argument.\<close>

fun insert_codes :: "grant \<Rightarrow> instant \<Rightarrow> string \<Rightarrow> (string \<times> string) list \<Rightarrow> factor_db \<Rightarrow> (factor_error + unit) \<times> factor_db" where
  "insert_codes g now userID [] d = (Inr (), d)"
| "insert_codes g now userID ((code_hash, row_id) # rest) d =
     (if code_hash = [] then (Inl EmptyHashRefused, d)
      else case builder_write g (\<lambda>tenant d.
                  if list_ex (\<lambda>c. rcID c = row_id) (fd_codes d) then (Inl ErrUniqueViolation, d)
                  else (Inr (), d\<lparr>fd_codes := fd_codes d @
                    [\<lparr>rcID = row_id, rcTenantID = tenant, rcUserID = userID, rcCodeHash = code_hash, rcUsedAt = None,
                      rcCreatedAt = now\<rparr>]\<rparr>)) d of
             (Inl e, d) \<Rightarrow> (Inl e, d)
           | (Inr _, d) \<Rightarrow> insert_codes g now userID rest d)"

definition replaceRecoveryCodes ::
    "grant \<Rightarrow> instant \<Rightarrow> string list \<Rightarrow> string \<Rightarrow> string list \<Rightarrow> factor_db \<Rightarrow> (factor_error + unit) \<times> factor_db" where
  "replaceRecoveryCodes g now ids userID hashes = Check g ActionTwoFactorManage (\<lambda>d.
     case delete_codes g userID d of
       (Inl e, d) \<Rightarrow> (Inl e, d)
     | (Inr _, d) \<Rightarrow> insert_codes g now userID (zip hashes ids) d)"

definition consumeRecoveryCode ::
    "factor_env \<Rightarrow> grant \<Rightarrow> instant \<Rightarrow> string \<Rightarrow> string \<Rightarrow> factor_db \<Rightarrow> (factor_error + bool) \<times> factor_db" where
  "consumeRecoveryCode E g now userID code = Check g ActionTwoFactorManage (\<lambda>d.
     if NormalizeCode (fe_upper E) code = [] then (Inr False, d)
     else case builder_read g (\<lambda>tenant d. (Inr (filter (\<lambda>c. rcTenantID c = tenant \<and> rcUserID c = userID \<and> rcUsedAt c = None)
                 (fd_codes d)), d)) d of
            (Inl e, d) \<Rightarrow> (Inl e, d)
          | (Inr unspent, d) \<Rightarrow>
              (case find (\<lambda>c. recoveryCodeMatches E code (rcCodeHash c)) unspent of
                 None \<Rightarrow> (Inr False, d)
               | Some candidate \<Rightarrow>
                   (case builder_write g (\<lambda>tenant d.
                           let hit = (\<lambda>c. rcTenantID c = tenant \<and> rcID c = rcID candidate \<and> rcUserID c = userID \<and> rcUsedAt c = None)
                           in (Inr (length (filter hit (fd_codes d))),
                               d\<lparr>fd_codes := map (\<lambda>c. if hit c then c\<lparr>rcUsedAt := Some now\<rparr> else c) (fd_codes d)\<rparr>)) d of
                      (Inl e, d) \<Rightarrow> (Inl e, d)
                    | (Inr changed, d) \<Rightarrow> (Inr (changed = 1), d))))"

section \<open>Factors\<close>

definition zero_totp :: totp where "zero_totp = \<lparr>Digits = 0, Period = 0, Skew = 0\<rparr>"

definition enrolmentPolicy_Can :: "subject \<Rightarrow> action \<Rightarrow> two_factor \<Rightarrow> string option" where
  "enrolmentPolicy_Can subject a factor =
     (if tfTenantID factor \<noteq> [] \<and> tfTenantID factor \<noteq> sTenant subject then Some ''resource belongs to another tenant''
      else if (a = ActionTwoFactorRead \<or> a = ActionTwoFactorManage) \<and> sID subject \<noteq> [] \<and> sID subject = tfUserID factor
      then None
      else Some (''insufficient role for '' @ a))"

definition enrolmentPolicy :: "two_factor policy" where
  "enrolmentPolicy = \<lparr>p_can = enrolmentPolicy_Can, p_writes = None\<rparr>"

text \<open>The decision of the package's policy; the collector of the request is left out.\<close>

definition factor_grant :: "subject \<Rightarrow> action \<Rightarrow> two_factor \<Rightarrow> factor_error + grant" where
  "factor_grant actor a factor =
     (case Authorize False enrolmentPolicy actor a factor [] of
        (g, None, _) \<Rightarrow> Inr g
      | (_, Some e, _) \<Rightarrow> Inl (AuthError e))"

definition own_factor :: "subject \<Rightarrow> two_factor" where
  "own_factor actor = \<lparr>tfUserID = sID actor, tfTenantID = sTenant actor, tfSecret = [], tfConfirmedAt = None,
     tfLastUsedStep = 0, tfCreatedAt = zero_time\<rparr>"

definition Factors_record ::
    "grant \<Rightarrow> instant \<Rightarrow> string \<Rightarrow> account \<Rightarrow> factor_db \<Rightarrow> (factor_error + unit) \<times> factor_db" where
  "Factors_record g now name user d =
     (case Writable g of
        Some e \<Rightarrow> (Inl (AuthError e), d)
      | None \<Rightarrow>
          if Tenant g = [] then (Inl NoTenantForEvent, d)
          else server (\<lambda>d. (Inr (), d\<lparr>fd_outbox := fd_outbox d @
            [\<lparr>obTenant = Tenant g, obEvent = name, obAggregate = ''user'', obAggregateID = AccountID user, obPayload = user,
              obAuthorizedBy = sID (g_subject g), obAction = g_action g, obOccurredAt = now,
              obImpersonator = map_option sID (Grant_Impersonator g)\<rparr>]\<rparr>)) d)"

definition encryptSecret :: "factor_env \<Rightarrow> bytes \<Rightarrow> factor_error + string" where
  "encryptSecret E secret = (case fe_encrypt E (EncodeSecret secret) of None \<Rightarrow> Inl Unencryptable | Some p \<Rightarrow> Inr p)"

definition decryptSecret :: "factor_env \<Rightarrow> string \<Rightarrow> factor_error + bytes" where
  "decryptSecret E payload =
     (case fe_decrypt E payload of
        None \<Rightarrow> Inl Undecryptable
      | Some encoded \<Rightarrow> (case DecodeSecret encoded of Inl e \<Rightarrow> Inl (SecretError e) | Inr secret \<Rightarrow> Inr secret))"

definition Factors_Required :: "string \<Rightarrow> string \<Rightarrow> factor_db \<Rightarrow> (factor_error + bool) \<times> factor_db" where
  "Factors_Required tenant userID d = enrolments_required (SystemGrant ActionTwoFactorRead tenant) userID d"

definition Factors_Enabled :: "subject \<Rightarrow> factor_db \<Rightarrow> (factor_error + bool) \<times> factor_db" where
  "Factors_Enabled actor d =
     (case factor_grant actor ActionTwoFactorRead (own_factor actor) of
        Inl e \<Rightarrow> (Inl e, d)
      | Inr read \<Rightarrow> enrolments_required read (sID actor) d)"

definition Factors_Begin ::
    "factor_env \<Rightarrow> instant \<Rightarrow> bytes \<Rightarrow> bool \<Rightarrow> subject \<Rightarrow> string \<Rightarrow> factor_db \<Rightarrow> (factor_error + provisioning) \<times> factor_db" where
  "Factors_Begin E now random issuer_first actor issuer d =
     (case factor_grant actor ActionTwoFactorManage (own_factor actor) of
        Inl e \<Rightarrow> (Inl e, d)
      | Inr manage \<Rightarrow>
          (case fe_Owner E actor of
             Inl e \<Rightarrow> (Inl e, d)
           | Inr user \<Rightarrow>
               let p = \<lparr>pIssuer = issuer, pAccount = AccountEmail user, pSecret = NewSecret random,
                        pTOTP = zero_totp\<rparr>
               in case Provisioning_URI issuer_first p of
                    Inl e \<Rightarrow> (Inl (ProvisioningError e), d)
                  | Inr _ \<Rightarrow>
                      (case encryptSecret E (pSecret p) of
                         Inl e \<Rightarrow> (Inl e, d)
                       | Inr secret \<Rightarrow>
                           (case Transaction (enrolments_enrol manage now (sID actor) secret) d of
                              (Inl e, d) \<Rightarrow> (Inl e, d)
                            | (Inr _, d) \<Rightarrow> (Inr p, d)))))"

definition check_code ::
    "factor_env \<Rightarrow> instant \<Rightarrow> grant \<Rightarrow> string \<Rightarrow> bytes \<Rightarrow> string \<Rightarrow> factor_db \<Rightarrow> factor_error option option \<times> factor_db" where
  "check_code E now manage userID secret code d =
     (case Authenticator_Verify (fe_mac E) (fe_upper E) zero_totp (Some (replayGuard_Spend manage)) now userID secret code d of
        (r, d) \<Rightarrow> (map_option (map_option CheckError) r, d))"

text \<open>What \<^verbatim>\<open>Confirm\<close> and \<^verbatim>\<open>RegenerateRecoveryCodes\<close> begin with: the enrolment of the subject, decided about twice.\<close>

definition managed_enrolment ::
    "factor_env \<Rightarrow> subject \<Rightarrow> factor_db \<Rightarrow> (factor_error + account \<times> two_factor \<times> grant) \<times> factor_db" where
  "managed_enrolment E actor d =
     (case factor_grant actor ActionTwoFactorRead (own_factor actor) of
        Inl e \<Rightarrow> (Inl e, d)
      | Inr read \<Rightarrow>
          (case fe_Owner E actor of
             Inl e \<Rightarrow> (Inl e, d)
           | Inr user \<Rightarrow>
               (case enrolments_find read (AccountID user) d of
                  (Inl e, d) \<Rightarrow> (Inl e, d)
                | (Inr enrolment, d) \<Rightarrow>
                    (case factor_grant actor ActionTwoFactorRead enrolment of
                       Inl e \<Rightarrow> (Inl e, d)
                     | Inr _ \<Rightarrow>
                         (case factor_grant actor ActionTwoFactorManage enrolment of
                            Inl e \<Rightarrow> (Inl e, d)
                          | Inr manage \<Rightarrow> (Inr (user, enrolment, manage), d))))))"

definition Factors_Confirm ::
    "factor_env \<Rightarrow> instant \<Rightarrow> bytes \<Rightarrow> string list \<Rightarrow> subject \<Rightarrow> string \<Rightarrow> factor_db \<Rightarrow>
     (factor_error + string list) option \<times> factor_db" where
  "Factors_Confirm E now random ids actor code d =
     (case managed_enrolment E actor d of
        (Inl e, d) \<Rightarrow> (Some (Inl e), d)
      | (Inr (user, enrolment, manage), d) \<Rightarrow>
          if twoFactor_enabled enrolment then (Some (Inl ErrTwoFactorAlreadyEnabled), d)
          else (case decryptSecret E (tfSecret enrolment) of
                  Inl e \<Rightarrow> (Some (Inl e), d)
                | Inr secret \<Rightarrow>
                    (case check_code E now manage (AccountID user) secret code d of
                       (None, d) \<Rightarrow> (None, d)
                     | (Some (Some e), d) \<Rightarrow> (Some (Inl e), d)
                     | (Some None, d) \<Rightarrow>
                         (case recoveryCodes E random of
                            Inl e \<Rightarrow> (Some (Inl e), d)
                          | Inr (codes, hashes) \<Rightarrow>
                              (case Transaction (\<lambda>d.
                                      case enrolments_confirm manage (AccountID user) now d of
                                        (Inl e, d) \<Rightarrow> (Inl e, d)
                                      | (Inr won, d) \<Rightarrow>
                                          if \<not> won then (Inl ErrTwoFactorAlreadyEnabled, d)
                                          else (case replaceRecoveryCodes manage now ids (AccountID user) hashes d of
                                                  (Inl e, d) \<Rightarrow> (Inl e, d)
                                                | (Inr _, d) \<Rightarrow> Factors_record manage now ''auth.two_factor.enabled'' user d)) d of
                                 (Inl e, d) \<Rightarrow> (Some (Inl e), d)
                               | (Inr _, d) \<Rightarrow> (Some (Inr codes), d))))))"

text \<open>The removal \<^verbatim>\<open>Disable\<close> and \<^verbatim>\<open>Reset\<close> share.\<close>

definition remove_factor :: "grant \<Rightarrow> instant \<Rightarrow> string \<Rightarrow> account \<Rightarrow> factor_db \<Rightarrow> (factor_error + unit) \<times> factor_db" where
  "remove_factor manage now event user = Transaction (\<lambda>d.
     case enrolments_disable manage (AccountID user) d of
       (Inl e, d) \<Rightarrow> (Inl e, d)
     | (Inr _, d) \<Rightarrow> Factors_record manage now event user d)"

definition Factors_Disable :: "factor_env \<Rightarrow> instant \<Rightarrow> subject \<Rightarrow> factor_db \<Rightarrow> (factor_error + unit) \<times> factor_db" where
  "Factors_Disable E now actor d =
     (case factor_grant actor ActionTwoFactorManage (own_factor actor) of
        Inl e \<Rightarrow> (Inl e, d)
      | Inr g \<Rightarrow>
          (case fe_Owner E actor of
             Inl e \<Rightarrow> (Inl e, d)
           | Inr user \<Rightarrow> remove_factor g now ''auth.two_factor.disabled'' user d))"

definition Factors_Reset :: "factor_env \<Rightarrow> instant \<Rightarrow> grant \<Rightarrow> string \<Rightarrow> factor_db \<Rightarrow> (factor_error + unit) \<times> factor_db" where
  "Factors_Reset E now authority userID = Check authority ActionTwoFactorReset (\<lambda>d.
     let tenant = Tenant authority
     in case fe_FindForAuthentication E tenant userID of
          Inl e \<Rightarrow> (Inl e, d)
        | Inr user \<Rightarrow>
            remove_factor (SystemGrant ActionTwoFactorManage tenant) now ''auth.two_factor.reset'' user d)"

definition Factors_RegenerateRecoveryCodes ::
    "factor_env \<Rightarrow> instant \<Rightarrow> bytes \<Rightarrow> string list \<Rightarrow> subject \<Rightarrow> factor_db \<Rightarrow> (factor_error + string list) \<times> factor_db" where
  "Factors_RegenerateRecoveryCodes E now random ids actor d =
     (case managed_enrolment E actor d of
        (Inl e, d) \<Rightarrow> (Inl e, d)
      | (Inr (user, enrolment, manage), d) \<Rightarrow>
          if \<not> twoFactor_enabled enrolment then (Inl ErrTwoFactorNotEnrolled, d)
          else (case recoveryCodes E random of
                  Inl e \<Rightarrow> (Inl e, d)
                | Inr (codes, hashes) \<Rightarrow>
                    (case Transaction (\<lambda>d.
                            case replaceRecoveryCodes manage now ids (AccountID user) hashes d of
                              (Inl e, d) \<Rightarrow> (Inl e, d)
                            | (Inr _, d) \<Rightarrow> Factors_record manage now ''auth.two_factor.recovery_codes.regenerated'' user d) d of
                       (Inl e, d) \<Rightarrow> (Inl e, d)
                     | (Inr _, d) \<Rightarrow> (Inr codes, d))))"

section \<open>The sign-in challenge\<close>

definition ChallengeAttempts :: int where "ChallengeAttempts = 5"

definition ChallengeWindow :: duration where "ChallengeWindow = 15 * Minute"

text \<open>\<^verbatim>\<open>strconv.Quote\<close>: a byte that is no UTF-8 is escaped by its two digits, a rune that does not print by
  its letter or its number.\<close>

fun hex_digits :: "nat \<Rightarrow> nat \<Rightarrow> string" where
  "hex_digits 0 n = []"
| "hex_digits (Suc w) n = hex_digits w (n div 16) @ [hex_digit (n mod 16)]"

definition prints :: "(rune \<Rightarrow> bool) \<Rightarrow> rune \<Rightarrow> bool" where
  "prints table r \<longleftrightarrow> (if r < 0x80 then 0x20 \<le> r \<and> r < 0x7f else table r)"

definition escaped :: "char \<Rightarrow> string" where "escaped c = [CHR 0x5C, c]"

definition quote_rune :: "(rune \<Rightarrow> bool) \<Rightarrow> string \<Rightarrow> string" where
  "quote_rune table piece =
     (case decode_rune piece of (r, width) \<Rightarrow>
        if r = RuneError \<and> width = 1 then escaped (CHR ''x'') @ hex_digits 2 (of_char (hd piece))
        else if r = 34 \<or> r = 92 then escaped (char_of r)
        else if prints table r then encode_rune r
        else if r = 7 then escaped (CHR ''a'') else if r = 8 then escaped (CHR ''b'') else if r = 12 then escaped (CHR ''f'')
        else if r = 10 then escaped (CHR ''n'') else if r = 13 then escaped (CHR ''r'') else if r = 9 then escaped (CHR ''t'') else if r = 11 then escaped (CHR ''v'')
        else if r < 0x20 \<or> r = 0x7f then escaped (CHR ''x'') @ hex_digits 2 r
        else if r < 0x10000 then escaped (CHR ''u'') @ hex_digits 4 r
        else escaped (CHR ''U'') @ hex_digits 8 r)"

definition Quote :: "(rune \<Rightarrow> bool) \<Rightarrow> string \<Rightarrow> string" where
  "Quote table s = [CHR 0x22] @ concat (map (quote_rune table) (chunks s)) @ [CHR 0x22]"

definition challengeKey :: "factor_env \<Rightarrow> string \<Rightarrow> string \<Rightarrow> string" where
  "challengeKey E tenant userID = ''two-factor-challenge:'' @ Quote (fe_print E) tenant @ '':'' @ Quote (fe_print E) userID"

text \<open>The attempt is counted first. \<open>challenge_end\<close> is what is made of the answer: the wrong code that spends
  the last attempt already refuses as locked, and a right one gives the budget back.\<close>

definition challenge_count :: "'s store \<Rightarrow> instant \<Rightarrow> string \<Rightarrow> 's \<Rightarrow> (factor_error + int) \<times> 's" where
  "challenge_count St now key s =
     (case Store_Increment St now key 1 ChallengeWindow s of
        (Inl e, s) \<Rightarrow> (Inl (CountingFailed e), s)
      | (Inr attempt, s) \<Rightarrow> (if ChallengeAttempts < attempt then Inl (TwoFactorLocked ChallengeWindow) else Inr attempt, s))"

definition challenge_refusal :: "int \<Rightarrow> factor_error \<Rightarrow> factor_error" where
  "challenge_refusal attempt e = (if attempt = ChallengeAttempts then TwoFactorLocked ChallengeWindow else e)"

definition Factors_challenge ::
    "'s store \<Rightarrow> instant \<Rightarrow> string \<Rightarrow> (factor_db \<Rightarrow> factor_error option option \<times> factor_db) \<Rightarrow> 's \<Rightarrow> factor_db \<Rightarrow>
     factor_error option option \<times> 's \<times> factor_db" where
  "Factors_challenge St now key verify s d =
     (case challenge_count St now key s of
        (Inl e, s) \<Rightarrow> (Some (Some e), s, d)
      | (Inr attempt, s) \<Rightarrow>
          (case verify d of
             (None, d) \<Rightarrow> (None, s, d)
           | (Some (Some e), d) \<Rightarrow> (Some (Some (challenge_refusal attempt e)), s, d)
           | (Some None, d) \<Rightarrow> (Some None, snd (Store_Forget St now key s), d)))"

text \<open>\<^verbatim>\<open>verifyAuthenticator\<close> in the two statements it makes: reading the secret, and checking the code, which
  spends the step.\<close>

definition read_secret :: "factor_env \<Rightarrow> string \<Rightarrow> string \<Rightarrow> factor_db \<Rightarrow> (factor_error + bytes) \<times> factor_db" where
  "read_secret E tenant userID d =
     (case enrolments_find (SystemGrant ActionTwoFactorRead tenant) userID d of
        (Inl e, d) \<Rightarrow> (Inl e, d)
      | (Inr enrolment, d) \<Rightarrow>
          (if \<not> twoFactor_enabled enrolment then Inl ErrTwoFactorNotEnrolled else decryptSecret E (tfSecret enrolment), d))"

definition Factors_verifyAuthenticator ::
    "factor_env \<Rightarrow> instant \<Rightarrow> string \<Rightarrow> string \<Rightarrow> string \<Rightarrow> factor_db \<Rightarrow> factor_error option option \<times> factor_db" where
  "Factors_verifyAuthenticator E now tenant userID code d =
     (case read_secret E tenant userID d of
        (Inl e, d) \<Rightarrow> (Some (Some e), d)
      | (Inr secret, d) \<Rightarrow> check_code E now (SystemGrant ActionTwoFactorManage tenant) userID secret code d)"

definition Factors_VerifyAuthenticator ::
    "factor_env \<Rightarrow> 's store \<Rightarrow> instant \<Rightarrow> string \<Rightarrow> string \<Rightarrow> string \<Rightarrow> 's \<Rightarrow> factor_db \<Rightarrow>
     factor_error option option \<times> 's \<times> factor_db" where
  "Factors_VerifyAuthenticator E St now tenant userID code s d =
     Factors_challenge St now (challengeKey E tenant userID) (Factors_verifyAuthenticator E now tenant userID code) s d"

definition Factors_consumeRecovery ::
    "factor_env \<Rightarrow> instant \<Rightarrow> string \<Rightarrow> string \<Rightarrow> string \<Rightarrow> factor_db \<Rightarrow> factor_error option option \<times> factor_db" where
  "Factors_consumeRecovery E now tenant userID code d =
     (case enrolments_required (SystemGrant ActionTwoFactorRead tenant) userID d of
        (Inl e, d) \<Rightarrow> (Some (Some e), d)
      | (Inr required, d) \<Rightarrow>
          if \<not> required then (Some (Some ErrTwoFactorNotEnrolled), d)
          else (case fe_FindForAuthentication E tenant userID of
                  Inl e \<Rightarrow> (Some (Some e), d)
                | Inr user \<Rightarrow>
                    let manage = SystemGrant ActionTwoFactorManage tenant
                    in case Transaction (\<lambda>d.
                              case consumeRecoveryCode E manage now (AccountID user) code d of
                                (Inl e, d) \<Rightarrow> (Inl e, d)
                              | (Inr spent, d) \<Rightarrow>
                                  if \<not> spent then (Inl ErrInvalidRecoveryCode, d)
                                  else Factors_record manage now ''auth.two_factor.recovery_code.used'' user d) d of
                         (Inl e, d) \<Rightarrow> (Some (Some e), d)
                       | (Inr _, d) \<Rightarrow> (Some None, d)))"

definition Factors_ConsumeRecovery ::
    "factor_env \<Rightarrow> 's store \<Rightarrow> instant \<Rightarrow> string \<Rightarrow> string \<Rightarrow> string \<Rightarrow> 's \<Rightarrow> factor_db \<Rightarrow>
     factor_error option option \<times> 's \<times> factor_db" where
  "Factors_ConsumeRecovery E St now tenant userID code s d =
     Factors_challenge St now (challengeKey E tenant userID) (Factors_consumeRecovery E now tenant userID code) s d"

section \<open>Requests side by side\<close>

text \<open>A call of \<^verbatim>\<open>VerifyAuthenticator\<close> makes four calls outside the process: it counts, reads, spends the step
  and clears the count. A request is such a call under way, with its local variables. Any number of
  them interleave with the other operations, with refusals of the server and with time; what removes
  an enrolment is left out.\<close>

datatype request_stage = Counting | Reading | Entering | Clearing | Hung | Answered "factor_error option"

record request =
  rq_tenant :: string
  rq_user :: string
  rq_code :: string
  rq_attempt :: int
  rq_secret :: bytes
  rq_at :: instant
  rq_stage :: request_stage

definition new_request :: "string \<Rightarrow> string \<Rightarrow> string \<Rightarrow> request" where
  "new_request tenant userID code = \<lparr>rq_tenant = tenant, rq_user = userID, rq_code = code, rq_attempt = 0,
     rq_secret = [], rq_at = 0, rq_stage = Counting\<rparr>"

definition rq_key :: "factor_env \<Rightarrow> request \<Rightarrow> string" where
  "rq_key E rq = challengeKey E (rq_tenant rq) (rq_user rq)"

definition request_step ::
    "factor_env \<Rightarrow> 's store \<Rightarrow> instant \<Rightarrow> request \<Rightarrow> 's \<Rightarrow> factor_db \<Rightarrow> request \<times> 's \<times> factor_db" where
  "request_step E St now rq s d =
     (case rq_stage rq of
        Counting \<Rightarrow>
          (case challenge_count St now (rq_key E rq) s of
             (Inl e, s) \<Rightarrow> (rq\<lparr>rq_stage := Answered (Some e)\<rparr>, s, d)
           | (Inr attempt, s) \<Rightarrow> (rq\<lparr>rq_attempt := attempt, rq_stage := Reading\<rparr>, s, d))
      | Reading \<Rightarrow>
          (case read_secret E (rq_tenant rq) (rq_user rq) d of
             (Inl e, d) \<Rightarrow> (rq\<lparr>rq_stage := Answered (Some (challenge_refusal (rq_attempt rq) e))\<rparr>, s, d)
           | (Inr secret, d) \<Rightarrow> (rq\<lparr>rq_secret := secret, rq_stage := Entering\<rparr>, s, d))
      | Entering \<Rightarrow>
          (case check_code E now (SystemGrant ActionTwoFactorManage (rq_tenant rq)) (rq_user rq) (rq_secret rq) (rq_code rq) d of
             (None, d) \<Rightarrow> (rq\<lparr>rq_stage := Hung\<rparr>, s, d)
           | (Some (Some e), d) \<Rightarrow> (rq\<lparr>rq_stage := Answered (Some (challenge_refusal (rq_attempt rq) e))\<rparr>, s, d)
           | (Some None, d) \<Rightarrow> (rq\<lparr>rq_at := now, rq_stage := Clearing\<rparr>, s, d))
      | Clearing \<Rightarrow> (rq\<lparr>rq_stage := Answered None\<rparr>, snd (Store_Forget St now (rq_key E rq) s), d)
      | Hung \<Rightarrow> (rq, s, d)
      | Answered r \<Rightarrow> (rq, s, d))"

fun run_request ::
    "nat \<Rightarrow> factor_env \<Rightarrow> 's store \<Rightarrow> instant \<Rightarrow> request \<Rightarrow> 's \<Rightarrow> factor_db \<Rightarrow> request \<times> 's \<times> factor_db" where
  "run_request 0 E St now rq s d = (rq, s, d)"
| "run_request (Suc n) E St now rq s d = (case request_step E St now rq s d of (rq, s, d) \<Rightarrow> run_request n E St now rq s d)"

definition request_answer :: "request \<Rightarrow> factor_error option option" where
  "request_answer rq = (case rq_stage rq of Answered r \<Rightarrow> Some r | _ \<Rightarrow> None)"

text \<open>A request that runs alone is the call.\<close>

lemma run_request_alone:
  "(case run_request 4 E St now (new_request tenant userID code) s d of (rq, s', d') \<Rightarrow> (request_answer rq, s', d')) =
   Factors_VerifyAuthenticator E St now tenant userID code s d"
proof -
  let ?key = "challengeKey E tenant userID"
  obtain a s1 where count: "challenge_count St now ?key s = (a, s1)" by fastforce
  obtain b d1 where read: "read_secret E tenant userID d = (b, d1)" by fastforce
  show ?thesis
    by (cases a; cases b)
      (auto simp: numeral_eq_Suc new_request_def request_step_def rq_key_def request_answer_def count read
        Factors_VerifyAuthenticator_def Factors_challenge_def Factors_verifyAuthenticator_def split: option.splits prod.splits)
qed

record 's factor_system =
  fs_now :: instant
  fs_store :: 's
  fs_db :: factor_db
  fs_requests :: "request list"

inductive factor_step :: "factor_env \<Rightarrow> 's store \<Rightarrow> 's factor_system \<Rightarrow> 's factor_system \<Rightarrow> bool"
  for E St where
  request: "i < length (fs_requests x) \<Longrightarrow>
    request_step E St (fs_now x) (fs_requests x ! i) (fs_store x) (fs_db x) = (rq, s, d) \<Longrightarrow>
    factor_step E St x (x\<lparr>fs_store := s, fs_db := d, fs_requests := (fs_requests x)[i := rq]\<rparr>)"
| recover: "Factors_ConsumeRecovery E St (fs_now x) tenant userID code (fs_store x) (fs_db x) = (r, s, d) \<Longrightarrow>
    factor_step E St x (x\<lparr>fs_store := s, fs_db := d\<rparr>)"
| enrol: "Factors_Begin E (fs_now x) random order actor issuer (fs_db x) = (r', d) \<Longrightarrow> factor_step E St x (x\<lparr>fs_db := d\<rparr>)"
| confirm: "Factors_Confirm E (fs_now x) random ids actor code (fs_db x) = (r'', d) \<Longrightarrow> factor_step E St x (x\<lparr>fs_db := d\<rparr>)"
| regenerate: "Factors_RegenerateRecoveryCodes E (fs_now x) random ids actor (fs_db x) = (r3, d) \<Longrightarrow>
    factor_step E St x (x\<lparr>fs_db := d\<rparr>)"
| outage: "factor_step E St x (x\<lparr>fs_db := (fs_db x)\<lparr>fd_faults := faults\<rparr>\<rparr>)"
| tick: "fs_now x \<le> t \<Longrightarrow> factor_step E St x (x\<lparr>fs_now := t\<rparr>)"

abbreviation factor_reaches where
  "factor_reaches E St \<equiv> (factor_step E St)\<^sup>*\<^sup>*"

section \<open>A confirmed enrolment stays\<close>

text \<open>An account has a confirmed enrolment whose last step is at least so high, and no two rows have one key.\<close>

definition factor_kept :: "string \<Rightarrow> string \<Rightarrow> string \<Rightarrow> int \<Rightarrow> factor_db \<Rightarrow> bool" where
  "factor_kept tenant userID payload n d \<longleftrightarrow> distinct (map tfUserID (fd_factors d)) \<and>
     (\<exists>r \<in> set (fd_factors d). is_row tenant userID r \<and> tfSecret r = payload \<and> twoFactor_enabled r \<and> n \<le> tfLastUsedStep r)"

definition keeps_factor :: "(factor_db \<Rightarrow> 'a \<times> factor_db) \<Rightarrow> bool" where
  "keeps_factor f \<longleftrightarrow> (\<forall>tenant userID payload n d. factor_kept tenant userID payload n d \<longrightarrow>
     factor_kept tenant userID payload n (snd (f d)))"

named_theorems keeping \<open>operations that keep every confirmed enrolment\<close>

lemma factor_kept_faults [simp]:
  "factor_kept t u p n (d\<lparr>fd_faults := fs\<rparr>) = factor_kept t u p n d"
  "factor_kept t u p n (d\<lparr>fd_codes := cs\<rparr>) = factor_kept t u p n d"
  "factor_kept t u p n (d\<lparr>fd_outbox := ob\<rparr>) = factor_kept t u p n d"
  by (simp_all add: factor_kept_def)

lemma factor_kept_rows:
  "factor_kept t u p n (d\<lparr>fd_factors := rs\<rparr>) \<longleftrightarrow> distinct (map tfUserID rs) \<and>
     (\<exists>r \<in> set rs. is_row t u r \<and> tfSecret r = p \<and> twoFactor_enabled r \<and> n \<le> tfLastUsedStep r)"
  by (simp add: factor_kept_def)

lemma keeps_return [keeping]: "keeps_factor (\<lambda>d. (x, d))" "keeps_factor (Pair x)"
  by (simp_all add: keeps_factor_def)

lemma keeps_prod [keeping]: "keeps_factor f \<Longrightarrow> (\<And>a. keeps_factor (g a)) \<Longrightarrow> keeps_factor (\<lambda>d. case f d of (a, d) \<Rightarrow> g a d)"
  unfolding keeps_factor_def by (metis (no_types, lifting) case_prod_beta)

lemma keeps_tuple [keeping]: "(\<And>a b. keeps_factor (g a b)) \<Longrightarrow> keeps_factor (\<lambda>d. case p of (a, b) \<Rightarrow> g a b d)"
  by (cases p) simp

lemma keeps_sum [keeping]:
  "(\<And>e. keeps_factor (f e)) \<Longrightarrow> (\<And>x. keeps_factor (g x)) \<Longrightarrow> keeps_factor (\<lambda>d. case a of Inl e \<Rightarrow> f e d | Inr x \<Rightarrow> g x d)"
  by (cases a) (simp_all)

lemma keeps_option [keeping]:
  "keeps_factor f \<Longrightarrow> (\<And>x. keeps_factor (g x)) \<Longrightarrow> keeps_factor (\<lambda>d. case a of None \<Rightarrow> f d | Some x \<Rightarrow> g x d)"
  by (cases a) (simp_all)

lemma keeps_if [keeping]: "keeps_factor f \<Longrightarrow> keeps_factor g \<Longrightarrow> keeps_factor (\<lambda>d. if b then f d else g d)"
  by (cases b) simp_all

lemma keeps_server [keeping]: "keeps_factor run \<Longrightarrow> keeps_factor (server run)"
  by (simp add: keeps_factor_def server_def split: list.split option.split)

lemma keeps_builder [keeping]:
  "(\<And>tenant. keeps_factor (run tenant)) \<Longrightarrow> keeps_factor (builder_read g run)"
  "(\<And>tenant. keeps_factor (run tenant)) \<Longrightarrow> keeps_factor (builder_write g run)"
proof -
  assume run: "\<And>tenant. keeps_factor (run tenant)"
  show read: "keeps_factor (builder_read g run)"
    using keeps_server [OF run] by (auto simp: keeps_factor_def builder_read_def Let_def)
  then show "keeps_factor (builder_write g run)"
    by (simp add: keeps_factor_def builder_write_def split: option.split)
qed

lemma keeps_Check [keeping]: "keeps_factor body \<Longrightarrow> keeps_factor (Check g a body)"
  by (simp add: keeps_factor_def Check_def split: option.split)

lemma keeps_Transaction [keeping]: "keeps_factor fn \<Longrightarrow> keeps_factor (Transaction fn)"
  using keeps_server [OF keeps_return(1)]
  by (fastforce simp: keeps_factor_def Transaction_def server_def split: prod.split sum.split list.split option.split)

lemma keeps_codes [keeping]: "keeps_factor (\<lambda>d. (x d, d\<lparr>fd_codes := f d\<rparr>))" "keeps_factor (\<lambda>d. (x d, d\<lparr>fd_outbox := h d\<rparr>))"
  "keeps_factor (\<lambda>d. (x d, d))"
  by (simp_all add: keeps_factor_def)

text \<open>A row that is written to keeps its key, its secret and its confirmation, and its step only rises.\<close>

lemma keeps_update [keeping]:
  assumes "\<And>r. P r \<Longrightarrow> tfUserID (f r) = tfUserID r \<and> tfTenantID (f r) = tfTenantID r \<and>
    (twoFactor_enabled r \<longrightarrow> tfSecret (f r) = tfSecret r \<and> twoFactor_enabled (f r) \<and> tfLastUsedStep r \<le> tfLastUsedStep (f r))"
  shows "keeps_factor (update_factors g userID P f)"
  unfolding update_factors_def
proof (rule keeps_builder(2))
  fix tenant
  let ?upd = "\<lambda>r. if is_row tenant userID r \<and> P r then f r else r"
  have keys: "map tfUserID (map ?upd rs) = map tfUserID rs" for rs using assms by simp
  show "keeps_factor (\<lambda>d. let hit = \<lambda>r. is_row tenant userID r \<and> P r
      in (Inr (length (filter hit (fd_factors d))), d\<lparr>fd_factors := map (\<lambda>r. if hit r then f r else r) (fd_factors d)\<rparr>))"
    unfolding keeps_factor_def Let_def snd_conv
  proof (intro allI impI)
    fix t u p n d
    assume "factor_kept t u p n d"
    then obtain r where "r \<in> set (fd_factors d)" "is_row t u r" "tfSecret r = p" "twoFactor_enabled r" "n \<le> tfLastUsedStep r"
      and dis: "distinct (map tfUserID (fd_factors d))" by (auto simp: factor_kept_def)
    then have "?upd r \<in> set (map ?upd (fd_factors d)) \<and> is_row t u (?upd r) \<and> tfSecret (?upd r) = p \<and>
        twoFactor_enabled (?upd r) \<and> n \<le> tfLastUsedStep (?upd r)"
      using assms [of r] by (auto simp: is_row_def)
    then show "factor_kept t u p n (d\<lparr>fd_factors := map ?upd (fd_factors d)\<rparr>)"
      unfolding factor_kept_rows keys using dis by blast
  qed
qed

lemma keeps_spendStep [keeping]: "keeps_factor (enrolments_spendStep g userID step)"
  unfolding enrolments_spendStep_def by (intro keeping) (auto simp: twoFactor_enabled_def)

lemma keeps_confirm [keeping]: "keeps_factor (enrolments_confirm g userID at)"
  unfolding enrolments_confirm_def by (intro keeping) (auto simp: twoFactor_enabled_def)

lemma keeps_find [keeping]: "keeps_factor (enrolments_find g userID)" "keeps_factor (enrolments_required g userID)"
  unfolding enrolments_required_def enrolments_find_def by (intro keeping)+

lemma keeps_enrol [keeping]: "keeps_factor (enrolments_enrol g now userID secret)"
proof -
  have purge: "keeps_factor (\<lambda>d. (Inr (), d\<lparr>fd_factors := filter (\<lambda>r. \<not> (is_row tenant userID r \<and> tfConfirmedAt r = None)) (fd_factors d)\<rparr>))" for tenant
    unfolding keeps_factor_def snd_conv factor_kept_rows factor_kept_def
    by (auto simp: distinct_map_filter twoFactor_enabled_def split: option.splits)
  have insert: "keeps_factor (insert_factor g now userID secret)"
    unfolding insert_factor_def
  proof (rule keeps_builder(2))
    fix tenant
    show "keeps_factor (\<lambda>d. if list_ex (\<lambda>r. tfUserID r = userID) (fd_factors d) then (Inl ErrUniqueViolation, d)
      else (Inr (), d\<lparr>fd_factors := fd_factors d @ [\<lparr>tfUserID = userID, tfTenantID = tenant, tfSecret = secret,
        tfConfirmedAt = None, tfLastUsedStep = 0, tfCreatedAt = now\<rparr>]\<rparr>))"
      unfolding keeps_factor_def by (auto simp: factor_kept_def list_ex_iff)
  qed
  show ?thesis unfolding enrolments_enrol_def by (intro keeping purge insert)
qed

lemma keeps_record [keeping]: "keeps_factor (Factors_record g now name user)"
  unfolding Factors_record_def [abs_def] by (intro keeping)

lemma keeps_delete_codes [keeping]: "keeps_factor (delete_codes g userID)"
  unfolding delete_codes_def by (intro keeping)

lemma keeps_insert_codes [keeping]: "keeps_factor (insert_codes g now userID hs)"
proof (induction hs)
  case (Cons h hs)
  obtain code_hash row_id where h: "h = (code_hash, row_id)" by (cases h)
  have row: "keeps_factor (\<lambda>d. if list_ex (\<lambda>c. rcID c = row_id) (fd_codes d) then (Inl ErrUniqueViolation, d)
      else (Inr (), d\<lparr>fd_codes := f tenant d\<rparr>))" for f tenant
    by (simp add: keeps_factor_def)
  show ?case unfolding h insert_codes.simps(2) [abs_def]
    by (intro keeping row Cons.IH)
qed (simp add: keeps_factor_def)

lemma keeps_replace [keeping]: "keeps_factor (replaceRecoveryCodes g now ids userID hs)"
  unfolding replaceRecoveryCodes_def by (intro keeping)

lemma keeps_consumeRecoveryCode [keeping]: "keeps_factor (consumeRecoveryCode E g now userID code)"
  unfolding consumeRecoveryCode_def Let_def by (intro keeping)

lemma keeps_Spend [keeping]: "keeps_factor (replayGuard_Spend g userID step)"
  unfolding replayGuard_Spend_def [abs_def] by (intro keeping)

lemma keeps_check_code [keeping]: "keeps_factor (check_code E now g userID secret code)"
  unfolding check_code_def [abs_def] Authenticator_Verify_def [abs_def] option.case by (intro keeping)

lemma keeps_managed [keeping]: "keeps_factor (managed_enrolment E actor)"
  unfolding managed_enrolment_def [abs_def] by (intro keeping)

lemma keeps_Begin [keeping]: "keeps_factor (Factors_Begin E now random order actor issuer)"
  unfolding Factors_Begin_def [abs_def] Let_def by (intro keeping)

lemma keeps_Regenerate [keeping]: "keeps_factor (Factors_RegenerateRecoveryCodes E now random ids actor)"
  unfolding Factors_RegenerateRecoveryCodes_def [abs_def] by (intro keeping)

lemma keeps_Confirm [keeping]: "keeps_factor (Factors_Confirm E now random ids actor code)"
  unfolding Factors_Confirm_def [abs_def] by (intro keeping)

lemma keeps_read_secret [keeping]: "keeps_factor (read_secret E tenant userID)"
  unfolding read_secret_def [abs_def] by (intro keeping)

lemma keeps_consumeRecovery [keeping]: "keeps_factor (Factors_consumeRecovery E now tenant userID code)"
  unfolding Factors_consumeRecovery_def [abs_def] Let_def by (intro keeping)

section \<open>The guard\<close>

text \<open>A step is spent for an account when its row, if there is one, has reached it.\<close>

definition step_spent :: "string \<Rightarrow> factor_db \<Rightarrow> string \<Rightarrow> 64 word \<Rightarrow> bool" where
  "step_spent tenant d userID step \<longleftrightarrow> (\<forall>r \<in> set (fd_factors d). is_row tenant userID r \<longrightarrow> sint step \<le> tfLastUsedStep r)"

lemma server_cases:
  assumes "server run d = (r, d')"
  obtains (refused) e fs where "r = Inl (DatabaseError e)" "d' = d\<lparr>fd_faults := fs\<rparr>"
  | (runs) fs where "run (d\<lparr>fd_faults := fs\<rparr>) = (r, d')"
proof (cases "fd_faults d")
  case Nil
  then have "run (d\<lparr>fd_faults := []\<rparr>) = (r, d')" using assms by (cases d) (simp add: server_def)
  then show ?thesis by (rule runs)
next
  case (Cons f fs)
  then show ?thesis using assms runs refused by (cases f) (auto simp: server_def)
qed

lemma builder_write_cases:
  assumes "builder_write g run d = (r, d')"
  obtains (refused) e fs where "r = Inl e" "d' = d\<lparr>fd_faults := fs\<rparr>"
  | (runs) fs where "run (Tenant g) (d\<lparr>fd_faults := fs\<rparr>) = (r, d')"
proof (cases "Writable g = None \<and> \<not> (Tenant g = [] \<or> \<not> ValidTenant (Tenant g))")
  case True
  then have "server (run (Tenant g)) d = (r, d')" using assms by (simp add: builder_write_def builder_read_def)
  then show ?thesis by (cases rule: server_cases) (auto intro: refused runs)
next
  case False
  then have "\<exists>e. r = Inl e" "d' = d\<lparr>fd_faults := fd_faults d\<rparr>"
    using assms by (auto simp: builder_write_def builder_read_def Let_def split: option.splits)
  then show ?thesis using refused by blast
qed

lemma spendStep_cases:
  assumes "enrolments_spendStep g userID step d = (r, d')"
  obtains (refused) "r \<noteq> Inr True" "fd_factors d' = fd_factors d"
  | (runs) "r = Inr (length (filter (\<lambda>r. is_row (Tenant g) userID r \<and> tfLastUsedStep r < sint step) (fd_factors d)) = 1)"
      "fd_factors d' = map (\<lambda>r. if is_row (Tenant g) userID r \<and> tfLastUsedStep r < sint step
         then r\<lparr>tfLastUsedStep := sint step\<rparr> else r) (fd_factors d)"
proof (cases "Grant_Check g ActionTwoFactorManage")
  case None
  obtain q d1 where u: "update_factors g userID (\<lambda>r. tfLastUsedStep r < sint step)
      (\<lambda>r. r\<lparr>tfLastUsedStep := sint step\<rparr>) d = (q, d1)" by fastforce
  then have r: "(r, d') = (case q of Inl e \<Rightarrow> (Inl e, d1) | Inr changed \<Rightarrow> (Inr (changed = 1), d1))"
    using assms None by (simp add: enrolments_spendStep_def Check_def)
  show ?thesis using u [unfolded update_factors_def]
  proof (cases rule: builder_write_cases)
    case (refused e fs)
    then show ?thesis using r that(1) by simp
  next
    case (runs fs)
    then show ?thesis using r that(2) by (auto simp: Let_def)
  qed
next
  case (Some e)
  then have "r = Inl (AuthError e)" "d' = d" using assms by (simp_all add: enrolments_spendStep_def Check_def)
  then show ?thesis using that(1) by simp
qed

lemma raised_rows:
  assumes "\<And>r. r \<in> set rs \<Longrightarrow> is_row t u r \<Longrightarrow> P r \<Longrightarrow> n \<le> m" "\<And>r. r \<in> set rs \<Longrightarrow> is_row t u r \<Longrightarrow> \<not> P r \<Longrightarrow> n \<le> tfLastUsedStep r"
  shows "\<forall>r \<in> set (map (\<lambda>r. if P r then r\<lparr>tfLastUsedStep := m\<rparr> else r) rs). is_row t u r \<longrightarrow> n \<le> tfLastUsedStep r"
  using assms by (auto simp: is_row_def)

interpretation enrolment_guard: replay_guard "replayGuard_Spend g" "step_spent (Tenant g)" for g
proof unfold_locales
  fix userID step d d'
  assume "replayGuard_Spend g userID step d = (Inr True, d')"
  then have "enrolments_spendStep g userID step d = (Inr True, d')" by (simp add: replayGuard_Spend_def)
  then show "\<not> step_spent (Tenant g) d userID step \<and> step_spent (Tenant g) d' userID step"
  proof (cases rule: spendStep_cases)
    case runs
    then have "filter (\<lambda>r. is_row (Tenant g) userID r \<and> tfLastUsedStep r < sint step) (fd_factors d) \<noteq> []" by auto
    then have "\<not> step_spent (Tenant g) d userID step" by (auto simp: step_spent_def filter_empty_conv)
    moreover have "step_spent (Tenant g) d' userID step"
      unfolding step_spent_def runs(2) by (rule raised_rows) simp_all
    ultimately show ?thesis ..
  qed simp
next
  fix d userID step userID' step'
  assume spent: "step_spent (Tenant g) d userID step"
  obtain r d' where "enrolments_spendStep g userID' step' d = (r, d')" by fastforce
  then have "step_spent (Tenant g) d' userID step"
  proof (cases rule: spendStep_cases)
    case runs
    show ?thesis
      unfolding step_spent_def runs(2)
      by (rule raised_rows) (use spent in \<open>auto simp: step_spent_def\<close>)
  qed (use spent in \<open>simp add: step_spent_def\<close>)
  then show "step_spent (Tenant g) (snd (replayGuard_Spend g userID' step' d)) userID step"
    using \<open>enrolments_spendStep g userID' step' d = (r, d')\<close> by (simp add: replayGuard_Spend_def)
qed

section \<open>One id, two tenants\<close>

text \<open>The key of an enrolment is the account's id alone, while every statement is about one tenant: an
  account whose id another tenant has enrolled is told that it already has an enabled factor, and asked
  whether it needs one, no.\<close>

lemma enrol_blocked_by_other_tenant:
  assumes "r \<in> set (fd_factors d)" "tfUserID r = userID" "tfTenantID r \<noteq> tenant"
    and "\<forall>q \<in> set (fd_factors d). \<not> is_row tenant userID q" "fd_faults d = []" "ValidTenant tenant" "secret \<noteq> []"
  shows "fst (enrolments_enrol (SystemGrant ActionTwoFactorManage tenant) now userID secret d) = Inl ErrTwoFactorAlreadyEnabled"
    and "fst (Factors_Required tenant userID d) = Inr False"
proof -
  have valid: "tenant \<noteq> []" using assms(6) by (auto simp: ValidTenant_def)
  have none: "filter (\<lambda>r. is_row tenant userID r \<longrightarrow> tfConfirmedAt r \<noteq> None) (fd_factors d) = fd_factors d"
    using assms(4) by (intro filter_True) blast
  show "fst (enrolments_enrol (SystemGrant ActionTwoFactorManage tenant) now userID secret d) = Inl ErrTwoFactorAlreadyEnabled"
    using assms(1-3,5-7) valid none
    by (auto simp: enrolments_enrol_def insert_factor_def Check_def Grant_Check_def SystemGrant_valid builder_write_def
        builder_read_def Writable_def Tenant_def server_def Let_def list_ex_iff)
  have "find (is_row tenant userID) (fd_factors d) = None" using assms(4) by (simp add: find_None_iff)
  then show "fst (Factors_Required tenant userID d) = Inr False"
    using assms(5,6) valid
    by (simp add: Factors_Required_def enrolments_required_def enrolments_find_def Check_def Grant_Check_def
        SystemGrant_valid builder_read_def Tenant_def server_def Let_def)
qed

section \<open>Every sign-in has a step of its own\<close>

definition signed_in :: "string \<Rightarrow> string \<Rightarrow> request \<Rightarrow> bool" where
  "signed_in tenant userID rq \<longleftrightarrow> rq_tenant rq = tenant \<and> rq_user rq = userID \<and>
     (rq_stage rq = Clearing \<or> rq_stage rq = Answered None)"

text \<open>The code of a request is the one of a step next to the instant it was checked.\<close>

definition proves_step :: "factor_env \<Rightarrow> string \<Rightarrow> request \<Rightarrow> 64 word \<Rightarrow> bool" where
  "proves_step E payload rq step =
     (case decryptSecret E payload of
        Inl _ \<Rightarrow> False
      | Inr secret \<Rightarrow>
          (case TOTP_step Default (rq_at rq) of
             Inl _ \<Rightarrow> False
           | Inr center \<Rightarrow> unat center \<le> unat step + 1 \<and> unat step \<le> unat center + 1 \<and>
               HOTP (fe_mac E) secret step DefaultDigits = Inr (NormalizeCode (fe_upper E) (rq_code rq))))"

lemma proves_step_cong:
  "rq_at rq' = rq_at rq \<Longrightarrow> rq_code rq' = rq_code rq \<Longrightarrow> proves_step E payload rq' = proves_step E payload rq"
  by (rule ext) (simp add: proves_step_def cong: sum.case_cong)

lemma factor_kept_row:
  assumes "factor_kept tenant userID payload n d" "r \<in> set (fd_factors d)" "is_row tenant userID r"
  shows "tfSecret r = payload \<and> twoFactor_enabled r \<and> n \<le> tfLastUsedStep r"
proof -
  obtain q where q: "q \<in> set (fd_factors d)" "is_row tenant userID q" "tfSecret q = payload" "twoFactor_enabled q" "n \<le> tfLastUsedStep q"
    and "distinct (map tfUserID (fd_factors d))" using assms(1) by (auto simp: factor_kept_def)
  then have "q = r" using assms(2,3) by (auto simp: is_row_def distinct_map dest: inj_onD)
  then show ?thesis using q by simp
qed

lemma keepsD: "keeps_factor f \<Longrightarrow> f d = (r, d') \<Longrightarrow> factor_kept t u p n d \<Longrightarrow> factor_kept t u p n d'"
  unfolding keeps_factor_def by (metis snd_conv)

lemma read_secret_payload:
  assumes "factor_kept tenant userID payload n d" "read_secret E tenant userID d = (Inr secret, d')"
  shows "decryptSecret E payload = Inr secret"
proof -
  let ?g = "SystemGrant ActionTwoFactorRead tenant"
  obtain r d1 where find: "enrolments_find ?g userID d = (Inr r, d1)" and dec: "decryptSecret E (tfSecret r) = Inr secret"
    using assms(2) by (auto simp: read_secret_def split: sum.splits prod.splits if_splits)
  have valid: "Grant_Check ?g ActionTwoFactorRead = None" "builder_read ?g (\<lambda>tenant d. (case find (is_row tenant userID) (fd_factors d)
      of None \<Rightarrow> Inl ErrTwoFactorNotEnrolled | Some r \<Rightarrow> Inr r, d)) d = (Inr r, d1)"
    using find by (auto simp: enrolments_find_def Check_def split: option.splits)
  then have "ValidTenant tenant" using SystemGrant_invalid [of tenant ActionTwoFactorRead]
    by (auto simp: Grant_Check_def split: if_splits)
  then have T: "Tenant ?g = tenant" by (simp add: SystemGrant_valid Tenant_def)
  have "server (\<lambda>d. (case find (is_row tenant userID) (fd_factors d) of None \<Rightarrow> Inl ErrTwoFactorNotEnrolled | Some r \<Rightarrow> Inr r, d)) d = (Inr r, d1)"
    using valid(2) by (auto simp: builder_read_def T Let_def split: if_splits)
  then have "find (is_row tenant userID) (fd_factors d) = Some r"
    by (cases rule: server_cases) (auto split: option.splits)
  then have "r \<in> set (fd_factors d)" "is_row tenant userID r" by (auto simp: find_Some_iff)
  then show ?thesis using factor_kept_row [OF assms(1)] dec by auto
qed

lemma check_code_accepts:
  assumes "factor_kept tenant userID payload n d"
    and "check_code E now (SystemGrant ActionTwoFactorManage tenant) userID secret code d = (Some None, d')"
  shows "\<exists>step. TOTP_Verify (fe_mac E) zero_totp secret (NormalizeCode (fe_upper E) code) now = Some (Inr step) \<and>
    n < sint step \<and> factor_kept tenant userID payload (sint step) d'"
proof -
  let ?g = "SystemGrant ActionTwoFactorManage tenant"
  have v: "Authenticator_Verify (fe_mac E) (fe_upper E) zero_totp (Some (replayGuard_Spend ?g)) now userID secret code d = (Some None, d')"
    using assms(2) by (auto simp: check_code_def split: prod.splits)
  then obtain step q where spend: "enrolments_spendStep ?g userID step q = (Inr True, d')"
    by (auto simp: Authenticator_Verify_def replayGuard_Spend_def split: if_splits option.splits sum.splits prod.splits)
  then have "g_valid ?g" by (auto simp: enrolments_spendStep_def Check_def Grant_Check_def split: if_splits)
  then have "ValidTenant tenant" using SystemGrant_invalid by blast
  then have T: "Tenant ?g = tenant" by (simp add: SystemGrant_valid Tenant_def)
  obtain step where step: "TOTP_Verify (fe_mac E) zero_totp secret (NormalizeCode (fe_upper E) code) now = Some (Inr step)"
      "\<not> step_spent tenant d userID step" "step_spent tenant d' userID step"
    using enrolment_guard.Verify_accepts [OF v] unfolding T by blast
  have "n < sint step"
    using step(2) factor_kept_row [OF assms(1)] unfolding step_spent_def by fastforce
  moreover have "factor_kept tenant userID payload n d'" using keepsD [OF keeps_check_code assms(2,1)] .
  then have "factor_kept tenant userID payload (sint step) d'"
    using step(3) unfolding factor_kept_def step_spent_def by blast
  ultimately show ?thesis using step(1) by blast
qed

lemma request_step_frame:
  assumes "request_step E St now rq s d = (rq', s', d')"
  shows "rq_tenant rq' = rq_tenant rq \<and> rq_user rq' = rq_user rq \<and> rq_code rq' = rq_code rq"
    and "factor_kept t u p n d \<Longrightarrow> factor_kept t u p n d'"
    and "signed_in tenant userID rq \<Longrightarrow> signed_in tenant userID rq' \<and> rq_at rq' = rq_at rq"
    and "signed_in tenant userID rq' \<Longrightarrow> signed_in tenant userID rq \<or> rq_stage rq = Entering \<and> rq_at rq' = now \<and>
      check_code E now (SystemGrant ActionTwoFactorManage (rq_tenant rq)) (rq_user rq) (rq_secret rq) (rq_code rq) d = (Some None, d')"
    and "rq_stage rq' = Entering \<Longrightarrow> read_secret E (rq_tenant rq) (rq_user rq) d = (Inr (rq_secret rq'), d')"
proof -
  have read: "read_secret E t' u' d = (r, d1) \<Longrightarrow> factor_kept t u p n d \<Longrightarrow> factor_kept t u p n d1" for t' u' r d1
    using keepsD [OF keeps_read_secret] by blast
  have check: "check_code E now g u' secret code d = (r, d1) \<Longrightarrow> factor_kept t u p n d \<Longrightarrow> factor_kept t u p n d1" for g u' secret code r d1
    using keepsD [OF keeps_check_code] by blast
  show "factor_kept t u p n d \<Longrightarrow> factor_kept t u p n d'"
    using assms unfolding request_step_def
    by (auto split: request_stage.splits sum.splits prod.splits option.splits dest: read check)
qed (use assms in \<open>auto simp: request_step_def signed_in_def split: request_stage.splits sum.splits prod.splits option.splits\<close>)

text \<open>The invariant: the steps of the requests that are through are their own and lie between the step the
  enrolment began with and the one it has reached, and a request that is about to check has the secret.\<close>

definition sign_ins :: "factor_env \<Rightarrow> string \<Rightarrow> string \<Rightarrow> string \<Rightarrow> int \<Rightarrow> 's factor_system \<Rightarrow> (nat \<Rightarrow> 64 word) \<Rightarrow> int \<Rightarrow> bool" where
  "sign_ins E tenant userID payload n0 x step n \<longleftrightarrow> n0 \<le> n \<and> factor_kept tenant userID payload n (fs_db x) \<and>
     (\<forall>rq \<in> set (fs_requests x). rq_tenant rq = tenant \<longrightarrow> rq_user rq = userID \<longrightarrow> rq_stage rq = Entering \<longrightarrow>
        decryptSecret E payload = Inr (rq_secret rq)) \<and>
     (\<forall>i < length (fs_requests x). signed_in tenant userID (fs_requests x ! i) \<longrightarrow>
        n0 < sint (step i) \<and> sint (step i) \<le> n \<and> proves_step E payload (fs_requests x ! i) (step i)) \<and>
     inj_on step {i. i < length (fs_requests x) \<and> signed_in tenant userID (fs_requests x ! i)}"

lemma sign_ins_db:
  assumes "sign_ins E tenant userID payload n0 x step n" "fs_requests y = fs_requests x"
    and "factor_kept tenant userID payload n (fs_db x) \<Longrightarrow> factor_kept tenant userID payload n (fs_db y)"
  shows "sign_ins E tenant userID payload n0 y step n"
  using assms unfolding sign_ins_def by auto

lemma request_step_sign_ins:
  assumes sha1: "sha1_sized (fe_mac E)" and inv: "sign_ins E tenant userID payload n0 x step n"
    and i: "i < length (fs_requests x)"
    and st: "request_step E St (fs_now x) (fs_requests x ! i) (fs_store x) (fs_db x) = (rq, s, d)"
  shows "\<exists>step n. sign_ins E tenant userID payload n0
    (x\<lparr>fs_store := s, fs_db := d, fs_requests := (fs_requests x)[i := rq]\<rparr>) step n"
proof -
  let ?rqs = "fs_requests x" and ?rq = "fs_requests x ! i" and ?in = "signed_in tenant userID"
  let ?y = "x\<lparr>fs_store := s, fs_db := d, fs_requests := ?rqs[i := rq]\<rparr>"
  note frame = request_step_frame [OF st]
  have kept: "factor_kept tenant userID payload n (fs_db x)" "n0 \<le> n"
    and secrets: "\<And>rq. rq \<in> set ?rqs \<Longrightarrow> rq_tenant rq = tenant \<Longrightarrow> rq_user rq = userID \<Longrightarrow> rq_stage rq = Entering \<Longrightarrow>
        decryptSecret E payload = Inr (rq_secret rq)"
    and steps: "\<And>j. j < length ?rqs \<Longrightarrow> ?in (?rqs ! j) \<Longrightarrow>
        n0 < sint (step j) \<and> sint (step j) \<le> n \<and> proves_step E payload (?rqs ! j) (step j)"
    and own: "inj_on step {j. j < length ?rqs \<and> ?in (?rqs ! j)}"
    using inv by (auto simp: sign_ins_def)
  have secret: "decryptSecret E payload = Inr (rq_secret rq)"
    if "rq_tenant rq = tenant" "rq_user rq = userID" "rq_stage rq = Entering"
    using frame(5) [OF that(3)] frame(1) that(1,2) read_secret_payload [OF kept(1)] by simp
  have secrets': "\<forall>rq' \<in> set (?rqs[i := rq]). rq_tenant rq' = tenant \<longrightarrow> rq_user rq' = userID \<longrightarrow> rq_stage rq' = Entering \<longrightarrow>
      decryptSecret E payload = Inr (rq_secret rq')"
    using secrets secret set_update_subset_insert [of ?rqs i rq] by blast
  show ?thesis
  proof (cases "?in rq \<and> \<not> ?in ?rq")
    case False
    have same: "?in (?rqs[i := rq] ! j) \<longleftrightarrow> ?in (?rqs ! j)" "?in (?rqs ! j) \<Longrightarrow> proves_step E payload (?rqs[i := rq] ! j) = proves_step E payload (?rqs ! j)"
      if "j < length ?rqs" for j
      using that False frame(3) [of tenant userID] frame(1) i
      by (auto simp: nth_list_update intro!: proves_step_cong)
    have "sign_ins E tenant userID payload n0 ?y step n"
      using kept frame(2) [OF kept(1)] secrets' steps own same by (auto simp: sign_ins_def inj_on_def)
    then show ?thesis by blast
  next
    case True
    have enter: "rq_stage ?rq = Entering" "rq_at rq = fs_now x" and
      check: "check_code E (fs_now x) (SystemGrant ActionTwoFactorManage tenant) userID (rq_secret ?rq) (rq_code ?rq) (fs_db x) = (Some None, d)"
      and who: "rq_tenant ?rq = tenant" "rq_user ?rq = userID"
      using True frame(4) [of tenant userID] frame(1) by (auto simp: signed_in_def)
    obtain st where st: "TOTP_Verify (fe_mac E) zero_totp (rq_secret ?rq) (NormalizeCode (fe_upper E) (rq_code ?rq)) (fs_now x) = Some (Inr st)"
      "n < sint st" "factor_kept tenant userID payload (sint st) d"
      using check_code_accepts [OF kept(1) check] by blast
    have "proves_step E payload rq st"
      using TOTP_Verify_default [OF sha1 st(1) [unfolded zero_totp_def]] secrets [OF nth_mem [OF i] who enter(1)] enter(2) frame(1)
      by (auto simp: proves_step_def)
    moreover have below: "sint (step j) < sint st \<and> step j \<noteq> st" if "j < length ?rqs" "?in (?rqs ! j)" for j
      using steps [OF that] st(2) by fastforce
    ultimately have "sign_ins E tenant userID payload n0 ?y (step(i := st)) (sint st)"
      using kept(2) st(2,3) secrets' steps own True i
      by (auto simp: sign_ins_def nth_list_update inj_on_def less_imp_le split: if_splits)
    then show ?thesis by blast
  qed
qed

lemma factor_step_sign_ins:
  assumes "sha1_sized (fe_mac E)" and inv: "sign_ins E tenant userID payload n0 x step n" and st: "factor_step E St x y"
  shows "\<exists>step n. sign_ins E tenant userID payload n0 y step n"
proof -
  have db: "\<exists>step n. sign_ins E tenant userID payload n0 y step n"
    if "fs_requests y = fs_requests x"
      "factor_kept tenant userID payload n (fs_db x) \<Longrightarrow> factor_kept tenant userID payload n (fs_db y)"
    using sign_ins_db [OF inv that] by blast
  show ?thesis using st
  proof cases
    case (request i rq s d)
    then show ?thesis using request_step_sign_ins [OF assms(1,2)] by blast
  next
    case (recover tenant' userID' code r s d)
    have "d = fs_db x \<or> (\<exists>q. Factors_consumeRecovery E (fs_now x) tenant' userID' code (fs_db x) = (q, d))"
      using recover(2) by (auto simp: Factors_ConsumeRecovery_def Factors_challenge_def split: sum.splits prod.splits option.splits)
    then show ?thesis using db recover(1) keepsD [OF keeps_consumeRecovery] by auto
  next
    case (enrol random order actor issuer r' d)
    then show ?thesis using db keepsD [OF keeps_Begin] by auto
  next
    case (confirm random ids actor code r'' d)
    then show ?thesis using db keepsD [OF keeps_Confirm] by auto
  next
    case (regenerate random ids actor r3 d)
    then show ?thesis using db keepsD [OF keeps_Regenerate] by auto
  qed (use db in auto)
qed

lemma factor_reaches_sign_ins:
  assumes "factor_reaches E St x y" "sha1_sized (fe_mac E)" "sign_ins E tenant userID payload n0 x step n"
  shows "\<exists>step n. sign_ins E tenant userID payload n0 y step n"
  using assms(1)
proof (induction rule: rtranclp_induct)
  case base
  then show ?case using assms(3) by blast
next
  case (step y z)
  then show ?case using factor_step_sign_ins [OF assms(2)] by blast
qed

text \<open>A request that runs alone for a while is such a sequence of steps.\<close>

lemma run_request_reaches:
  assumes "i < length (fs_requests x)"
    and "run_request n E St (fs_now x) (fs_requests x ! i) (fs_store x) (fs_db x) = (rq, s, d)"
  shows "factor_reaches E St x (x\<lparr>fs_store := s, fs_db := d, fs_requests := (fs_requests x)[i := rq]\<rparr>)"
  using assms
proof (induction n arbitrary: x)
  case (Suc n)
  obtain rq1 s1 d1 where step: "request_step E St (fs_now x) (fs_requests x ! i) (fs_store x) (fs_db x) = (rq1, s1, d1)"
    by (metis surj_pair)
  let ?y = "x\<lparr>fs_store := s1, fs_db := d1, fs_requests := (fs_requests x)[i := rq1]\<rparr>"
  have "factor_step E St x ?y" by (rule factor_step.request [OF Suc.prems(1) step])
  moreover have "factor_reaches E St ?y (?y\<lparr>fs_store := s, fs_db := d, fs_requests := (fs_requests ?y)[i := rq]\<rparr>)"
    using Suc.IH [of ?y] Suc.prems step by simp
  ultimately show ?case by (simp add: converse_rtranclp_into_rtranclp)
next
  case 0
  then show ?case by (cases x) auto
qed

section \<open>One sign-in\<close>

text \<open>An enrolment, and a request with the code of the step after the one of the instant.\<close>

definition trial_mac :: "bytes \<Rightarrow> bytes \<Rightarrow> bytes" where "trial_mac k m = ''00000000000000000000''"

definition trial_factors :: factor_env where
  "trial_factors = \<lparr>fe_mac = trial_mac, fe_upper = (\<lambda>r. r), fe_print = (\<lambda>r. True), fe_encrypt = Some, fe_decrypt = Some,
     fe_hash = Some, fe_check = (=), fe_Owner = (\<lambda>s. Inl (NoAccount (sID s))),
     fe_FindForAuthentication = (\<lambda>t u. Inl (NoAccount u))\<rparr>"

lemma trial_HOTP: "HOTP trial_mac ''k'' n 6 = Inr ''464432''"
proof -
  have "dynamic_truncate ''00000000000000000000'' = Some 808464432" by (simp add: dynamic_truncate_def big_endian_Uint32_def Let_def)
  moreover have "format_code 808464432 6 = ''464432''"
    by (simp add: format_code_def zero_padded_def pow10_def digit_char_def show_nat.simps [of "numeral k" for k] char_of_def bit_0)
  ultimately show ?thesis by (simp add: HOTP_def trial_mac_def MinDigits_def MaxDigits_def)
qed

lemma trial_normal: "NormalizeCode (\<lambda>r. r) ''464432'' = ''464432''"
  by (rule NormalizeCode_plain) (simp add: recoveryAlphabet_def)

definition trial_db :: "int \<Rightarrow> factor_db" where
  "trial_db last_step = \<lparr>fd_factors = [\<lparr>tfUserID = ''ann'', tfTenantID = ''t'', tfSecret = EncodeSecret ''k'', tfConfirmedAt = Some 1,
     tfLastUsedStep = last_step, tfCreatedAt = 0\<rparr>], fd_codes = [], fd_outbox = [], fd_faults = []\<rparr>"

lemma trial_sized: "sha1_sized trial_mac"
  by (simp add: sha1_sized_def trial_mac_def)

lemma trial_step: "TOTP_step Default Minute = Inr 2"
  by (simp add: TOTP_step_def Default_def Let_def sdiv_nonneg)

lemma trial_Verify: "TOTP_Verify trial_mac zero_totp ''k'' ''464432'' Minute = Some (Inr 3)"
proof -
  have d: "TOTP_Resolve zero_totp = Default" "Skew Default = 1" "Digits Default = 6"
    by (simp_all add: zero_totp_def TOTP_Resolve_def Default_def DefaultDigits_def)
  have "TOTP_Validate zero_totp = None"
    by (simp add: TOTP_Validate_def d Let_def MinDigits_def MaxDigits_def) (simp add: Default_def smod_nonneg)
  then show ?thesis
    using TOTP_Verify_window [of trial_mac "''k''" zero_totp "''464432''" "Minute" 2] trial_sized trial_step
    by (simp add: d accepted_steps_def trial_HOTP Let_def last_map last_upt)
qed

lemma trial_tenant: "ValidTenant ''t''"
  by (simp add: ValidTenant_def tenant_first_def)

lemma trial_run:
  "\<exists>s. run_request 4 trial_factors array_ops Minute (new_request ''t'' ''ann'' ''464432'') NewArrayStore (trial_db 0) =
   ((new_request ''t'' ''ann'' ''464432'')\<lparr>rq_attempt := 1, rq_secret := ''k'', rq_at := Minute, rq_stage := Answered None\<rparr>,
    s, trial_db 3)"
proof -
  let ?key = "challengeKey trial_factors ''t'' ''ann''"
  obtain s1 where count: "challenge_count array_ops Minute ?key NewArrayStore = (Inr 1, s1)"
    by (simp add: challenge_count_def array_ops_def array_op_defs live_def NewArrayStore_def ChallengeWindow_def
        ChallengeAttempts_def Let_def in_int64_def)
  have read: "read_secret trial_factors ''t'' ''ann'' (trial_db 0) = (Inr ''k'', trial_db 0)"
    by (simp add: read_secret_def enrolments_find_def Check_def Grant_Check_def SystemGrant_valid [OF trial_tenant]
        builder_read_def Tenant_def trial_tenant server_def trial_db_def is_row_def twoFactor_enabled_def zero_time_def
        decryptSecret_def trial_factors_def DecodeSecret_EncodeSecret Let_def)
  have spend: "enrolments_spendStep (SystemGrant ActionTwoFactorManage ''t'') ''ann'' 3 (trial_db 0) = (Inr True, trial_db 3)"
    by (simp add: enrolments_spendStep_def update_factors_def Check_def Grant_Check_def SystemGrant_valid [OF trial_tenant]
        builder_write_def builder_read_def Writable_def Tenant_def trial_tenant server_def trial_db_def is_row_def Let_def)
  have check: "check_code trial_factors Minute (SystemGrant ActionTwoFactorManage ''t'') ''ann'' ''k'' ''464432'' (trial_db 0) =
      (Some None, trial_db 3)"
    using trial_Verify spend
    by (simp add: check_code_def Authenticator_Verify_def trial_factors_def trial_normal replayGuard_Spend_def)
  show ?thesis
    by (simp add: numeral_eq_Suc request_step_def new_request_def rq_key_def count read check)
qed

section \<open>Properties\<close>

text \<open>C40. However calls of the sign-in challenge interleave over one database, with other accounts, recovery
  codes, enrolments, refusals of the server and time in between, every one that accepts an account's code
  has used up a time step of its own: the steps are different from one another and higher than the one the
  enrolment stood at, and each code is that of its step, which is at most one away from the instant it was
  checked. So a code that was seen cannot be used again.\<close>

theorem sign_ins_use_own_steps:
  assumes "factor_reaches E array_ops x y" "sha1_sized (fe_mac E)"
    and "list_all (\<lambda>rq. rq_stage rq = Counting) (fs_requests x)"
    and "factor_kept tenant userID payload n (fs_db x)"
  shows "\<exists>step. inj_on step {i. i < length (fs_requests y) \<and> signed_in tenant userID (fs_requests y ! i)} \<and>
    (\<forall>i < length (fs_requests y). signed_in tenant userID (fs_requests y ! i) \<longrightarrow>
       n < sint (step i) \<and> proves_step E payload (fs_requests y ! i) (step i))"
proof -
  have "rq_stage (fs_requests x ! i) = Counting" if "i < length (fs_requests x)" for i
    using assms(3) that by (simp add: list_all_length)
  then have "sign_ins E tenant userID payload n x (\<lambda>_. 0) n"
    using assms(3,4) by (auto simp: sign_ins_def list_all_iff signed_in_def inj_on_def)
  then obtain step n' where "sign_ins E tenant userID payload n y step n'"
    using factor_reaches_sign_ins [OF assms(1,2)] by blast
  then show ?thesis unfolding sign_ins_def by blast
qed

theorem sign_ins_use_own_steps_witness:
  "\<exists>step. 0 < sint step \<and> proves_step trial_factors (EncodeSecret ''k'')
     ((new_request ''t'' ''ann'' ''464432'')\<lparr>rq_attempt := 1, rq_secret := ''k'', rq_at := Minute, rq_stage := Answered None\<rparr>) step"
proof -
  let ?new = "new_request ''t'' ''ann'' ''464432''"
  let ?told = "?new\<lparr>rq_attempt := 1, rq_secret := ''k'', rq_at := Minute, rq_stage := Answered None\<rparr>"
  let ?x = "\<lparr>fs_now = Minute, fs_store = NewArrayStore, fs_db = trial_db 0, fs_requests = [?new]\<rparr>"
  obtain s where run: "run_request 4 trial_factors array_ops Minute ?new NewArrayStore (trial_db 0) = (?told, s, trial_db 3)"
    using trial_run by blast
  let ?y = "\<lparr>fs_now = Minute, fs_store = s, fs_db = trial_db 3, fs_requests = [?told]\<rparr>"
  have reaches: "factor_reaches trial_factors array_ops ?x ?y"
    using run_request_reaches [of 0 ?x 4 trial_factors array_ops] run by simp
  have sized: "sha1_sized (fe_mac trial_factors)" using trial_sized by (simp add: trial_factors_def)
  have start: "list_all (\<lambda>rq. rq_stage rq = Counting) (fs_requests ?x)" by (simp add: new_request_def)
  have kept: "factor_kept ''t'' ''ann'' (EncodeSecret ''k'') 0 (fs_db ?x)"
    by (simp add: factor_kept_def trial_db_def is_row_def twoFactor_enabled_def zero_time_def)
  have "signed_in ''t'' ''ann'' ?told" by (simp add: signed_in_def new_request_def)
  then show ?thesis
    using sign_ins_use_own_steps [OF reaches sized start kept] by auto
qed

end
