(* ===== verification/Spec2Isabelle.thy ===== *)
theory Spec2Isabelle
  imports Auth_Policy Auth_Throttle Cache_Lock Rate_Limiter Cache_Repository Memoized_Store Failover_Store Cron Bus_Dispatch Bus_Unique One_Time Account_Factors
begin

text \<open>Verification of the hesape collection: authorization and caching.\<close>

end
